(* ===== verification/Prelude.thy ===== *)
theory Prelude
  imports Main "HOL-Library.Word" "HOL-Library.Monad_Syntax"
begin

text \<open>
  Shared vocabulary of the development.

  \<^item> Machine integers: \<open>u8\<close>, \<open>u16\<close>, \<open>u32\<close>, \<open>u64\<close> are the C types of the same
    width; arithmetic on them wraps.  A \<open>size_t\<close> that only counts or indexes is a
    \<open>nat\<close>, and \<open>wrap32\<close> writes out the reduction modulo \<open>2 ^ 32\<close> where the C
    expression can overflow.
  \<^item> Failure: kernel code ends in \<open>debug_panic\<close> (lib/kernel/debug.c) when an
    \<open>ASSERT\<close> fails or \<open>PANIC\<close> is called, and has no defined behaviour when it
    leaves an object.  Both are the value \<open>None\<close>; a theorem \<open>f x = Some y\<close>
    therefore says that \<open>f\<close> neither panics nor leaves its objects and that it
    returns \<open>y\<close>.
  \<^item> Sequencing: \<open>do { \<dots> }\<close> is \<open>Option.bind\<close>.
\<close>

unbundle bit_operations_syntax

type_synonym u8 = "8 word"
type_synonym u16 = "16 word"
type_synonym u32 = "32 word"
type_synonym u64 = "64 word"

named_theorems run_simps \<open>rewrite rules that execute option-valued kernel code\<close>

definition ASSERT :: "bool \<Rightarrow> unit option" where
  "ASSERT b = (if b then Some () else None)"

definition wrap32 :: "nat \<Rightarrow> nat" where
  "wrap32 n = n mod 2 ^ 32"

definition SIZE_MAX :: nat where
  "SIZE_MAX = 2 ^ 32 - 1"

text \<open>Reading and writing an array by index; outside the array there is no result.\<close>

definition rd :: "'a list \<Rightarrow> nat \<Rightarrow> 'a option" where
  "rd xs i = (if i < length xs then Some (xs ! i) else None)"

definition wr :: "'a list \<Rightarrow> nat \<Rightarrow> 'a \<Rightarrow> 'a list option" where
  "wr xs i x = (if i < length xs then Some (xs[i := x]) else None)"

text \<open>The rounding macros of lib/round.h, on values that do not wrap.\<close>

definition DIV_ROUND_UP :: "nat \<Rightarrow> nat \<Rightarrow> nat" where
  "DIV_ROUND_UP x step = (x + step - 1) div step"

definition ROUND_UP :: "nat \<Rightarrow> nat \<Rightarrow> nat" where
  "ROUND_UP x step = (x + step - 1) div step * step"

section \<open>Executing option-valued code\<close>

lemma ASSERT_True [simp, run_simps]: "ASSERT True = Some ()"
  by (simp add: ASSERT_def)

lemma ASSERT_False [simp, run_simps]: "ASSERT False = None"
  by (simp add: ASSERT_def)

lemma ASSERT_eq_Some [simp]: "ASSERT b = Some u \<longleftrightarrow> b"
  by (simp add: ASSERT_def)

lemma bind_ASSERT [run_simps]: "Option.bind (ASSERT b) f = (if b then f () else None)"
  by (simp add: ASSERT_def)

lemma bind_eq_Some_iff: "Option.bind m f = Some y \<longleftrightarrow> (\<exists>x. m = Some x \<and> f x = Some y)"
  by (cases m) auto

lemma bind_SomeE:
  assumes "Option.bind m f = Some y"
  obtains x where "m = Some x" and "f x = Some y"
  using assms by (cases m) auto

lemma rd_in [simp, run_simps]: "i < length xs \<Longrightarrow> rd xs i = Some (xs ! i)"
  by (simp add: rd_def)

lemma wr_in [simp, run_simps]: "i < length xs \<Longrightarrow> wr xs i x = Some (xs[i := x])"
  by (simp add: wr_def)

lemma rd_eq_Some: "rd xs i = Some x \<longleftrightarrow> i < length xs \<and> x = xs ! i"
  by (auto simp: rd_def)

lemma wr_eq_Some: "wr xs i x = Some ys \<longleftrightarrow> i < length xs \<and> ys = xs[i := x]"
  by (auto simp: wr_def)

section \<open>Sizes\<close>

lemma wrap32_id [simp]: "n < 2 ^ 32 \<Longrightarrow> wrap32 n = n"
  by (simp add: wrap32_def)

lemma wrap32_less [simp]: "wrap32 n < 4294967296"
  by (simp add: wrap32_def)

lemma DIV_ROUND_UP_ge: "0 < step \<Longrightarrow> x \<le> DIV_ROUND_UP x step * step"
proof -
  assume s: "0 < step"
  have "x + step - 1 = (x + step - 1) div step * step + (x + step - 1) mod step"
    by simp
  moreover have "(x + step - 1) mod step \<le> step - 1"
    using s by (metis Suc_pred' less_Suc_eq_le mod_less_divisor)
  ultimately show ?thesis
    using s unfolding DIV_ROUND_UP_def by linarith
qed

lemma DIV_ROUND_UP_less: "0 < step \<Longrightarrow> DIV_ROUND_UP x step * step < x + step"
proof -
  assume s: "0 < step"
  have "(x + step - 1) div step * step \<le> x + step - 1"
    by (rule div_times_less_eq_dividend)
  with s show ?thesis
    unfolding DIV_ROUND_UP_def by linarith
qed

section \<open>Words read as natural numbers\<close>

lemma unat_bound: "unat (w :: 'a::len word) < 2 ^ LENGTH('a)"
  by (rule unsigned_less)

lemma unat_drop_bit: "unat (drop_bit k (w :: 'a::len word)) = unat w div 2 ^ k"
  by (simp only: unsigned_drop_bit_eq) (simp add: drop_bit_eq_div take_bit_nat_eq_self unat_bound)

lemma unat_push_bit: "unat (push_bit k (w :: 'a::len word)) = (unat w * 2 ^ k) mod 2 ^ LENGTH('a)"
  by (simp only: unsigned_push_bit_eq) (simp add: push_bit_eq_mult take_bit_eq_mod)

lemma unat_ucast_mod: "unat (ucast (w :: 'a::len word) :: 'b::len word) = unat w mod 2 ^ LENGTH('b)"
  by (simp add: unsigned_ucast_eq take_bit_eq_mod)

lemma unat_take_bit: "unat (take_bit k (w :: 'a::len word)) = unat w mod 2 ^ k"
  by (subst unsigned_take_bit_eq) (rule take_bit_eq_mod)

lemmas unat_bits = unat_drop_bit unat_push_bit unat_ucast_mod

lemma ucast_word_of_int:
  "LENGTH('b) \<le> LENGTH('a) \<Longrightarrow> ucast (word_of_int k :: 'a::len word) = (word_of_int k :: 'b::len word)"
  by (simp add: unsigned_of_int word_of_int_eq_iff take_bit_take_bit min_def)

end
