(* ===== verification/Arith64.thy ===== *)
theory Arith64
  imports Prelude "HOL-Library.Signed_Division"
begin

text \<open>
  lib/arithmetic.c: the 64-bit division routines that the compiler calls.  The trap of
  the \<open>divl\<close> instruction (divisor zero, or a quotient that needs more than 32 bits)
  is the value \<open>None\<close>.
\<close>

definition divl :: "u64 \<Rightarrow> u32 \<Rightarrow> u32 option" where
  "divl n d =
     (let n1 = ucast (drop_bit 32 n) :: u32; n0 = ucast n :: u32;
          edx_eax = unat n1 * 2 ^ 32 + unat n0
      in if d = 0 \<or> edx_eax div unat d \<ge> 2 ^ 32 then None
         else Some (of_nat (edx_eax div unat d)))"

definition nlz :: "u32 \<Rightarrow> nat" where
  "nlz x0 =
     (let (n, x) = (0, x0);
          (n, x) = (if x \<le> 0x0000FFFF then (n + 16, push_bit 16 x) else (n, x));
          (n, x) = (if x \<le> 0x00FFFFFF then (n + 8, push_bit 8 x) else (n, x));
          (n, x) = (if x \<le> 0x0FFFFFFF then (n + 4, push_bit 4 x) else (n, x));
          (n, x) = (if x \<le> 0x3FFFFFFF then (n + 2, push_bit 2 x) else (n, x))
      in if x \<le> 0x7FFFFFFF then n + 1 else n)"

definition udiv64 :: "u64 \<Rightarrow> u64 \<Rightarrow> u64 option" where
  "udiv64 n d =
     (if drop_bit 32 d = 0 then
        let b = push_bit 32 1 :: u64;
            n1 = ucast (drop_bit 32 n) :: u32;
            n0 = ucast n :: u32;
            d0 = ucast d :: u32
        in do {
          ASSERT (d0 \<noteq> 0);
          q \<leftarrow> divl (b * ucast (n1 mod d0) + ucast n0) d0;
          Some (ucast q + b * ucast (n1 div d0))
        }
      else if n < d then Some 0
      else
        let d1 = ucast (drop_bit 32 d) :: u32;
            s = nlz d1
        in do {
          q0 \<leftarrow> divl (drop_bit 1 n) (ucast (drop_bit 32 (push_bit s d)));
          let q = (ucast (drop_bit (31 - s) q0) :: u64);
          Some (if n - (q - 1) * d < d then q - 1 else q)
        })"

definition umod64 :: "u64 \<Rightarrow> u64 \<Rightarrow> u32 option" where
  "umod64 n d = do { q \<leftarrow> udiv64 n d; Some (ucast (n - d * q)) }"

definition sdiv64 :: "u64 \<Rightarrow> u64 \<Rightarrow> u64 option" where
  "sdiv64 n d =
     (let n_abs = (if 0 \<le> sint n then n else - n);
          d_abs = (if 0 \<le> sint d then d else - d)
      in do {
        q_abs \<leftarrow> udiv64 n_abs d_abs;
        Some (if (sint n < 0) = (sint d < 0) then q_abs else - q_abs)
      })"

definition smod64 :: "u64 \<Rightarrow> u64 \<Rightarrow> u32 option" where
  "smod64 n d = do { q \<leftarrow> sdiv64 n d; Some (ucast (n - d * q)) }"

text \<open>The entry points the compiler uses; the 32-bit remainders are widened again.\<close>

definition divdi3 :: "u64 \<Rightarrow> u64 \<Rightarrow> u64 option" where
  "divdi3 n d = sdiv64 n d"

definition moddi3 :: "u64 \<Rightarrow> u64 \<Rightarrow> u64 option" where
  "moddi3 n d = map_option scast (smod64 n d)"

definition udivdi3 :: "u64 \<Rightarrow> u64 \<Rightarrow> u64 option" where
  "udivdi3 n d = udiv64 n d"

definition umoddi3 :: "u64 \<Rightarrow> u64 \<Rightarrow> u64 option" where
  "umoddi3 n d = map_option ucast (umod64 n d)"

section \<open>The helper routines\<close>

text \<open>Reassembling the two halves of the dividend is the identity.\<close>

lemma divl_eq:
  "divl n d = (if d = 0 \<or> unat n div unat d \<ge> 2 ^ 32 then None else Some (of_nat (unat n div unat d)))"
proof -
  have "unat n < 2 ^ 32 * 2 ^ 32" using unat_bound [of n] by simp
  then have "unat n div 2 ^ 32 < 2 ^ 32" by (rule less_mult_imp_div_less)
  then have "unat n div 2 ^ 32 mod 2 ^ 32 * 2 ^ 32 + unat n mod 2 ^ 32 = unat n"
    by simp
  then show ?thesis unfolding divl_def Let_def unat_bits by simp
qed

lemma nlz_step:
  fixes x :: u32
  assumes x: "unat x = X * 2 ^ n" and t: "unat t = 2 ^ (32 - k) - 1" and k: "k \<le> 16"
    and lo: "2 ^ (32 - 2 * k) \<le> unat x"
    and r: "(n', x') = (if x \<le> t then (n + k, push_bit k x) else (n, x))"
  shows "unat x' = X * 2 ^ n' \<and> 2 ^ (32 - k) \<le> unat x' \<and> n' \<le> n + k"
proof (cases "x \<le> t")
  case True
  then have "unat x < 2 ^ (32 - k)"
    using t by (simp add: word_le_nat_alt) (metis One_nat_def Suc_pred' le_imp_less_Suc zero_less_numeral zero_less_power)
  then have "unat x * 2 ^ k < 2 ^ (32 - k) * 2 ^ k"
    by (intro mult_strict_right_mono) auto
  also have "\<dots> = (2::nat) ^ 32" using k by (simp flip: power_add)
  finally have p: "unat (push_bit k x) = unat x * 2 ^ k" by (simp only: unat_push_bit) simp
  have "2 ^ (32 - 2 * k) * 2 ^ k \<le> unat x * 2 ^ k" using lo by simp
  then have "2 ^ (32 - k) \<le> unat x * 2 ^ k" using k by (simp flip: power_add)
  with True r p x show ?thesis by (simp add: power_add)
next
  case False
  then show ?thesis using r t x
    by (auto simp add: word_le_nat_alt)
qed
lemma nlz_spec:
  assumes "x \<noteq> 0"
  shows "2 ^ 31 \<le> unat x * 2 ^ nlz x" "unat x * 2 ^ nlz x < 2 ^ 32" "nlz x \<le> 31"
proof -
  obtain n1 :: nat and x1 where s1: "(n1, x1) = (if x \<le> 0x0000FFFF then (0 + 16, push_bit 16 x) else (0, x))"
    by (metis surj_pair)
  obtain n2 x2 where s2: "(n2, x2) = (if x1 \<le> 0x00FFFFFF then (n1 + 8, push_bit 8 x1) else (n1, x1))"
    by (metis surj_pair)
  obtain n3 x3 where s3: "(n3, x3) = (if x2 \<le> 0x0FFFFFFF then (n2 + 4, push_bit 4 x2) else (n2, x2))"
    by (metis surj_pair)
  obtain n4 x4 where s4: "(n4, x4) = (if x3 \<le> 0x3FFFFFFF then (n3 + 2, push_bit 2 x3) else (n3, x3))"
    by (metis surj_pair)
  obtain n5 x5 where s5: "(n5, x5) = (if x4 \<le> 0x7FFFFFFF then (n4 + 1, push_bit 1 x4) else (n4, x4))"
    by (metis surj_pair)
  have p: "0 < unat x" using assms by (simp add: unat_gt_0)
  have i1: "unat x1 = unat x * 2 ^ n1 \<and> 2 ^ (32 - 16) \<le> unat x1 \<and> n1 \<le> 0 + 16"
    using p by (intro nlz_step [OF _ _ _ _ s1]) auto
  have i2: "unat x2 = unat x * 2 ^ n2 \<and> 2 ^ (32 - 8) \<le> unat x2 \<and> n2 \<le> n1 + 8"
    using i1 by (intro nlz_step [OF _ _ _ _ s2]) auto
  have i3: "unat x3 = unat x * 2 ^ n3 \<and> 2 ^ (32 - 4) \<le> unat x3 \<and> n3 \<le> n2 + 4"
    using i2 by (intro nlz_step [OF _ _ _ _ s3]) auto
  have i4: "unat x4 = unat x * 2 ^ n4 \<and> 2 ^ (32 - 2) \<le> unat x4 \<and> n4 \<le> n3 + 2"
    using i3 by (intro nlz_step [OF _ _ _ _ s4]) auto
  have i5: "unat x5 = unat x * 2 ^ n5 \<and> 2 ^ (32 - 1) \<le> unat x5 \<and> n5 \<le> n4 + 1"
    using i4 by (intro nlz_step [OF _ _ _ _ s5]) auto
  have "nlz x = n5"
    using s5 unfolding nlz_def Let_def prod.case s1 [symmetric, simplified] s2 [symmetric] s3 [symmetric] s4 [symmetric]
    by (simp split: if_splits)
  then show "2 ^ 31 \<le> unat x * 2 ^ nlz x" "unat x * 2 ^ nlz x < 2 ^ 32" "nlz x \<le> 31"
    using i1 i2 i3 i4 i5 unat_bound [of x5] by simp_all
qed

section \<open>Unsigned division\<close>

text \<open>
  The quotient estimate of the branch for divisors of 33 bits and more: dividing by the
  top word of the normalised divisor is off by at most one, and only upwards.
\<close>

lemma top_word_bounds:
  fixes d s v :: nat
  assumes s: "s \<le> 31" and lo: "2 ^ 63 \<le> d * 2 ^ s" and v: "v = d * 2 ^ s div 2 ^ 32"
  shows "2 ^ 31 \<le> v" "v * 2 ^ (32 - s) \<le> d" "d < v * 2 ^ (32 - s) + 2 ^ (32 - s)"
proof -
  show "2 ^ 31 \<le> v"
    using lo div_le_mono [OF lo, of "2 ^ 32"] by (simp add: v)
  have ps: "(2::nat) ^ (32 - s) * 2 ^ s = 2 ^ 32" using s by (simp flip: power_add)
  define e where "e = v * 2 ^ (32 - s)"
  have es: "e * 2 ^ s = v * 2 ^ 32" by (simp add: e_def mult.assoc ps)
  have "v * 2 ^ 32 \<le> d * 2 ^ s" unfolding v by simp
  with es show "v * 2 ^ (32 - s) \<le> d"
    unfolding e_def by (metis mult_le_cancel2 zero_less_numeral zero_less_power)
  have "d * 2 ^ s < (v + 1) * 2 ^ 32"
    unfolding v using dividend_less_div_times [of "2 ^ 32" "d * 2 ^ s"] by simp
  also have "(v + 1) * 2 ^ 32 = (e + 2 ^ (32 - s)) * 2 ^ s"
    using ps es by (simp add: add_mult_distrib)
  finally show "d < v * 2 ^ (32 - s) + 2 ^ (32 - s)" by (simp add: e_def)
qed

text \<open>Dividing by a slightly smaller divisor \<open>e\<close> overshoots by at most one.\<close>

lemma div_by_smaller:
  fixes n d e :: nat
  assumes ed: "e \<le> d" and e_pos: "0 < e" and gap: "n * (d - e) \<le> d * e"
  shows "n div e \<le> n div d + 1"
proof -
  have "n * d = n * e + n * (d - e)" using ed by (simp add: diff_mult_distrib2)
  also have "\<dots> \<le> (n + d) * e" using gap by (simp add: add_mult_distrib)
  also have "\<dots> < (n div d + 2) * d * e"
  proof -
    have "n < (n div d + 1) * d"
      using e_pos ed dividend_less_div_times [of d n] by simp
    then have "n + d < (n div d + 2) * d" by (simp add: add_mult_distrib)
    then show ?thesis using e_pos by (rule mult_strict_right_mono)
  qed
  finally have "n * d < (n div d + 2) * e * d" by (simp only: mult_ac)
  then have "n < (n div d + 2) * e" by (simp only: mult_less_cancel2)
  then have "n div e < n div d + 2" using e_pos by (simp add: div_less_iff_less_mult)
  then show ?thesis by linarith
qed

lemma four_times_pred_le_square: "4 * (p - 1) \<le> p * (p :: nat)"
proof (cases "p \<le> 3")
  case True
  then have "p = 0 \<or> p = 1 \<or> p = 2 \<or> p = 3" by linarith
  then show ?thesis by auto
next
  case False
  then have "4 * p \<le> p * p" by (intro mult_right_mono) auto
  then show ?thesis by linarith
qed

lemma estimate_div:
  fixes n d s v :: nat
  assumes n: "n < 2 ^ 64" and s: "s \<le> 31" and lo: "2 ^ 63 \<le> d * 2 ^ s"
    and v: "v = d * 2 ^ s div 2 ^ 32"
  defines "q0 \<equiv> n div 2 div v div 2 ^ (31 - s)"
  shows "n div d \<le> q0" "q0 \<le> n div d + 1"
proof -
  define e p where "e = v * 2 ^ (32 - s)" and "p = (2::nat) ^ (32 - s)"
  note top = top_word_bounds [OF s lo v, folded e_def p_def]
  have e_pos: "0 < e" using top(1) by (simp add: e_def)
  have "q0 = n div (2 * v * 2 ^ (31 - s))"
    by (simp add: q0_def div_mult2_eq)
  also have "2 * v * 2 ^ (31 - s) = e"
    using s by (simp add: e_def Suc_diff_le [symmetric] flip: power_Suc)
  finally have q0: "q0 = n div e" .
  show "n div d \<le> q0" unfolding q0 using top(2) e_pos by (simp add: div_le_mono2)
  have pe: "2 ^ 31 * p \<le> e" using top(1) by (simp add: e_def p_def)
  have "n * (d - e) \<le> n * (p - 1)" using top(3) by (intro mult_left_mono) auto
  also have "\<dots> \<le> 2 ^ 64 * (p - 1)" using n by (intro mult_le_mono1) simp
  also have "\<dots> = 2 ^ 62 * (4 * (p - 1))" by simp
  also have "\<dots> \<le> 2 ^ 62 * (p * p)" by (rule mult_le_mono2 [OF four_times_pred_le_square])
  also have "\<dots> = 2 ^ 31 * p * (2 ^ 31 * p)" by (simp add: mult_ac)
  also have "\<dots> \<le> d * e" using pe top(2) by (intro mult_le_mono) auto
  finally show "q0 \<le> n div d + 1"
    unfolding q0 by (rule div_by_smaller [OF top(2) e_pos])
qed

lemma adjust_estimate:
  fixes N D q :: nat
  assumes D: "0 < D" "D \<le> N" and q: "N div D \<le> q" "q \<le> N div D + 1"
  shows "(if N - (q - 1) * D < D then q - 1 else q) = N div D"
proof -
  have N: "N = N div D * D + N mod D" by simp
  have Q0: "0 < N div D" using D by (simp add: div_greater_zero_iff)
  have r: "N mod D < D" using D by simp
  have "N - (N div D - 1) * D = D + N mod D"
    using Q0 N by (cases "N div D") (auto simp: add_mult_distrib)
  moreover have "N - N div D * D = N mod D" by (simp add: minus_div_mult_eq_mod)
  moreover have "q = N div D \<or> q = N div D + 1" using q by linarith
  ultimately show ?thesis using r by auto
qed

text \<open>Schoolbook division by a one-word divisor.\<close>

lemma split_div:
  fixes n d b :: nat
  assumes "0 < d"
  shows "n div d = (b * (n div b mod d) + n mod b) div d + b * (n div b div d)"
proof -
  have "n = b * (n div b) + n mod b" by simp
  also have "b * (n div b) = b * (n div b div d * d + n div b mod d)" by simp
  also have "\<dots> = b * (n div b div d) * d + b * (n div b mod d)" by (simp only: distrib_left mult_ac)
  finally have "n = (b * (n div b mod d) + n mod b) + b * (n div b div d) * d" by linarith
  then show ?thesis using assms by (metis add.commute div_mult_self3 less_numeral_extra(3) mult.commute)
qed

lemma udiv64_small:
  assumes d: "d \<noteq> 0" and small: "drop_bit 32 d = 0"
  shows "udiv64 n d = Some (n div d)"
proof -
  define N D where "N = unat n" and "D = unat d"
  have "D div 2 ^ 32 = unat (drop_bit 32 d)" by (simp only: D_def unat_drop_bit)
  then have D32: "D < 2 ^ 32" using small by (simp add: div_eq_0_iff)
  have D0: "0 < D" using d by (simp add: D_def unat_gt_0)
  have N64: "N < 2 ^ 32 * 2 ^ 32" using unat_bound [of n] by (simp add: N_def)
  define n1 n0 d0 where "n1 = (ucast (drop_bit 32 n) :: u32)" and "n0 = (ucast n :: u32)"
    and "d0 = (ucast d :: u32)"
  have u: "unat n1 = N div 2 ^ 32" "unat n0 = N mod 2 ^ 32" "unat d0 = D"
    unfolding n1_def n0_def d0_def unat_bits
    using D32 less_mult_imp_div_less [OF N64] by (simp_all add: D_def N_def)
  define A where "A = 2 ^ 32 * (N div 2 ^ 32 mod D) + N mod 2 ^ 32"
  have "A < 2 ^ 32 * (N div 2 ^ 32 mod D + 1)"
    by (simp add: A_def)
  also have "\<dots> \<le> 2 ^ 32 * D" using D0 by (intro mult_left_mono) (auto simp: Suc_leI)
  finally have AD: "A < 2 ^ 32 * D" .
  then have qA: "A div D < 2 ^ 32" by (rule less_mult_imp_div_less)
  have b: "unat (push_bit 32 1 :: u64) = 2 ^ 32" by simp
  have A: "unat (push_bit 32 1 * ucast (n1 mod d0) + ucast n0 :: u64) = A"
  proof -
    have "unat (n1 mod d0) = N div 2 ^ 32 mod D" by (simp add: unat_mod u)
    moreover have "A < 2 ^ 64" using AD D32 by simp
    ultimately show ?thesis
      unfolding unat_word_ariths b unat_ucast_mod u
      using D0 D32 by (simp add: A_def mod_mod_trivial)
  qed
  have d0: "d0 \<noteq> 0" using u D0 by auto
  have q: "divl (push_bit 32 1 * ucast (n1 mod d0) + ucast n0) d0 = Some (of_nat (A div D))"
    unfolding divl_eq A u using d0 qA by simp
  have res: "unat (ucast (of_nat (A div D) :: u32) + push_bit 32 1 * ucast (n1 div d0) :: u64) = N div D"
  proof -
    have "N div D < 2 ^ 64" using N64 div_le_dividend [of N D] by (simp, linarith)
    moreover have "unat (of_nat (A div D) :: u32) = A div D"
      using qA by (simp add: unat_of_nat)
    moreover have "unat (n1 div d0) = N div 2 ^ 32 div D" by (simp add: unat_div u)
    moreover have "N div 2 ^ 32 div D < 2 ^ 32" using less_mult_imp_div_less [OF N64]
      by (meson div_le_dividend le_less_trans)
    ultimately show ?thesis
      unfolding unat_word_ariths b unat_ucast_mod
      using split_div [OF D0, of N "2 ^ 32"] qA
      by (simp add: A_def mod_mod_trivial)
  qed
  have "ucast (of_nat (A div D) :: u32) + push_bit 32 1 * ucast (n1 div d0) = n div d"
    by (rule word_unat_eq_iff [THEN iffD2]) (simp only: res unat_div, simp only: N_def D_def)
  then show ?thesis
    using q d0 small by (simp add: udiv64_def Let_def n1_def n0_def d0_def)
qed

text \<open>Shifting by \<open>nlz\<close> brings the divisor's top bit to bit 63 and loses nothing.\<close>

lemma nlz_normalises:
  assumes large: "drop_bit 32 d \<noteq> (0 :: u64)" and s: "s = nlz (ucast (drop_bit 32 d))"
  shows "s \<le> 31" "2 ^ 63 \<le> unat d * 2 ^ s" "unat d * 2 ^ s < 2 ^ 64"
proof -
  define D where "D = unat d"
  define d1 where "d1 = (ucast (drop_bit 32 d) :: u32)"
  have D64: "D < 2 ^ 64" using unat_bound [of d] by (simp add: D_def)
  have d1: "unat d1 = D div 2 ^ 32"
    unfolding d1_def unat_bits using D64 by (simp add: D_def less_mult_imp_div_less)
  have "unat (drop_bit 32 d) \<noteq> 0" using large by (simp add: unat_eq_0)
  then have "d1 \<noteq> 0" using d1 unfolding unat_drop_bit D_def [symmetric] by auto
  note nz = nlz_spec [OF this, folded s [folded d1_def], unfolded d1]
  show "s \<le> 31" by (rule nz)
  have "2 ^ 31 * 2 ^ 32 \<le> D div 2 ^ 32 * 2 ^ s * 2 ^ 32" using nz(1) by (intro mult_right_mono) auto
  also have "\<dots> = D div 2 ^ 32 * 2 ^ 32 * 2 ^ s" by (simp only: mult_ac)
  also have "\<dots> \<le> D * 2 ^ s" by (intro mult_right_mono div_times_less_eq_dividend) simp
  finally show "2 ^ 63 \<le> unat d * 2 ^ s" by (simp add: D_def)
  have ps: "(2::nat) ^ (32 - s) * 2 ^ s = 2 ^ 32" using nz(3) by (simp flip: power_add)
  have "D div 2 ^ 32 * 2 ^ s < 2 ^ (32 - s) * 2 ^ s" using nz(2) ps by simp
  then have "D div 2 ^ 32 + 1 \<le> 2 ^ (32 - s)" by (simp only: mult_less_cancel2) linarith
  then have "(D div 2 ^ 32 + 1) * 2 ^ s \<le> 2 ^ (32 - s) * 2 ^ s" by (rule mult_right_mono) simp
  then have *: "(D div 2 ^ 32 + 1) * 2 ^ s \<le> 2 ^ 32" by (simp only: ps)
  have "D * 2 ^ s < ((D div 2 ^ 32 + 1) * 2 ^ 32) * 2 ^ s"
    using dividend_less_div_times [of "2 ^ 32" D] by (intro mult_strict_right_mono) auto
  also have "\<dots> = (D div 2 ^ 32 + 1) * 2 ^ s * 2 ^ 32" by (simp only: mult_ac)
  also have "\<dots> \<le> 2 ^ 32 * 2 ^ 32" using * by (rule mult_right_mono) simp
  finally show "unat d * 2 ^ s < 2 ^ 64" by (simp add: D_def)
qed

text \<open>The estimate the code computes with \<open>divl\<close>, read as a number.\<close>

lemma divl_estimate:
  assumes large: "drop_bit 32 d \<noteq> (0 :: u64)" and s: "s = nlz (ucast (drop_bit 32 d))"
  obtains q0 where "divl (drop_bit 1 n) (ucast (drop_bit 32 (push_bit s d))) = Some q0"
    and "unat (ucast (drop_bit (31 - s) q0) :: u64)
           = unat n div 2 div (unat d * 2 ^ s div 2 ^ 32) div 2 ^ (31 - s)"
proof -
  note nz = nlz_normalises [OF large s]
  define N v where "N = unat n" and "v = unat d * 2 ^ s div 2 ^ 32"
  have N64: "N < 2 ^ 64" using unat_bound [of n] by (simp add: N_def)
  have v: "unat (ucast (drop_bit 32 (push_bit s d)) :: u32) = v"
    unfolding unat_bits using nz(3) by (simp add: v_def less_mult_imp_div_less)
  have v31: "2 ^ 31 \<le> v" using div_le_mono [OF nz(2), of "2 ^ 32"] by (simp add: v_def)
  have q1: "N div 2 div v < 2 ^ 32"
  proof (rule less_mult_imp_div_less)
    have "N div 2 < 2 ^ 32 * 2 ^ 31" using N64 by (simp add: less_mult_imp_div_less)
    also have "\<dots> \<le> 2 ^ 32 * v" using v31 by simp
    finally show "N div 2 < 2 ^ 32 * v" .
  qed
  define q0 where "q0 = (of_nat (N div 2 div v) :: u32)"
  have uq0: "unat q0 = N div 2 div v" using q1 by (simp add: q0_def unat_of_nat)
  have b: "N div 2 div v div 2 ^ (31 - s) < 2 ^ 32" by (rule le_less_trans [OF div_le_dividend q1])
  show ?thesis
  proof
    show "divl (drop_bit 1 n) (ucast (drop_bit 32 (push_bit s d))) = Some q0"
      unfolding divl_eq v q0_def using v31 q1 v by (auto simp: unat_drop_bit N_def)
    show "unat (ucast (drop_bit (31 - s) q0) :: u64)
           = unat n div 2 div (unat d * 2 ^ s div 2 ^ 32) div 2 ^ (31 - s)"
      unfolding unat_bits uq0 N_def [symmetric] v_def [symmetric] using b by simp
  qed
qed

lemma udiv64_large:
  assumes large: "drop_bit 32 d \<noteq> 0" and ge: "\<not> n < d"
  shows "udiv64 n d = Some (n div d)"
proof -
  define N D s where "N = unat n" and "D = unat d" and "s = nlz (ucast (drop_bit 32 d))"
  have N64: "N < 2 ^ 64" using unat_bound [of n] by (simp add: N_def)
  have DN: "D \<le> N" using ge by (simp add: N_def D_def word_less_nat_alt)
  note nz = nlz_normalises [OF large s_def]
  have D0: "0 < D" using nz(2) unfolding D_def by (cases "unat d") auto
  obtain q0 where q0: "divl (drop_bit 1 n) (ucast (drop_bit 32 (push_bit s d))) = Some q0"
    and uq: "unat (ucast (drop_bit (31 - s) q0) :: u64) = N div 2 div (D * 2 ^ s div 2 ^ 32) div 2 ^ (31 - s)"
    using divl_estimate [OF large s_def, of n thesis] by (simp add: N_def D_def)
  define q where "q = (ucast (drop_bit (31 - s) q0) :: u64)"
  note est = estimate_div [OF N64 nz(1) nz(2) [folded D_def] refl, folded uq [folded q_def]]
  have "0 < N div D" using DN D0 by (simp add: div_greater_zero_iff)
  with est(1) have q_pos: "1 \<le> unat q" by linarith
  then have uq1: "unat (q - 1) = unat q - 1" by (simp add: unat_sub word_le_nat_alt)
  have le: "(unat q - 1) * D \<le> N"
    using est(2) by (intro order.trans [OF mult_right_mono div_times_less_eq_dividend]) auto
  have um: "unat ((q - 1) * d) = (unat q - 1) * D"
    unfolding unat_word_ariths uq1 D_def [symmetric] using le N64 by simp
  have us: "unat (n - (q - 1) * d) = N - (unat q - 1) * D"
    using le um by (simp add: unat_sub word_le_nat_alt N_def)
  have "unat (if n - (q - 1) * d < d then q - 1 else q) = N div D"
    using adjust_estimate [OF D0 DN est]
    by (simp add: word_less_nat_alt us uq1 split: if_splits flip: D_def)
  then have "(if n - (q - 1) * d < d then q - 1 else q) = n div d"
    by (simp add: word_unat_eq_iff unat_div N_def D_def)
  then show ?thesis
    using ge large q0 by (simp add: udiv64_def Let_def s_def q_def split: if_splits)
qed

lemma udiv64_below: "drop_bit 32 d \<noteq> 0 \<Longrightarrow> n < d \<Longrightarrow> udiv64 n d = Some (n div d)"
  by (simp add: udiv64_def div_word_less)

lemma udiv64_eq_div: "d \<noteq> 0 \<Longrightarrow> udiv64 n d = Some (n div d)"
  using udiv64_small udiv64_large udiv64_below by blast

section \<open>Signed division and remainders\<close>

lemma uint_magnitude:
  "uint (if 0 \<le> sint w then w else - w) = \<bar>sint (w :: u64)\<bar>"
proof -
  define k where "k = sint w"
  have w: "w = word_of_int k" and k: "- (2 ^ 63) \<le> k" "k < 2 ^ 63"
    using sint_ge [of w] sint_lt [of w] by (simp_all add: k_def)
  show ?thesis
  proof (cases "0 \<le> k")
    case True
    with k show ?thesis unfolding k_def [symmetric] by (simp add: w uint_word_of_int)
  next
    case False
    have m: "- w = word_of_int (- k)" by (simp add: w)
    have "uint (- w) = - k" unfolding m uint_word_of_int using False k by simp
    with False show ?thesis unfolding k_def [symmetric] by simp
  qed
qed

lemma sdiv64_eq_sdiv:
  assumes "d \<noteq> 0"
  shows "sdiv64 n d = Some (word_of_int (sint n sdiv sint d))"
proof -
  define na da where "na = (if 0 \<le> sint n then n else - n)" and "da = (if 0 \<le> sint d then d else - d)"
  have "da \<noteq> 0" using assms by (simp add: da_def)
  then have "udiv64 na da = Some (na div da)" by (rule udiv64_eq_div)
  moreover have "na div da = word_of_int (\<bar>sint n\<bar> div \<bar>sint d\<bar>)"
    using uint_magnitude [of n] uint_magnitude [of d] by (simp add: na_def da_def word_div_def)
  moreover have "sint d \<noteq> 0" using assms by (simp add: signed_eq_0_iff)
  ultimately show ?thesis
    by (auto simp: sdiv64_def Let_def signed_divide_int_def sgn_if simp flip: na_def da_def)
qed

lemma umoddi3_iff:
  assumes "d \<noteq> 0"
  shows "umoddi3 n d = Some (n mod d) \<longleftrightarrow> n mod d < 2 ^ 32"
proof -
  have r: "n - d * (n div d) = n mod d" by (simp add: minus_mult_div_eq_mod)
  have "umoddi3 n d = Some (ucast (ucast (n mod d) :: u32))"
    by (simp add: umoddi3_def umod64_def udiv64_eq_div assms r)
  moreover have "(ucast (ucast (n mod d) :: u32) = n mod d) \<longleftrightarrow> unat (n mod d) mod 2 ^ 32 = unat (n mod d)"
    by (simp add: word_unat_eq_iff unat_ucast_mod mod_mod_trivial)
  moreover have "\<dots> \<longleftrightarrow> unat (n mod d) < 2 ^ 32" 
    by (metis mod_less mod_less_divisor zero_less_numeral zero_less_power)
  ultimately show ?thesis by (simp add: word_less_nat_alt)
qed

lemma smod64_eq:
  assumes "d \<noteq> 0"
  shows "smod64 n d = Some (word_of_int (sint n smod sint d))"
proof -
  have "n - d * word_of_int (sint n sdiv sint d) = word_of_int (sint n - sint d * (sint n sdiv sint d))"
    by (simp)
  also have "sint n - sint d * (sint n sdiv sint d) = sint n smod sint d"
    by (simp add: minus_mult_sdiv_eq_smod)
  finally show ?thesis
    by (simp add: smod64_def sdiv64_eq_sdiv assms ucast_word_of_int)
qed

lemma moddi3_iff:
  assumes "d \<noteq> 0"
  shows "moddi3 n d = Some (word_of_int (sint n smod sint d))
    \<longleftrightarrow> - (2 ^ 31) \<le> sint n smod sint d \<and> sint n smod sint d < 2 ^ 31"
proof -
  define r where "r = sint n smod sint d"
  have "moddi3 n d = Some (word_of_int (signed_take_bit 31 r))"
    by (simp add: moddi3_def smod64_eq assms signed_of_int r_def) 
  moreover have "word_of_int (signed_take_bit 31 r) = (word_of_int r :: u64) \<longleftrightarrow> signed_take_bit 31 r = r"
  proof
    assume eq: "word_of_int (signed_take_bit 31 r) = (word_of_int r :: u64)"
    have "\<bar>r\<bar> < \<bar>sint d\<bar>"
      using assms by (auto simp: r_def signed_modulo_int_def sgn_if signed_eq_0_iff abs_mult)
    then have "signed_take_bit 63 r = r"
      using sint_ge [of d] sint_lt [of d] by (intro signed_take_bit_int_eq_self) auto
    moreover have "signed_take_bit 63 (signed_take_bit 31 r) = signed_take_bit 31 r"
      by (simp add: signed_take_bit_signed_take_bit)
    ultimately show "signed_take_bit 31 r = r"
      using arg_cong [OF eq, of sint] by (simp add: signed_of_int)
  qed simp
  ultimately show ?thesis
    by (simp add: signed_take_bit_int_eq_self_iff flip: r_def)
qed

section \<open>Properties\<close>

text \<open>
  C5: unsigned 64-bit division, computed from 32-bit \<open>divl\<close> instructions and a
  normalised estimate that is one too large at most, is exactly the quotient rounded down,
  for all dividends and all divisors other than zero; a zero divisor traps.  No \<open>divl\<close> on
  the way overflows.
\<close>

theorem udivdi3_correct: "udivdi3 n d = (if d = 0 then None else Some (n div d))"
proof (cases "d = 0")
  case True
  then show ?thesis by (simp add: udivdi3_def udiv64_def Let_def)
next
  case False
  then show ?thesis by (simp add: udivdi3_def udiv64_eq_div)
qed

text \<open>
  C32: signed 64-bit division truncates towards zero, as C requires, on all pairs with a
  divisor other than zero; the one quotient that does not fit, \<open>INT64_MIN / -1\<close>, wraps.
\<close>

theorem divdi3_correct:
  "divdi3 n d = (if d = 0 then None else Some (word_of_int (sint n sdiv sint d)))"
proof (cases "d = 0")
  case True
  then show ?thesis by (simp add: divdi3_def sdiv64_def udiv64_def Let_def)
next
  case False
  then show ?thesis by (simp add: divdi3_def sdiv64_eq_sdiv)
qed

text \<open>
  C39: \<open>umod64\<close> returns its 64-bit remainder as a \<open>uint32_t\<close>, so \<open>__umoddi3\<close> yields the
  remainder exactly when the remainder fits 32 bits.
\<close>

theorem umoddi3_exact: "umoddi3 n d = Some (n mod d) \<longleftrightarrow> d \<noteq> 0 \<and> n mod d < 2 ^ 32"
proof (cases "d = 0")
  case True
  then show ?thesis by (simp add: umoddi3_def umod64_def udiv64_def Let_def)
next
  case False
  then show ?thesis by (simp add: umoddi3_iff)
qed

text \<open>
  C40: \<open>smod64\<close> returns its 64-bit remainder as an \<open>int32_t\<close>, so \<open>__moddi3\<close> yields the C
  remainder exactly when that fits a signed 32-bit integer.
\<close>

theorem moddi3_exact:
  "moddi3 n d = Some (word_of_int (sint n smod sint d))
   \<longleftrightarrow> d \<noteq> 0 \<and> sint n smod sint d \<in> {- (2 ^ 31) ..< 2 ^ 31}"
proof (cases "d = 0")
  case True
  then show ?thesis by (simp add: moddi3_def smod64_def sdiv64_def udiv64_def Let_def)
next
  case False
  then show ?thesis by (simp add: moddi3_iff)
qed

end
