(* ===== verification/Klist.thy ===== *)
theory Klist
  imports Prelude
begin

text \<open>
  lib/kernel/list.c: intrusive doubly linked lists, at the level of the pointers.  An
  element is its address, the null pointer is \<open>0\<close>; the state \<open>links\<close> has the two fields of
  every \<open>struct list_elem\<close>.  A \<open>struct list\<close> at address \<open>l\<close> has its head at \<open>l\<close> and its tail
  at \<open>l + 8\<close>.  \<open>None\<close> is a failed assertion or an access through the null pointer; a loop
  that does not end has no result either, so each theorem with a result shows termination.
  The comparison function is an argument; it reads the elements, not their links.
\<close>

type_synonym addr = nat

record links =
  l_prev :: "addr \<Rightarrow> addr"
  l_next :: "addr \<Rightarrow> addr"

definition get_prev :: "links \<Rightarrow> addr \<Rightarrow> addr option" where
  "get_prev s e = (if e = 0 then None else Some (l_prev s e))"

definition get_next :: "links \<Rightarrow> addr \<Rightarrow> addr option" where
  "get_next s e = (if e = 0 then None else Some (l_next s e))"

definition set_prev :: "addr \<Rightarrow> addr \<Rightarrow> links \<Rightarrow> links option" where
  "set_prev e v s = (if e = 0 then None else Some (s\<lparr>l_prev := (l_prev s)(e := v)\<rparr>))"

definition set_next :: "addr \<Rightarrow> addr \<Rightarrow> links \<Rightarrow> links option" where
  "set_next e v s = (if e = 0 then None else Some (s\<lparr>l_next := (l_next s)(e := v)\<rparr>))"

section \<open>Basic operations\<close>

definition is_head :: "links \<Rightarrow> addr \<Rightarrow> bool" where
  "is_head s e \<longleftrightarrow> e \<noteq> 0 \<and> l_prev s e = 0 \<and> l_next s e \<noteq> 0"

definition is_interior :: "links \<Rightarrow> addr \<Rightarrow> bool" where
  "is_interior s e \<longleftrightarrow> e \<noteq> 0 \<and> l_prev s e \<noteq> 0 \<and> l_next s e \<noteq> 0"

definition is_tail :: "links \<Rightarrow> addr \<Rightarrow> bool" where
  "is_tail s e \<longleftrightarrow> e \<noteq> 0 \<and> l_prev s e \<noteq> 0 \<and> l_next s e = 0"

definition head_of :: "addr \<Rightarrow> addr" where
  "head_of l = l"

definition tail_of :: "addr \<Rightarrow> addr" where
  "tail_of l = l + 8"

definition list_init :: "addr \<Rightarrow> links \<Rightarrow> links option" where
  "list_init l s = do {
     ASSERT (l \<noteq> 0);
     s \<leftarrow> set_prev (head_of l) 0 s;
     s \<leftarrow> set_next (head_of l) (tail_of l) s;
     s \<leftarrow> set_prev (tail_of l) (head_of l) s;
     set_next (tail_of l) 0 s
   }"

definition list_begin :: "addr \<Rightarrow> links \<Rightarrow> addr option" where
  "list_begin l s = do { ASSERT (l \<noteq> 0); get_next s (head_of l) }"

definition list_next :: "addr \<Rightarrow> links \<Rightarrow> addr option" where
  "list_next e s = do { ASSERT (is_head s e \<or> is_interior s e); get_next s e }"

definition list_end :: "addr \<Rightarrow> addr option" where
  "list_end l = do { ASSERT (l \<noteq> 0); Some (tail_of l) }"

definition list_rbegin :: "addr \<Rightarrow> links \<Rightarrow> addr option" where
  "list_rbegin l s = do { ASSERT (l \<noteq> 0); get_prev s (tail_of l) }"

definition list_prev :: "addr \<Rightarrow> links \<Rightarrow> addr option" where
  "list_prev e s = do { ASSERT (is_interior s e \<or> is_tail s e); get_prev s e }"

definition list_rend :: "addr \<Rightarrow> addr option" where
  "list_rend l = do { ASSERT (l \<noteq> 0); Some (head_of l) }"

definition list_head :: "addr \<Rightarrow> addr option" where
  "list_head l = do { ASSERT (l \<noteq> 0); Some (head_of l) }"

definition list_tail :: "addr \<Rightarrow> addr option" where
  "list_tail l = do { ASSERT (l \<noteq> 0); Some (tail_of l) }"

definition list_insert :: "addr \<Rightarrow> addr \<Rightarrow> links \<Rightarrow> links option" where
  "list_insert before e s = do {
     ASSERT (is_interior s before \<or> is_tail s before);
     ASSERT (e \<noteq> 0);
     p \<leftarrow> get_prev s before;
     s \<leftarrow> set_prev e p s;
     s \<leftarrow> set_next e before s;
     p \<leftarrow> get_prev s before;
     s \<leftarrow> set_next p e s;
     set_prev before e s
   }"

definition list_splice :: "addr \<Rightarrow> addr \<Rightarrow> addr \<Rightarrow> links \<Rightarrow> links option" where
  "list_splice before first lst s = do {
     ASSERT (is_interior s before \<or> is_tail s before);
     if first = lst then Some s
     else do {
       lst \<leftarrow> list_prev lst s;
       ASSERT (is_interior s first);
       ASSERT (is_interior s lst);
       fp \<leftarrow> get_prev s first;
       ln \<leftarrow> get_next s lst;
       s \<leftarrow> set_next fp ln s;
       ln \<leftarrow> get_next s lst;
       fp \<leftarrow> get_prev s first;
       s \<leftarrow> set_prev ln fp s;
       bp \<leftarrow> get_prev s before;
       s \<leftarrow> set_prev first bp s;
       s \<leftarrow> set_next lst before s;
       bp \<leftarrow> get_prev s before;
       s \<leftarrow> set_next bp first s;
       set_prev before lst s
     }
   }"

definition list_push_front :: "addr \<Rightarrow> addr \<Rightarrow> links \<Rightarrow> links option" where
  "list_push_front l e s = do { b \<leftarrow> list_begin l s; list_insert b e s }"

definition list_push_back :: "addr \<Rightarrow> addr \<Rightarrow> links \<Rightarrow> links option" where
  "list_push_back l e s = do { b \<leftarrow> list_end l; list_insert b e s }"

definition list_remove :: "addr \<Rightarrow> links \<Rightarrow> (addr \<times> links) option" where
  "list_remove e s = do {
     ASSERT (is_interior s e);
     p \<leftarrow> get_prev s e;
     n \<leftarrow> get_next s e;
     s \<leftarrow> set_next p n s;
     n \<leftarrow> get_next s e;
     p \<leftarrow> get_prev s e;
     s \<leftarrow> set_prev n p s;
     n \<leftarrow> get_next s e;
     Some (n, s)
   }"

definition list_empty :: "addr \<Rightarrow> links \<Rightarrow> bool option" where
  "list_empty l s = do { b \<leftarrow> list_begin l s; e \<leftarrow> list_end l; Some (b = e) }"

definition list_front :: "addr \<Rightarrow> links \<Rightarrow> addr option" where
  "list_front l s = do { e \<leftarrow> list_empty l s; ASSERT (\<not> e); get_next s (head_of l) }"

definition list_back :: "addr \<Rightarrow> links \<Rightarrow> addr option" where
  "list_back l s = do { e \<leftarrow> list_empty l s; ASSERT (\<not> e); get_prev s (tail_of l) }"

definition list_pop_front :: "addr \<Rightarrow> links \<Rightarrow> (addr \<times> links) option" where
  "list_pop_front l s = do {
     front \<leftarrow> list_front l s;
     (_, s) \<leftarrow> list_remove front s;
     Some (front, s)
   }"

definition list_pop_back :: "addr \<Rightarrow> links \<Rightarrow> (addr \<times> links) option" where
  "list_pop_back l s = do {
     back \<leftarrow> list_back l s;
     (_, s) \<leftarrow> list_remove back s;
     Some (back, s)
   }"

partial_function (option) size_loop :: "links \<Rightarrow> addr \<Rightarrow> addr \<Rightarrow> nat \<Rightarrow> nat option" where
  "size_loop s stop e cnt =
     (if e = stop then Some cnt else do { e' \<leftarrow> list_next e s; size_loop s stop e' (cnt + 1) })"

definition list_size :: "addr \<Rightarrow> links \<Rightarrow> nat option" where
  "list_size l s = do { e \<leftarrow> list_begin l s; stop \<leftarrow> list_end l; size_loop s stop e 0 }"

text \<open>\<open>list_reverse\<close>: \<open>swap\<close> exchanges two link fields.\<close>

definition swap_links :: "addr \<Rightarrow> links \<Rightarrow> links option" where
  "swap_links e s = do {
     p \<leftarrow> get_prev s e;
     n \<leftarrow> get_next s e;
     s \<leftarrow> set_prev e n s;
     set_next e p s
   }"

definition swap_next_prev :: "addr \<Rightarrow> addr \<Rightarrow> links \<Rightarrow> links option" where
  "swap_next_prev a b s = do {
     t \<leftarrow> get_next s a;
     u \<leftarrow> get_prev s b;
     s \<leftarrow> set_next a u s;
     set_prev b t s
   }"

definition swap_prev_next :: "addr \<Rightarrow> addr \<Rightarrow> links \<Rightarrow> links option" where
  "swap_prev_next a b s = do {
     t \<leftarrow> get_prev s a;
     u \<leftarrow> get_next s b;
     s \<leftarrow> set_prev a u s;
     set_next b t s
   }"

partial_function (option) reverse_loop :: "addr \<Rightarrow> addr \<Rightarrow> links \<Rightarrow> links option" where
  "reverse_loop stop e s =
     (if e = stop then Some s
      else do { s \<leftarrow> swap_links e s; e' \<leftarrow> get_prev s e; reverse_loop stop e' s })"

definition list_reverse :: "addr \<Rightarrow> links \<Rightarrow> links option" where
  "list_reverse l s = do {
     empty \<leftarrow> list_empty l s;
     if empty then Some s
     else do {
       e \<leftarrow> list_begin l s;
       stop \<leftarrow> list_end l;
       s \<leftarrow> reverse_loop stop e s;
       s \<leftarrow> swap_next_prev (head_of l) (tail_of l) s;
       hn \<leftarrow> get_next s (head_of l);
       tp \<leftarrow> get_prev s (tail_of l);
       swap_prev_next hn tp s
     }
   }"

section \<open>Chains of elements\<close>

text \<open>
  \<open>linked s ns\<close>: consecutive members of \<open>ns\<close> point at each other.  \<open>nodes l xs\<close> are the
  addresses of a list with elements \<open>xs\<close>, headers included, and \<open>list_rep s l xs\<close> says that
  the list at \<open>l\<close> holds exactly \<open>xs\<close>, in this order.
\<close>

fun linked :: "links \<Rightarrow> addr list \<Rightarrow> bool" where
  "linked s (a # b # ns) \<longleftrightarrow> l_next s a = b \<and> l_prev s b = a \<and> linked s (b # ns)"
| "linked s ns \<longleftrightarrow> True"

definition nodes :: "addr \<Rightarrow> addr list \<Rightarrow> addr list" where
  "nodes l xs = head_of l # xs @ [tail_of l]"

definition list_rep :: "links \<Rightarrow> addr \<Rightarrow> addr list \<Rightarrow> bool" where
  "list_rep s l xs \<longleftrightarrow> linked s (nodes l xs) \<and> distinct (nodes l xs) \<and> 0 \<notin> set (nodes l xs)
     \<and> l_prev s (head_of l) = 0 \<and> l_next s (tail_of l) = 0"

lemma linked_append: "linked s (xs @ y # ys) \<longleftrightarrow> linked s (xs @ [y]) \<and> linked s (y # ys)"
proof (induction xs)
  case (Cons x xs)
  then show ?case by (cases xs) auto
qed simp

lemma linked_snoc2: "linked s (xs @ [a, b]) \<longleftrightarrow> linked s (xs @ [a]) \<and> l_next s a = b \<and> l_prev s b = a"
  using linked_append [of s xs a "[b]"] by simp

lemma linked_cong:
  assumes "\<And>a. a \<in> set (butlast ns) \<Longrightarrow> l_next s' a = l_next s a" and "\<And>b. b \<in> set (tl ns) \<Longrightarrow> l_prev s' b = l_prev s b"
  shows "linked s' ns \<longleftrightarrow> linked s ns"
  using assms
proof (induction ns rule: induct_list012)
  case (3 a b ns)
  then have "linked s' (b # ns) \<longleftrightarrow> linked s (b # ns)"
    by (intro "3.IH"(2)) auto
  with 3 show ?case by auto
qed auto

lemma linked_nth:
  "linked s ns \<Longrightarrow> Suc i < length ns \<Longrightarrow> l_next s (ns ! i) = ns ! Suc i \<and> l_prev s (ns ! Suc i) = ns ! i"
proof (induction ns arbitrary: i rule: induct_list012)
  case (3 a b ns)
  then show ?case by (cases i) auto
qed auto

text \<open>The neighbours of a member.\<close>

lemma linked_middle: "linked s (xs @ p # b # ys) \<Longrightarrow> l_next s p = b \<and> l_prev s b = p"
  using linked_append [of s xs p "b # ys"] by simp

text \<open>An operation that writes only the links of \<open>S\<close> leaves every list alone that has no node in \<open>S\<close>.\<close>

definition agree_outside :: "addr set \<Rightarrow> links \<Rightarrow> links \<Rightarrow> bool" where
  "agree_outside S s s' \<longleftrightarrow> (\<forall>a. a \<notin> S \<longrightarrow> l_next s' a = l_next s a \<and> l_prev s' a = l_prev s a)"

lemma list_rep_frame:
  assumes "list_rep s l xs" and "agree_outside S s s'" and "set (nodes l xs) \<inter> S = {}"
  shows "list_rep s' l xs"
proof -
  have eq: "l_next s' a = l_next s a \<and> l_prev s' a = l_prev s a" if "a \<in> set (nodes l xs)" for a
    using assms(2,3) that by (auto simp: agree_outside_def)
  have "linked s' (nodes l xs) \<longleftrightarrow> linked s (nodes l xs)"
    by (rule linked_cong) (auto simp: eq nodes_def butlast_append)
  moreover have "head_of l \<in> set (nodes l xs)" "tail_of l \<in> set (nodes l xs)"
    by (simp_all add: nodes_def)
  ultimately show ?thesis
    using assms(1) eq by (simp add: list_rep_def)
qed

lemma agree_outside_trans:
  "agree_outside S s s' \<Longrightarrow> agree_outside T s' s'' \<Longrightarrow> S \<subseteq> U \<Longrightarrow> T \<subseteq> U \<Longrightarrow> agree_outside U s s''"
  unfolding agree_outside_def by (metis subsetD)

section \<open>Navigation\<close>

text \<open>
  In the rest, a position in a list is a split \<open>nodes l xs = us @ a # vs\<close>.  Members other
  than the headers have both links set; the head lacks only \<open>prev\<close>, the tail only \<open>next\<close>.
\<close>

lemma list_rep_nonnull: "list_rep s l xs \<Longrightarrow> a \<in> set (nodes l xs) \<Longrightarrow> a \<noteq> 0"
  by (metis list_rep_def)

lemma list_rep_l: "list_rep s l xs \<Longrightarrow> l \<noteq> 0"
  by (simp add: list_rep_def nodes_def head_of_def)

lemma list_rep_next:
  assumes "list_rep s l xs" and "nodes l xs = us @ a # b # vs"
  shows "l_next s a = b" and "l_prev s b = a" and "a \<noteq> 0" and "b \<noteq> 0" and "a \<noteq> b"
  using assms linked_middle [of s us a b vs] by (auto simp: list_rep_def)

lemma list_rep_hd:
  assumes "list_rep s l xs" and "nodes l xs = a # vs"
  shows "l_prev s a = 0"
  using assms by (simp add: list_rep_def nodes_def)

lemma list_rep_last:
  assumes "list_rep s l xs" and "nodes l xs = us @ [a]"
  shows "l_next s a = 0"
  using assms by (auto simp: list_rep_def nodes_def Cons_eq_append_conv)

lemma interior_split:
  assumes "list_rep s l xs" and "nodes l xs = us @ a # b # c # vs"
  shows "is_interior s b"
  using list_rep_next [OF assms(1), of us a b "c # vs"] list_rep_next [OF assms(1), of "us @ [a]" b c vs] assms
  by (simp add: is_interior_def)

lemma interior_mem:
  assumes "list_rep s l xs" and "b \<in> set xs"
  shows "is_interior s b"
proof -
  obtain ys zs where "xs = ys @ b # zs" using assms(2) by (meson split_list)
  then have "nodes l xs = butlast (head_of l # ys) @ last (head_of l # ys) # b # hd (zs @ [tail_of l]) # tl (zs @ [tail_of l])"
    by (cases ys rule: rev_cases) (simp_all add: nodes_def)
  then show ?thesis by (rule interior_split [OF assms(1)])
qed

lemma before_split:
  assumes "list_rep s l xs" and "nodes l xs = us @ a # b # vs"
  shows "is_interior s b \<or> is_tail s b"
proof (cases vs)
  case Nil
  then show ?thesis
    using list_rep_next [OF assms] list_rep_last [OF assms(1), of "us @ [a]" b] assms(2) by (simp add: is_tail_def)
next
  case (Cons c ws)
  then show ?thesis using interior_split [OF assms(1), of us a b c ws] assms(2) by simp
qed

lemma after_split:
  assumes "list_rep s l xs" and "nodes l xs = us @ a # b # vs"
  shows "is_head s a \<or> is_interior s a"
proof (cases us rule: rev_cases)
  case Nil
  then show ?thesis
    using list_rep_next [OF assms] list_rep_hd [OF assms(1), of a "b # vs"] assms(2) by (simp add: is_head_def)
next
  case (snoc ws c)
  then show ?thesis using interior_split [OF assms(1), of ws c a b vs] assms(2) by simp
qed

lemma list_next_split:
  assumes "list_rep s l xs" and "nodes l xs = us @ a # b # vs"
  shows "list_next a s = Some b"
  using after_split [OF assms] list_rep_next [OF assms] by (simp add: list_next_def get_next_def)

lemma list_prev_split:
  assumes "list_rep s l xs" and "nodes l xs = us @ a # b # vs"
  shows "list_prev b s = Some a"
  using before_split [OF assms] list_rep_next [OF assms] by (simp add: list_prev_def get_prev_def)

lemma list_begin_rep: "list_rep s l xs \<Longrightarrow> list_begin l s = Some (hd (xs @ [tail_of l]))"
  using list_rep_next(1) [of s l xs "[]" "head_of l" "hd (xs @ [tail_of l])" "tl (xs @ [tail_of l])"]
  by (simp add: list_begin_def get_next_def list_rep_l head_of_def nodes_def)

lemma list_end_rep: "list_rep s l xs \<Longrightarrow> list_end l = Some (tail_of l)"
  by (simp add: list_end_def list_rep_l)

lemma list_rep_headers: "list_rep s l xs \<Longrightarrow> tail_of l \<notin> set xs \<and> head_of l \<notin> set xs \<and> distinct xs"
  by (auto simp: list_rep_def nodes_def)

lemma list_empty_rep:
  assumes "list_rep s l xs"
  shows "list_empty l s = Some (xs = [])"
  using list_begin_rep [OF assms] list_end_rep [OF assms] list_rep_headers [OF assms]
  by (cases xs) (auto simp: list_empty_def)

lemma list_init_rep: "l \<noteq> 0 \<Longrightarrow> \<exists>s'. list_init l s = Some s' \<and> list_rep s' l []"
  by (simp add: list_init_def set_prev_def set_next_def head_of_def tail_of_def list_rep_def nodes_def)

section \<open>Insertion and removal\<close>

lemma linked_join:
  assumes "linked s (us @ [p])" and "linked s (p # ms @ [b])" and "linked s (b # vs)"
  shows "linked s (us @ p # ms @ b # vs)"
proof -
  have "linked s ((p # ms) @ b # vs)"
    using assms(2,3) linked_append [of s "p # ms" b vs] by simp
  then show ?thesis
    using assms(1) linked_append [of s us p "ms @ b # vs"] by simp
qed

lemma linked_parts:
  assumes "linked s (us @ p # ms @ b # vs)"
  shows "linked s (us @ [p])" and "linked s (p # ms @ [b])" and "linked s (b # vs)"
  using assms linked_append [of s us p "ms @ b # vs"] linked_append [of s "p # ms" b vs] by auto

text \<open>
  Positions: \<open>cut l xs ys us p b vs\<close> says that \<open>p\<close> is the node before and \<open>b\<close> the node after the
  cut between \<open>xs\<close> and \<open>ys\<close>.  A part of a list can be replaced if the links outside of it
  stay.
\<close>

definition cut :: "addr \<Rightarrow> addr list \<Rightarrow> addr list \<Rightarrow> addr list \<Rightarrow> addr \<Rightarrow> addr \<Rightarrow> addr list \<Rightarrow> bool" where
  "cut l xs ys us p b vs \<longleftrightarrow> head_of l # xs = us @ [p] \<and> ys @ [tail_of l] = b # vs"

lemma cut_exists: "\<exists>us p b vs. cut l xs ys us p b vs"
proof -
  obtain us p where "head_of l # xs = us @ [p]"
    by (metis append_butlast_last_id list.distinct(1))
  moreover obtain b vs where "ys @ [tail_of l] = b # vs"
    by (cases "ys @ [tail_of l]") auto
  ultimately show ?thesis by (auto simp: cut_def)
qed

lemma cut_nodes: "cut l xs ys us p b vs \<Longrightarrow> nodes l (xs @ zs @ ys) = us @ p # zs @ b # vs"
  unfolding cut_def nodes_def by (metis append.assoc append_Cons append_self_conv2)

lemma cut_nodes0: "cut l xs ys us p b vs \<Longrightarrow> nodes l (xs @ ys) = us @ p # b # vs"
  using cut_nodes [of l xs ys us p b vs "[]"] by simp

lemma cut_hd: "cut l xs ys us p b vs \<Longrightarrow> hd (ys @ [tail_of l]) = b"
  by (simp add: cut_def)

lemma cut_headers:
  assumes "cut l xs ys us p b vs"
  shows "head_of l \<in> set (us @ [p])" and "tail_of l \<in> set (b # vs)"
  using assms unfolding cut_def by (metis list.set_intros(1), metis in_set_conv_decomp)

lemma list_rep_replace:
  assumes "list_rep s l (xs @ ms @ ys)" and c: "cut l xs ys us p b vs"
    and "\<And>a. a \<in> set us \<Longrightarrow> l_next s' a = l_next s a" and "\<And>a. a \<in> set (us @ [p]) \<Longrightarrow> l_prev s' a = l_prev s a"
    and "\<And>a. a \<in> set (b # vs) \<Longrightarrow> l_next s' a = l_next s a" and "\<And>a. a \<in> set vs \<Longrightarrow> l_prev s' a = l_prev s a"
    and "linked s' (p # ms' @ [b])" and "distinct (us @ p # ms' @ b # vs)" and "0 \<notin> set ms'"
  shows "list_rep s' l (xs @ ms' @ ys)"
proof -
  have lk: "linked s (us @ p # ms @ b # vs)" and z: "0 \<notin> set (us @ p # ms @ b # vs)"
      and ends: "l_prev s (head_of l) = 0" "l_next s (tail_of l) = 0"
    using assms(1) by (auto simp: list_rep_def cut_nodes [OF c])
  have "linked s' (us @ [p]) \<longleftrightarrow> linked s (us @ [p])"
  proof (rule linked_cong)
    show "l_next s' a = l_next s a" if "a \<in> set (butlast (us @ [p]))" for a
      using assms(3) that by simp
    show "l_prev s' a = l_prev s a" if "a \<in> set (tl (us @ [p]))" for a
      by (rule assms(4), rule list.set_sel(2) [OF _ that]) simp
  qed
  moreover have "linked s' (b # vs) \<longleftrightarrow> linked s (b # vs)"
  proof (rule linked_cong)
    show "l_next s' a = l_next s a" if "a \<in> set (butlast (b # vs))" for a
      by (rule assms(5), rule in_set_butlastD [OF that])
  qed (use assms(6) in simp)
  ultimately have "linked s' (us @ p # ms' @ b # vs)"
    using linked_parts [OF lk] assms(7) by (intro linked_join) auto
  then show ?thesis
    using assms(4,5,8,9) cut_headers [OF c] ends z by (simp add: list_rep_def cut_nodes [OF c])
qed

text \<open>The same part in another order: only its links and the two at its ends have changed.\<close>

lemma list_rep_rearrange:
  assumes "list_rep s l (xs @ ms @ ys)" and c: "cut l xs ys us p b vs"
    and "\<And>a. a \<noteq> p \<Longrightarrow> a \<notin> set ms \<Longrightarrow> l_next s' a = l_next s a" and "\<And>a. a \<noteq> b \<Longrightarrow> a \<notin> set ms \<Longrightarrow> l_prev s' a = l_prev s a"
    and "linked s' (p # ms' @ [b])" and "distinct ms'" and "set ms' = set ms"
  shows "list_rep s' l (xs @ ms' @ ys)"
proof (rule list_rep_replace [OF assms(1) c])
  have d: "distinct (us @ p # ms @ b # vs)" and "0 \<notin> set ms"
    using assms(1) by (auto simp: list_rep_def cut_nodes [OF c])
  then show "distinct (us @ p # ms' @ b # vs)" "0 \<notin> set ms'" using assms(6,7) by auto
  show "l_next s' a = l_next s a" if "a \<in> set us" for a using d that by (intro assms(3)) auto
  show "l_prev s' a = l_prev s a" if "a \<in> set (us @ [p])" for a using d that by (intro assms(4)) auto
  show "l_next s' a = l_next s a" if "a \<in> set (b # vs)" for a using d that by (intro assms(3)) auto
  show "l_prev s' a = l_prev s a" if "a \<in> set vs" for a using d that by (intro assms(4)) auto
qed (rule assms)

lemma list_insert_rep:
  assumes "list_rep s l (xs @ ys)" and "e \<notin> set (nodes l (xs @ ys))" and "e \<noteq> 0"
  shows "\<exists>s'. list_insert (hd (ys @ [tail_of l])) e s = Some s' \<and> list_rep s' l (xs @ e # ys)
    \<and> agree_outside (insert e (set (nodes l (xs @ ys)))) s s'"
proof -
  obtain us p b vs where c: "cut l xs ys us p b vs" using cut_exists by blast
  note cn = cut_nodes0 [OF c]
  note n = list_rep_next [OF assms(1) cn]
  have d: "distinct (us @ p # b # vs)" "e \<notin> set (us @ p # b # vs)"
    using assms(1,2) cn by (auto simp: list_rep_def)
  define s' where "s' = s\<lparr>l_prev := (l_prev s)(e := p, b := e), l_next := (l_next s)(e := b, p := e)\<rparr>"
  have "list_insert b e s = Some s'"
    using before_split [OF assms(1) cn] n d assms(3)
    by (auto simp: list_insert_def get_prev_def set_prev_def set_next_def s'_def)
  moreover have "list_rep s' l (xs @ [e] @ ys)"
    by (rule list_rep_replace [where ms = "[]", OF _ c]) (use assms d in \<open>auto simp: s'_def\<close>)
  moreover have "agree_outside (insert e (set (nodes l (xs @ ys)))) s s'"
    by (auto simp: agree_outside_def s'_def cn)
  ultimately show ?thesis
    by (simp add: cut_hd [OF c])
qed

lemma list_remove_rep:
  assumes "list_rep s l (xs @ e # ys)"
  shows "\<exists>s'. list_remove e s = Some (hd (ys @ [tail_of l]), s') \<and> list_rep s' l (xs @ ys)
    \<and> agree_outside (set (nodes l (xs @ e # ys))) s s'"
proof -
  obtain us p b vs where c: "cut l xs ys us p b vs" using cut_exists by blast
  have cn: "nodes l (xs @ e # ys) = us @ p # e # b # vs"
    using cut_nodes [OF c, of "[e]"] by simp
  have n: "l_next s p = e" "l_prev s e = p" "l_next s e = b" "l_prev s b = e" "p \<noteq> 0" "e \<noteq> 0" "b \<noteq> 0"
    using list_rep_next [OF assms cn] list_rep_next [OF assms, of "us @ [p]" e b vs] cn by auto
  have d: "distinct (us @ p # e # b # vs)"
    using assms cn by (auto simp: list_rep_def)
  define s' where "s' = s\<lparr>l_next := (l_next s)(p := b), l_prev := (l_prev s)(b := p)\<rparr>"
  have "list_remove e s = Some (b, s')"
    using interior_split [OF assms cn] n d
    by (auto simp: list_remove_def get_prev_def get_next_def set_prev_def set_next_def s'_def)
  moreover have "list_rep s' l (xs @ [] @ ys)"
    by (rule list_rep_replace [where ms = "[e]", OF _ c]) (use assms d in \<open>auto simp: s'_def\<close>)
  moreover have "agree_outside (set (nodes l (xs @ e # ys))) s s'"
    by (auto simp: agree_outside_def s'_def cn)
  ultimately show ?thesis
    by (simp add: cut_hd [OF c])
qed

lemma list_push_back_rep:
  assumes "list_rep s l xs" and "e \<notin> set (nodes l xs)" and "e \<noteq> 0"
  shows "\<exists>s'. list_push_back l e s = Some s' \<and> list_rep s' l (xs @ [e])
    \<and> agree_outside (insert e (set (nodes l xs))) s s'"
  using list_insert_rep [of s l xs "[]" e] assms by (simp add: list_push_back_def list_end_rep [OF assms(1)])

lemma list_push_front_rep:
  assumes "list_rep s l xs" and "e \<notin> set (nodes l xs)" and "e \<noteq> 0"
  shows "\<exists>s'. list_push_front l e s = Some s' \<and> list_rep s' l (e # xs)
    \<and> agree_outside (insert e (set (nodes l xs))) s s'"
  using list_insert_rep [of s l "[]" xs e] assms by (simp add: list_push_front_def list_begin_rep [OF assms(1)])

lemma list_front_rep: "list_rep s l (x # xs) \<Longrightarrow> list_front l s = Some x"
  using list_rep_next(1) [of s l "x # xs" "[]" "head_of l" x "xs @ [tail_of l]"]
  by (simp add: list_front_def list_empty_rep get_next_def list_rep_l head_of_def nodes_def)

lemma list_back_rep: "list_rep s l (xs @ [x]) \<Longrightarrow> list_back l s = Some x"
  using list_rep_next(2) [of s l "xs @ [x]" "head_of l # xs" x "tail_of l" "[]"]
  by (simp add: list_back_def list_empty_rep get_prev_def tail_of_def nodes_def)

lemma list_pop_front_rep:
  assumes "list_rep s l (x # xs)"
  shows "\<exists>s'. list_pop_front l s = Some (x, s') \<and> list_rep s' l xs \<and> agree_outside (set (nodes l (x # xs))) s s'"
  using list_remove_rep [of s l "[]" x xs] assms by (auto simp: list_pop_front_def list_front_rep)

lemma list_pop_back_rep:
  assumes "list_rep s l (xs @ [x])"
  shows "\<exists>s'. list_pop_back l s = Some (x, s') \<and> list_rep s' l xs \<and> agree_outside (set (nodes l (xs @ [x]))) s s'"
  using list_remove_rep [of s l xs x "[]"] assms by (auto simp: list_pop_back_def list_back_rep)

lemma pop_empty:
  assumes "list_rep s l []"
  shows "list_pop_front l s = None" and "list_pop_back l s = None"
  using list_empty_rep [OF assms]
  by (simp_all add: list_pop_front_def list_front_def list_pop_back_def list_back_def)

section \<open>Size\<close>

lemma size_loop_rep:
  assumes "list_rep s l (xs @ ys)"
  shows "size_loop s (tail_of l) (hd (ys @ [tail_of l])) n = Some (n + length ys)"
  using assms
proof (induction ys arbitrary: xs n)
  case Nil
  then show ?case by (simp add: size_loop.simps)
next
  case (Cons y ys)
  have "y \<noteq> tail_of l"
    using list_rep_headers [OF Cons.prems] by auto
  moreover have "nodes l (xs @ y # ys) = (head_of l # xs) @ y # hd (ys @ [tail_of l]) # tl (ys @ [tail_of l])"
    by (simp add: nodes_def)
  then have "list_next y s = Some (hd (ys @ [tail_of l]))"
    by (rule list_next_split [OF Cons.prems])
  ultimately show ?case
    using Cons.IH [of "xs @ [y]" "n + 1"] Cons.prems by (simp add: size_loop.simps [of s _ y])
qed

lemma list_size_rep: "list_rep s l xs \<Longrightarrow> list_size l s = Some (length xs)"
  using size_loop_rep [of s l "[]" xs 0] by (simp add: list_size_def list_begin_rep list_end_rep)

section \<open>Splicing\<close>

lemma linked_concat:
  assumes "xs \<noteq> []" and "ys \<noteq> []"
  shows "linked s (xs @ ys) \<longleftrightarrow>
    linked s xs \<and> linked s ys \<and> l_next s (last xs) = hd ys \<and> l_prev s (hd ys) = last xs"
proof -
  obtain zs z where xs: "xs = zs @ [z]" using assms(1) by (metis rev_exhaust)
  obtain w ws where ys: "ys = w # ws" using assms(2) by (cases ys) auto
  show ?thesis
    using linked_append [of s zs z "w # ws"] by (auto simp: xs ys)
qed

lemma list_splice_eval:
  assumes "is_interior s m \<or> is_tail s m" and "list_prev b s = Some z" and "is_interior s f" and "is_interior s z"
    and "l_prev s f = k" and "l_next s z = b" and "l_prev s m = p"
    and "k \<noteq> 0" and "b \<noteq> 0" and "m \<noteq> 0" and "p \<noteq> 0" and "k \<noteq> z" and "m \<noteq> b" and "m \<noteq> f" and "b \<noteq> f"
  shows "list_splice m f b s = Some (s\<lparr>l_next := (l_next s)(k := b, z := m, p := f), l_prev := (l_prev s)(b := k, f := p, m := z)\<rparr>)"
  using assms by (auto simp: list_splice_def get_prev_def get_next_def set_prev_def set_next_def is_interior_def)

lemma linked_around:
  assumes "xs \<noteq> []"
  shows "linked s (p # xs @ [b]) \<longleftrightarrow>
    l_next s p = hd xs \<and> l_prev s (hd xs) = p \<and> linked s xs \<and> l_next s (last xs) = b \<and> l_prev s b = last xs"
  using linked_concat [of "[p]" "xs @ [b]" s] linked_concat [of xs "[b]" s] assms by auto

lemma linked_inner:
  assumes "distinct xs" and "linked s xs"
    and "\<And>a. a \<in> set xs \<Longrightarrow> a \<noteq> last xs \<Longrightarrow> l_next s' a = l_next s a" and "\<And>a. a \<in> set xs \<Longrightarrow> a \<noteq> hd xs \<Longrightarrow> l_prev s' a = l_prev s a"
  shows "linked s' xs"
proof -
  have "a \<noteq> last xs" if "a \<in> set (butlast xs)" for a
    using assms(1) that by (cases xs rule: rev_cases) auto
  moreover have "a \<noteq> hd xs" if "a \<in> set (tl xs)" for a
    using assms(1) that by (cases xs) auto
  ultimately have "linked s' xs \<longleftrightarrow> linked s xs"
    by (intro linked_cong assms) (auto dest: in_set_butlastD list.set_sel(2) [rotated] intro: list.set_sel(2) [rotated])
  with assms(2) show ?thesis by simp
qed

text \<open>Moving the part \<open>fs\<close> in front of the part \<open>ms\<close> of the same list.\<close>

lemma list_splice_within:
  assumes "list_rep s l (xs @ ms @ fs @ ys)" and "ms \<noteq> []" and "fs \<noteq> []"
  shows "\<exists>s'. list_splice (hd ms) (hd fs) (hd (ys @ [tail_of l])) s = Some s' \<and> list_rep s' l (xs @ fs @ ms @ ys)
    \<and> agree_outside (set (nodes l (xs @ ms @ fs @ ys))) s s'"
proof -
  obtain us p b vs where c: "cut l xs ys us p b vs" using cut_exists by blast
  have cn: "nodes l (xs @ ms @ fs @ ys) = us @ p # (ms @ fs) @ b # vs"
    using cut_nodes [OF c, of "ms @ fs"] by simp
  have d: "distinct (us @ p # ms @ fs @ b # vs)" and nz: "0 \<notin> set (us @ p # ms @ fs @ b # vs)"
      and lk: "linked s (p # (ms @ fs) @ [b])"
    using assms(1) linked_parts(2) [of s us p "ms @ fs" b vs] cn by (auto simp: list_rep_def)
  have parts: "linked s ms" "linked s fs" "l_prev s (hd ms) = p" "l_next s (last ms) = hd fs" "l_prev s (hd fs) = last ms"
      "l_next s (last fs) = b" "l_prev s b = last fs"
    using lk assms(2,3) linked_around [of "ms @ fs" s p b] linked_concat [of ms fs s] by auto
  have mem: "hd ms \<in> set ms" "last ms \<in> set ms" "hd fs \<in> set fs" "last fs \<in> set fs"
    using assms(2,3) by auto
  define s' where "s' = s\<lparr>l_next := (l_next s)(last ms := b, last fs := hd ms, p := hd fs),
    l_prev := (l_prev s)(b := last ms, hd fs := p, hd ms := last fs)\<rparr>"
  have ne: "last ms \<noteq> 0" "b \<noteq> 0" "hd ms \<noteq> 0" "p \<noteq> 0" "last ms \<noteq> last fs" "hd ms \<noteq> b" "hd ms \<noteq> hd fs" "b \<noteq> hd fs"
    using d nz mem by auto
  have "list_splice (hd ms) (hd fs) b s = Some s'"
    unfolding s'_def
  proof (rule list_splice_eval)
    show "is_interior s (hd ms) \<or> is_tail s (hd ms)" "is_interior s (hd fs)" "is_interior s (last fs)"
      using interior_mem [OF assms(1)] mem by auto
    show "list_prev b s = Some (last fs)"
      using list_prev_split [OF assms(1), of "us @ p # ms @ butlast fs" "last fs" b vs] cn assms(3) by simp
  qed (rule parts ne)+
  moreover have lks: "linked s' ms" "linked s' fs"
    by (rule linked_inner [OF _ parts(1)], use d mem in \<open>auto simp: s'_def\<close>,
        rule linked_inner [OF _ parts(2)], use d mem in \<open>auto simp: s'_def\<close>)
  have ends': "l_next s' p = hd fs" "l_prev s' (hd fs) = p" "l_next s' (last fs) = hd ms" "l_prev s' (hd ms) = last fs"
      "l_next s' (last ms) = b" "l_prev s' b = last ms"
    using d mem by (auto simp: s'_def)
  have "linked s' (p # (fs @ ms) @ [b])"
    using lks ends' assms(2,3) linked_concat [OF assms(3,2), of s']
    by (subst linked_around) (simp_all only: append_is_Nil_conv hd_append2 last_append if_False simp_thms)
  then have "list_rep s' l (xs @ (fs @ ms) @ ys)"
  proof (rule list_rep_rearrange [where ms = "ms @ fs", OF _ c, rotated 3])
    fix a
    assume "a \<notin> set (ms @ fs)"
    with mem have ne: "a \<noteq> hd ms" "a \<noteq> hd fs" "a \<noteq> last ms" "a \<noteq> last fs" by auto
    show "a \<noteq> p \<Longrightarrow> l_next s' a = l_next s a" "a \<noteq> b \<Longrightarrow> l_prev s' a = l_prev s a"
      using ne by (simp_all add: s'_def)
  qed (use assms(1) d in auto)
  moreover have "agree_outside (set (nodes l (xs @ ms @ fs @ ys))) s s'"
    unfolding cn using mem by (auto simp: agree_outside_def s'_def)
  ultimately show ?thesis
    by (simp add: cut_hd [OF c])
qed

section \<open>Reversal\<close>

definition flip :: "addr set \<Rightarrow> links \<Rightarrow> links" where
  "flip S s = s\<lparr>l_prev := \<lambda>a. if a \<in> S then l_next s a else l_prev s a,
     l_next := \<lambda>a. if a \<in> S then l_prev s a else l_next s a\<rparr>"

lemma flip_insert:
  assumes "e \<noteq> 0" and "e \<notin> S" and "swap_links e s = Some s'"
  shows "flip S s' = flip (insert e S) s" and "l_prev s' e = l_next s e"
  using assms by (auto simp: swap_links_def get_prev_def get_next_def set_prev_def set_next_def flip_def fun_eq_iff)

lemma reverse_loop_chain:
  assumes "linked s (zs @ [stop])" and "distinct (zs @ [stop])" and "0 \<notin> set zs"
  shows "reverse_loop stop (hd (zs @ [stop])) s = Some (flip (set zs) s)"
  using assms
proof (induction zs arbitrary: s)
  case Nil
  then show ?case by (simp add: reverse_loop.simps flip_def)
next
  case (Cons z zs)
  obtain s' where s': "swap_links z s = Some s'"
    using Cons.prems by (auto simp: swap_links_def get_prev_def get_next_def set_prev_def set_next_def)
  have "l_next s z = hd (zs @ [stop])"
    using Cons.prems(1) by (cases zs) auto
  moreover have agree: "l_next s' a = l_next s a" "l_prev s' a = l_prev s a" if "a \<noteq> z" for a
    using s' Cons.prems(3) that by (auto simp: swap_links_def get_prev_def get_next_def set_prev_def set_next_def)
  have "linked s' (zs @ [stop]) \<longleftrightarrow> linked s (zs @ [stop])"
    by (rule linked_cong) (use Cons.prems in \<open>auto intro!: agree dest: in_set_butlastD list.set_sel(2) [rotated]\<close>)
  then have "reverse_loop stop (hd (zs @ [stop])) s' = Some (flip (set zs) s')"
    using Cons.prems by (intro Cons.IH) (cases zs; auto)+
  ultimately show ?case
    using Cons.prems flip_insert [OF _ _ s', of "set zs"]
    by (simp add: reverse_loop.simps [of stop z] s' get_prev_def)
qed

lemma linked_rev:
  assumes "linked s xs" and "\<And>a. a \<in> set (tl xs) \<Longrightarrow> l_next s' a = l_prev s a" and "\<And>a. a \<in> set (butlast xs) \<Longrightarrow> l_prev s' a = l_next s a"
  shows "linked s' (rev xs)"
  using assms
proof (induction xs rule: induct_list012)
  case (3 a b xs)
  then have "linked s' (rev (b # xs))" by (intro "3.IH"(2)) auto
  then show ?case using 3 linked_snoc2 [of s' "rev xs" b a] by simp
qed auto

lemma list_reverse_rep:
  assumes "list_rep s l xs"
  shows "\<exists>s'. list_reverse l s = Some s' \<and> list_rep s' l (rev xs) \<and> agree_outside (set (nodes l xs)) s s'"
proof (cases "xs = []")
  case True
  then show ?thesis
    using assms by (auto simp: list_reverse_def list_empty_rep agree_outside_def)
next
  case False
  have lk: "linked s (head_of l # xs @ [tail_of l])" and d: "distinct (head_of l # xs @ [tail_of l])" "0 \<notin> set (head_of l # xs @ [tail_of l])"
    using assms by (auto simp: list_rep_def nodes_def)
  note parts = lk [unfolded linked_around [OF False]]
  have lt: "linked s (xs @ [tail_of l])" using lk False by (cases xs) auto
  have mem: "hd xs \<in> set xs" "last xs \<in> set xs" using False by auto
  define s1 where "s1 = flip (set xs) s"
  define s' where "s' = s1\<lparr>l_next := (l_next s1)(head_of l := last xs, hd xs := tail_of l),
    l_prev := (l_prev s1)(tail_of l := hd xs, last xs := head_of l)\<rparr>"
  have "a \<noteq> 0" if "a \<in> set xs" for a using d(2) that by (intro notI) simp
  then have ne: "head_of l \<noteq> 0" "tail_of l \<noteq> 0" "hd xs \<noteq> 0" "last xs \<noteq> 0" "head_of l \<notin> set xs" "tail_of l \<notin> set xs"
      "hd xs \<noteq> tail_of l" "last xs \<noteq> tail_of l" "hd xs \<noteq> head_of l" "last xs \<noteq> head_of l"
    using d mem by fastforce+
  have "reverse_loop (tail_of l) (hd (xs @ [tail_of l])) s = Some s1"
    unfolding s1_def using d by (intro reverse_loop_chain lt) auto
  then have run: "list_reverse l s = Some s'"
    using False parts ne mem
    by (simp add: list_reverse_def list_empty_rep [OF assms] list_begin_rep [OF assms] list_end_rep [OF assms]
        swap_next_prev_def swap_prev_next_def get_next_def get_prev_def set_next_def set_prev_def s'_def s1_def flip_def)
  have "linked s' (rev xs)"
  proof (rule linked_rev)
    show "linked s xs" using parts by simp
    show "l_next s' a = l_prev s a" if "a \<in> set (tl xs)" for a
      using that ne d False by (cases xs) (auto simp: s'_def s1_def flip_def)
    show "l_prev s' a = l_next s a" if "a \<in> set (butlast xs)" for a
      using that ne d False by (cases xs rule: rev_cases) (auto simp: s'_def s1_def flip_def)
  qed
  then have "list_rep s' l (rev xs)"
    using False ne d assms mem linked_around [of "rev xs" s' "head_of l" "tail_of l"]
    by (simp add: list_rep_def nodes_def s'_def s1_def flip_def hd_rev last_rev)
  moreover have "agree_outside (set (nodes l xs)) s s'"
    using mem by (auto simp: agree_outside_def nodes_def s'_def s1_def flip_def)
  ultimately show ?thesis using run by blast
qed

section \<open>The double-ended queue\<close>

text \<open>
  What the callers of the list rely on (the ready list, the waiters of a semaphore, the free
  lists of malloc): a sequence of pushes and pops at the two ends behaves like the same
  sequence on a list of values.  A popped element is \<open>Some x\<close>; the abstract run has no
  result where the kernel would panic, that is for a pop of the empty list.
\<close>

datatype 'a deque_op = Push_front 'a | Push_back 'a | Pop_front | Pop_back

fun deque_step :: "('a \<Rightarrow> bool) \<Rightarrow> 'a deque_op \<Rightarrow> 'a list \<Rightarrow> ('a list \<times> 'a list) option" where
  "deque_step ok (Push_front e) xs = (if ok e \<and> e \<notin> set xs then Some ([], e # xs) else None)"
| "deque_step ok (Push_back e) xs = (if ok e \<and> e \<notin> set xs then Some ([], xs @ [e]) else None)"
| "deque_step ok Pop_front xs = (case xs of [] \<Rightarrow> None | x # ys \<Rightarrow> Some ([x], ys))"
| "deque_step ok Pop_back xs = (case xs of [] \<Rightarrow> None | _ \<Rightarrow> Some ([last xs], butlast xs))"

fun run_steps :: "('op \<Rightarrow> 's \<Rightarrow> ('a list \<times> 's) option) \<Rightarrow> 'op list \<Rightarrow> 's \<Rightarrow> ('a list \<times> 's) option" where
  "run_steps step [] s = Some ([], s)"
| "run_steps step (c # cs) s = do { (out, s) \<leftarrow> step c s; (outs, s) \<leftarrow> run_steps step cs s; Some (out @ outs, s) }"

fun list_step :: "addr \<Rightarrow> addr deque_op \<Rightarrow> links \<Rightarrow> (addr list \<times> links) option" where
  "list_step l (Push_front e) s = do { s \<leftarrow> list_push_front l e s; Some ([], s) }"
| "list_step l (Push_back e) s = do { s \<leftarrow> list_push_back l e s; Some ([], s) }"
| "list_step l Pop_front s = do { (x, s) \<leftarrow> list_pop_front l s; Some ([x], s) }"
| "list_step l Pop_back s = do { (x, s) \<leftarrow> list_pop_back l s; Some ([x], s) }"

locale deque =
  fixes rep :: "'s \<Rightarrow> 'a list \<Rightarrow> bool" and ok :: "'a \<Rightarrow> bool"
    and step :: "'a deque_op \<Rightarrow> 's \<Rightarrow> ('a list \<times> 's) option"
  assumes step_push_front: "rep s xs \<Longrightarrow> ok e \<Longrightarrow> e \<notin> set xs \<Longrightarrow> \<exists>s'. step (Push_front e) s = Some ([], s') \<and> rep s' (e # xs)"
    and step_push_back: "rep s xs \<Longrightarrow> ok e \<Longrightarrow> e \<notin> set xs \<Longrightarrow> \<exists>s'. step (Push_back e) s = Some ([], s') \<and> rep s' (xs @ [e])"
    and step_pop_front: "rep s (x # xs) \<Longrightarrow> \<exists>s'. step Pop_front s = Some ([x], s') \<and> rep s' xs"
    and step_pop_back: "rep s (xs @ [x]) \<Longrightarrow> \<exists>s'. step Pop_back s = Some ([x], s') \<and> rep s' xs"
begin

lemma step_refines:
  assumes "rep s xs" and "deque_step ok c xs = Some (out, ys)"
  shows "\<exists>s'. step c s = Some (out, s') \<and> rep s' ys"
proof (cases c)
  case Pop_back
  then show ?thesis
    using assms step_pop_back [of s "butlast xs" "last xs"] by (auto split: list.splits)
qed (use assms step_push_front step_push_back step_pop_front in \<open>auto split: list.splits if_splits\<close>)

lemma run_refines:
  assumes "rep s xs" and "run_steps (deque_step ok) cs xs = Some (out, ys)"
  shows "\<exists>s'. run_steps step cs s = Some (out, s') \<and> rep s' ys"
  using assms
proof (induction cs arbitrary: s xs out)
  case (Cons c cs)
  then obtain o1 zs o2 where 1: "deque_step ok c xs = Some (o1, zs)" "run_steps (deque_step ok) cs zs = Some (o2, ys)" "out = o1 @ o2"
    by (auto simp: bind_eq_Some_iff)
  obtain s1 where "step c s = Some (o1, s1)" "rep s1 zs"
    using step_refines [OF Cons.prems(1) 1(1)] by blast
  moreover obtain s2 where "run_steps step cs s1 = Some (o2, s2)" "rep s2 ys"
    using Cons.IH [OF calculation(2) 1(2)] by blast
  ultimately show ?case by (simp add: 1(3))
qed auto

text \<open>First in, first out: elements pushed at the back leave the front in the same order.\<close>

lemma fifo:
  assumes "rep s xs" and "\<forall>e\<in>set es. ok e" and "distinct (xs @ es)"
  shows "\<exists>s'. run_steps step (map Push_back es @ replicate (length (xs @ es)) Pop_front) s = Some (xs @ es, s') \<and> rep s' []"
proof (rule run_refines [OF assms(1)])
  have pops: "run_steps (deque_step ok) (replicate (length zs) Pop_front) zs = Some (zs, [])" for zs
    by (induction zs) auto
  show "run_steps (deque_step ok) (map Push_back es @ replicate (length (xs @ es)) Pop_front) xs = Some (xs @ es, [])"
    using assms(2,3)
  proof (induction es arbitrary: xs)
    case (Cons e es)
    then show ?case using Cons.IH [of "xs @ [e]"] by simp
  qed (simp add: pops)
qed

end

definition linkable :: "addr \<Rightarrow> addr \<Rightarrow> bool" where
  "linkable l e \<longleftrightarrow> e \<noteq> 0 \<and> e \<noteq> head_of l \<and> e \<noteq> tail_of l"

lemma linkable_nodes: "linkable l e \<Longrightarrow> e \<notin> set xs \<Longrightarrow> e \<notin> set (nodes l xs) \<and> e \<noteq> 0"
  by (auto simp: linkable_def nodes_def)

interpretation kl: deque "\<lambda>s. list_rep s l" "linkable l" "list_step l" for l
proof
  show "\<exists>s'. list_step l (Push_front e) s = Some ([], s') \<and> list_rep s' l (e # xs)"
    if "list_rep s l xs" "linkable l e" "e \<notin> set xs" for s xs e
    using list_push_front_rep [OF that(1), of e] linkable_nodes [OF that(2,3)] by auto
  show "\<exists>s'. list_step l (Push_back e) s = Some ([], s') \<and> list_rep s' l (xs @ [e])"
    if "list_rep s l xs" "linkable l e" "e \<notin> set xs" for s xs e
    using list_push_back_rep [OF that(1), of e] linkable_nodes [OF that(2,3)] by auto
  show "\<exists>s'. list_step l Pop_front s = Some ([x], s') \<and> list_rep s' l xs" if "list_rep s l (x # xs)" for s x xs
    using list_pop_front_rep [OF that] by auto
  show "\<exists>s'. list_step l Pop_back s = Some ([x], s') \<and> list_rep s' l xs" if "list_rep s l (xs @ [x])" for s x xs
    using list_pop_back_rep [OF that] by auto
qed

text \<open>
  C7: Every sequence of \<open>list_push_front\<close>, \<open>list_push_back\<close>, \<open>list_pop_front\<close> and
  \<open>list_pop_back\<close> on the pointer structure pops the elements, and leaves the list, that the
  same sequence gives on a list of values, with no failed assertion and no write through
  the null pointer.
\<close>

theorem list_deque_refinement:
  assumes "list_rep s l xs" and "run_steps (deque_step (linkable l)) cs xs = Some (out, ys)"
  shows "\<exists>s'. run_steps (list_step l) cs s = Some (out, s') \<and> list_rep s' l ys"
  using assms by (rule kl.run_refines)

definition example_links :: links where
  "example_links = \<lparr>l_prev = (\<lambda>_. 0)(108 := 100), l_next = (\<lambda>_. 0)(100 := 108)\<rparr>"

lemma example_links_rep: "list_rep example_links 100 []"
  by (simp add: list_rep_def example_links_def nodes_def head_of_def tail_of_def)

theorem list_deque_refinement_witness:
  "\<exists>s'. run_steps (list_step 100) [Push_back 16, Push_front 32, Pop_back] example_links = Some ([16], s') \<and> list_rep s' 100 [32]"
  by (rule list_deque_refinement [OF example_links_rep]) (simp add: linkable_def head_of_def tail_of_def)

text \<open>
  C34: \<open>list_reverse\<close> ends, reverses the order of any list and writes to no other node.
\<close>

theorem list_reverse_correct:
  assumes "list_rep s l xs"
  shows "\<exists>s'. list_reverse l s = Some s' \<and> list_rep s' l (rev xs) \<and> agree_outside (set (nodes l xs)) s s'"
  using assms by (rule list_reverse_rep)

lemma example_links_rep2:
  "list_rep \<lparr>l_prev = (\<lambda>_. 0)(108 := 32, 32 := 16, 16 := 100), l_next = (\<lambda>_. 0)(100 := 16, 16 := 32, 32 := 108)\<rparr> 100 [16, 32]"
  by (simp add: list_rep_def nodes_def head_of_def tail_of_def)

theorem list_reverse_correct_witness:
  "\<exists>s'. list_reverse 100 \<lparr>l_prev = (\<lambda>_. 0)(108 := 32, 32 := 16, 16 := 100), l_next = (\<lambda>_. 0)(100 := 16, 16 := 32, 32 := 108)\<rparr> = Some s'
    \<and> list_rep s' 100 (rev [16, 32])
    \<and> agree_outside (set (nodes 100 [16, 32])) \<lparr>l_prev = (\<lambda>_. 0)(108 := 32, 32 := 16, 16 := 100), l_next = (\<lambda>_. 0)(100 := 16, 16 := 32, 32 := 108)\<rparr> s'"
  by (rule list_reverse_correct [OF example_links_rep2])

text \<open>
  Removing what was just inserted restores the list: after \<open>list_insert\<close> of \<open>e\<close> at any
  position, \<open>list_remove\<close> of \<open>e\<close> returns the element before which it was inserted and the
  list holds what it held at first.
\<close>

theorem list_insert_remove:
  assumes "list_rep s l (xs @ ys)" and "e \<notin> set (nodes l (xs @ ys))" and "e \<noteq> 0"
  shows "\<exists>s' s''. list_insert (hd (ys @ [tail_of l])) e s = Some s' \<and> list_size l s' = Some (length (xs @ ys) + 1)
    \<and> list_remove e s' = Some (hd (ys @ [tail_of l]), s'') \<and> list_rep s'' l (xs @ ys)"
proof -
  obtain s' where "list_insert (hd (ys @ [tail_of l])) e s = Some s'" and s': "list_rep s' l (xs @ e # ys)"
    using list_insert_rep [OF assms] by blast
  then show ?thesis
    using list_remove_rep [OF s'] list_size_rep [OF s'] by auto
qed

theorem list_insert_remove_witness:
  "\<exists>s' s''. list_insert (hd ([] @ [tail_of 100])) 16 example_links = Some s' \<and> list_size 100 s' = Some (length ([] @ ([] :: addr list)) + 1)
    \<and> list_remove 16 s' = Some (hd ([] @ [tail_of 100]), s'') \<and> list_rep s'' 100 ([] @ [])"
  by (rule list_insert_remove) (simp_all add: example_links_rep nodes_def head_of_def tail_of_def)

end
