(* ===== verification/Klist_Order.thy ===== *)
theory Klist_Order
  imports Klist "HOL-Library.Sorting_Algorithms"
begin

text \<open>
  lib/kernel/list.c: the operations on lists that are ordered by a comparison function
  (natural merge sort, ordered insertion, removal of duplicates, maximum and minimum).  The
  comparison is the argument \<open>lessf\<close>; the theorems are about one that comes from a comparator
  \<open>cmp\<close> of HOL-Library, that is a strict weak order, as list.h requires of its callers.
\<close>

section \<open>Sorting\<close>

partial_function (option) sorted_loop :: "(addr \<Rightarrow> addr \<Rightarrow> bool) \<Rightarrow> links \<Rightarrow> addr \<Rightarrow> addr \<Rightarrow> bool option" where
  "sorted_loop lessf s b a = do {
     a \<leftarrow> list_next a s;
     if a \<noteq> b then do {
       p \<leftarrow> list_prev a s;
       if lessf a p then Some False else sorted_loop lessf s b a
     } else Some True
   }"

definition is_sorted :: "addr \<Rightarrow> addr \<Rightarrow> (addr \<Rightarrow> addr \<Rightarrow> bool) \<Rightarrow> links \<Rightarrow> bool option" where
  "is_sorted a b lessf s = (if a \<noteq> b then sorted_loop lessf s b a else Some True)"

partial_function (option) run_loop :: "(addr \<Rightarrow> addr \<Rightarrow> bool) \<Rightarrow> links \<Rightarrow> addr \<Rightarrow> addr \<Rightarrow> addr option" where
  "run_loop lessf s b a = do {
     a \<leftarrow> list_next a s;
     if a \<noteq> b then do {
       p \<leftarrow> list_prev a s;
       if \<not> lessf a p then run_loop lessf s b a else Some a
     } else Some a
   }"

definition find_end_of_run :: "addr \<Rightarrow> addr \<Rightarrow> (addr \<Rightarrow> addr \<Rightarrow> bool) \<Rightarrow> links \<Rightarrow> addr option" where
  "find_end_of_run a b lessf s = do {
     ASSERT (a \<noteq> 0);
     ASSERT (b \<noteq> 0);
     ASSERT (a \<noteq> b);
     run_loop lessf s b a
   }"

partial_function (option) merge_loop :: "(addr \<Rightarrow> addr \<Rightarrow> bool) \<Rightarrow> addr \<Rightarrow> addr \<Rightarrow> addr \<Rightarrow> links \<Rightarrow> links option" where
  "merge_loop lessf b1 a0 a1b0 s =
     (if a0 \<noteq> a1b0 \<and> a1b0 \<noteq> b1 then
        if \<not> lessf a1b0 a0 then do {
          a0 \<leftarrow> list_next a0 s;
          merge_loop lessf b1 a0 a1b0 s
        } else do {
          a1b0 \<leftarrow> list_next a1b0 s;
          p \<leftarrow> list_prev a1b0 s;
          s \<leftarrow> list_splice a0 p a1b0 s;
          merge_loop lessf b1 a0 a1b0 s
        }
      else Some s)"

definition inplace_merge :: "addr \<Rightarrow> addr \<Rightarrow> addr \<Rightarrow> (addr \<Rightarrow> addr \<Rightarrow> bool) \<Rightarrow> links \<Rightarrow> links option" where
  "inplace_merge a0 a1b0 b1 lessf s = do {
     ASSERT (a0 \<noteq> 0);
     ASSERT (a1b0 \<noteq> 0);
     ASSERT (b1 \<noteq> 0);
     sorted1 \<leftarrow> is_sorted a0 a1b0 lessf s;
     ASSERT sorted1;
     sorted2 \<leftarrow> is_sorted a1b0 b1 lessf s;
     ASSERT sorted2;
     merge_loop lessf b1 a0 a1b0 s
   }"

partial_function (option) pass_loop ::
  "addr \<Rightarrow> (addr \<Rightarrow> addr \<Rightarrow> bool) \<Rightarrow> addr \<Rightarrow> nat \<Rightarrow> links \<Rightarrow> (nat \<times> links) option" where
  "pass_loop l lessf a0 output_run_cnt s = do {
     stop \<leftarrow> list_end l;
     if a0 = stop then Some (output_run_cnt, s)
     else do {
       a1b0 \<leftarrow> find_end_of_run a0 stop lessf s;
       if a1b0 = stop then Some (output_run_cnt + 1, s)
       else do {
         b1 \<leftarrow> find_end_of_run a1b0 stop lessf s;
         s \<leftarrow> inplace_merge a0 a1b0 b1 lessf s;
         pass_loop l lessf b1 (output_run_cnt + 1) s
       }
     }
   }"

partial_function (option) sort_loop :: "addr \<Rightarrow> (addr \<Rightarrow> addr \<Rightarrow> bool) \<Rightarrow> links \<Rightarrow> links option" where
  "sort_loop l lessf s = do {
     a0 \<leftarrow> list_begin l s;
     (output_run_cnt, s) \<leftarrow> pass_loop l lessf a0 0 s;
     if output_run_cnt > 1 then sort_loop l lessf s else Some s
   }"

definition list_sort :: "addr \<Rightarrow> (addr \<Rightarrow> addr \<Rightarrow> bool) \<Rightarrow> links \<Rightarrow> links option" where
  "list_sort l lessf s = do {
     ASSERT (l \<noteq> 0);
     s \<leftarrow> sort_loop l lessf s;
     a \<leftarrow> list_begin l s;
     b \<leftarrow> list_end l;
     sorted \<leftarrow> is_sorted a b lessf s;
     ASSERT sorted;
     Some s
   }"

section \<open>Ordered insertion, duplicates, extrema\<close>

partial_function (option) ordered_loop :: "addr \<Rightarrow> addr \<Rightarrow> (addr \<Rightarrow> addr \<Rightarrow> bool) \<Rightarrow> links \<Rightarrow> addr \<Rightarrow> addr option" where
  "ordered_loop l elem lessf s e = do {
     stop \<leftarrow> list_end l;
     if e \<noteq> stop then
       if lessf elem e then Some e
       else do { e \<leftarrow> list_next e s; ordered_loop l elem lessf s e }
     else Some e
   }"

definition list_insert_ordered :: "addr \<Rightarrow> addr \<Rightarrow> (addr \<Rightarrow> addr \<Rightarrow> bool) \<Rightarrow> links \<Rightarrow> links option" where
  "list_insert_ordered l elem lessf s = do {
     ASSERT (l \<noteq> 0);
     ASSERT (elem \<noteq> 0);
     e \<leftarrow> list_begin l s;
     e \<leftarrow> ordered_loop l elem lessf s e;
     list_insert e elem s
   }"

partial_function (option) unique_loop :: "addr \<Rightarrow> addr \<Rightarrow> (addr \<Rightarrow> addr \<Rightarrow> bool) \<Rightarrow> addr \<Rightarrow> links \<Rightarrow> links option" where
  "unique_loop l duplicates lessf elem s = do {
     nxt \<leftarrow> list_next elem s;
     stop \<leftarrow> list_end l;
     if nxt \<noteq> stop then
       if \<not> lessf elem nxt \<and> \<not> lessf nxt elem then do {
         (_, s) \<leftarrow> list_remove nxt s;
         s \<leftarrow> (if duplicates \<noteq> 0 then list_push_back duplicates nxt s else Some s);
         unique_loop l duplicates lessf elem s
       }
       else unique_loop l duplicates lessf nxt s
     else Some s
   }"

definition list_unique :: "addr \<Rightarrow> addr \<Rightarrow> (addr \<Rightarrow> addr \<Rightarrow> bool) \<Rightarrow> links \<Rightarrow> links option" where
  "list_unique l duplicates lessf s = do {
     ASSERT (l \<noteq> 0);
     empty \<leftarrow> list_empty l s;
     if empty then Some s
     else do { elem \<leftarrow> list_begin l s; unique_loop l duplicates lessf elem s }
   }"

partial_function (option) max_loop :: "addr \<Rightarrow> (addr \<Rightarrow> addr \<Rightarrow> bool) \<Rightarrow> links \<Rightarrow> addr \<Rightarrow> addr \<Rightarrow> addr option" where
  "max_loop l lessf s mx e = do {
     stop \<leftarrow> list_end l;
     if e \<noteq> stop then do {
       e' \<leftarrow> list_next e s;
       max_loop l lessf s (if lessf mx e then e else mx) e'
     } else Some mx
   }"

definition list_max :: "addr \<Rightarrow> (addr \<Rightarrow> addr \<Rightarrow> bool) \<Rightarrow> links \<Rightarrow> addr option" where
  "list_max l lessf s = do {
     mx \<leftarrow> list_begin l s;
     stop \<leftarrow> list_end l;
     if mx \<noteq> stop then do { e \<leftarrow> list_next mx s; max_loop l lessf s mx e } else Some mx
   }"

partial_function (option) min_loop :: "addr \<Rightarrow> (addr \<Rightarrow> addr \<Rightarrow> bool) \<Rightarrow> links \<Rightarrow> addr \<Rightarrow> addr \<Rightarrow> addr option" where
  "min_loop l lessf s mn e = do {
     stop \<leftarrow> list_end l;
     if e \<noteq> stop then do {
       e' \<leftarrow> list_next e s;
       min_loop l lessf s (if lessf e mn then e else mn) e'
     } else Some mn
   }"

definition list_min :: "addr \<Rightarrow> (addr \<Rightarrow> addr \<Rightarrow> bool) \<Rightarrow> links \<Rightarrow> addr option" where
  "list_min l lessf s = do {
     mn \<leftarrow> list_begin l s;
     stop \<leftarrow> list_end l;
     if mn \<noteq> stop then do { e \<leftarrow> list_next mn s; min_loop l lessf s mn e } else Some mn
   }"

section \<open>Positions in a list\<close>

text \<open>\<open>at l ys\<close> is the first node of the part \<open>ys\<close> at the end of a list: its first element or the tail.\<close>

definition at :: "addr \<Rightarrow> addr list \<Rightarrow> addr" where
  "at l ys = hd (ys @ [tail_of l])"

lemma at_simps [simp]: "at l [] = tail_of l" "at l (y # ys) = y"
  by (simp_all add: at_def)

lemma at_append [simp]: "at l ((y # ys) @ zs) = y"
  by (simp add: at_def)

lemma list_begin_at: "list_rep s l xs \<Longrightarrow> list_begin l s = Some (at l xs)"
  by (simp add: list_begin_rep at_def)

lemma at_nonzero: "list_rep s l (xs @ ys) \<Longrightarrow> at l ys \<noteq> 0"
  by (rule list_rep_nonnull) (auto simp: at_def nodes_def hd_append)

lemma nodes_at:
  "nodes l (xs @ y # ys) = (head_of l # xs) @ y # at l ys # tl (ys @ [tail_of l])"
  by (simp add: nodes_def at_def)

lemma list_next_at: "list_rep s l (xs @ y # ys) \<Longrightarrow> list_next y s = Some (at l ys)"
  by (rule list_next_split [OF _ nodes_at])

lemma list_prev_at: "list_rep s l (xs @ y # ys) \<Longrightarrow> list_prev (at l ys) s = Some y"
  by (rule list_prev_split [OF _ nodes_at])

lemma list_rep_distinct: "list_rep s l xs \<Longrightarrow> distinct (xs @ [tail_of l])"
  using list_rep_headers by auto

lemma at_inj:
  assumes "list_rep s l (xs @ y # ys @ zs)"
  shows "y \<noteq> at l zs"
  using list_rep_distinct [OF assms] by (cases zs) auto

section \<open>Runs\<close>

text \<open>
  The abstract counterpart of one pass: \<open>take_run\<close> splits off the longest nondecreasing
  prefix, \<open>merge_pass\<close> merges the runs pairwise with the merge of HOL-Library, \<open>pass_cnt\<close> counts the
  runs it writes, and \<open>runs\<close> is the number of runs of a list.
\<close>

definition less_of :: "'a comparator \<Rightarrow> 'a \<Rightarrow> 'a \<Rightarrow> bool" where
  "less_of cmp a b \<longleftrightarrow> compare cmp a b = Less"

fun take_run :: "'a comparator \<Rightarrow> 'a list \<Rightarrow> 'a list \<times> 'a list" where
  "take_run cmp (x # y # ys) =
     (if less_of cmp y x then ([x], y # ys) else case take_run cmp (y # ys) of (r, rest) \<Rightarrow> (x # r, rest))"
| "take_run cmp xs = (xs, [])"

abbreviation fst_run :: "'a comparator \<Rightarrow> 'a list \<Rightarrow> 'a list" where
  "fst_run cmp xs \<equiv> fst (take_run cmp xs)"

abbreviation rest_run :: "'a comparator \<Rightarrow> 'a list \<Rightarrow> 'a list" where
  "rest_run cmp xs \<equiv> snd (take_run cmp xs)"

abbreviation sorted_by :: "'a comparator \<Rightarrow> 'a list \<Rightarrow> bool" where
  "sorted_by \<equiv> Sorting_Algorithms.sorted"

abbreviation merge_by :: "'a comparator \<Rightarrow> 'a list \<Rightarrow> 'a list \<Rightarrow> 'a list" where
  "merge_by \<equiv> Sorting_Algorithms.merge"

abbreviation sort_by :: "'a comparator \<Rightarrow> 'a list \<Rightarrow> 'a list" where
  "sort_by \<equiv> Sorting_Algorithms.sort"

lemma take_run_append: "fst_run cmp xs @ rest_run cmp xs = xs"
  by (induction cmp xs rule: take_run.induct) (auto split: prod.splits)

lemma take_run_Nil [simp]: "fst_run cmp xs = [] \<longleftrightarrow> xs = []"
  by (cases "(cmp, xs)" rule: take_run.cases) (auto split: prod.splits)

lemma hd_take_run: "xs \<noteq> [] \<Longrightarrow> hd (fst_run cmp xs) = hd xs"
  by (cases "(cmp, xs)" rule: take_run.cases) (auto split: prod.splits)

lemma less_of_Greater: "less_of cmp a b \<longleftrightarrow> compare cmp b a = Greater"
  by (simp add: less_of_def compare.greater_iff_sym_less)

lemma sorted_take_run: "sorted_by cmp (fst_run cmp xs)"
proof (induction cmp xs rule: take_run.induct)
  case (1 cmp x y ys)
  show ?case
  proof (cases "less_of cmp y x")
    case False
    then obtain r rest where r: "take_run cmp (y # ys) = (r, rest)" by fastforce
    then obtain r' where "r = y # r'"
      using hd_take_run [of "y # ys" cmp] take_run_Nil [of cmp "y # ys"] by (cases r) auto
    then show ?thesis using 1 False r by (simp add: less_of_Greater)
  qed simp
qed auto

lemma length_rest_run: "xs \<noteq> [] \<Longrightarrow> length (rest_run cmp xs) < length xs"
  using take_run_append [of cmp xs] take_run_Nil [of cmp xs] by (metis length_append length_greater_0_conv less_add_same_cancel2)

function merge_pass :: "'a comparator \<Rightarrow> 'a list \<Rightarrow> 'a list" where
  "merge_pass cmp xs =
     (if rest_run cmp xs = [] then xs
      else merge_by cmp (fst_run cmp xs) (fst_run cmp (rest_run cmp xs)) @ merge_pass cmp (rest_run cmp (rest_run cmp xs)))"
  by auto

function pass_cnt :: "'a comparator \<Rightarrow> 'a list \<Rightarrow> nat" where
  "pass_cnt cmp xs =
     (if xs = [] then 0 else if rest_run cmp xs = [] then 1
      else Suc (pass_cnt cmp (rest_run cmp (rest_run cmp xs))))"
  by auto

lemma length_rest_rest: "rest_run cmp xs \<noteq> [] \<Longrightarrow> length (rest_run cmp (rest_run cmp xs)) < length xs"
  by (metis length_rest_run less_trans list.size(3) not_less_zero take_run.simps(2) snd_conv)

termination merge_pass
  by (relation "measure (length \<circ> snd)") (auto simp: length_rest_rest)

termination pass_cnt
  by (relation "measure (length \<circ> snd)") (auto simp: length_rest_rest)

declare merge_pass.simps [simp del] pass_cnt.simps [simp del]

fun runs :: "'a comparator \<Rightarrow> 'a list \<Rightarrow> nat" where
  "runs cmp [] = 0"
| "runs cmp [x] = 1"
| "runs cmp (x # y # ys) = (if less_of cmp y x then 1 else 0) + runs cmp (y # ys)"

lemma runs_rest: "xs \<noteq> [] \<Longrightarrow> runs cmp xs = Suc (runs cmp (rest_run cmp xs))"
  by (induction cmp xs rule: take_run.induct) (auto split: prod.splits)

lemma runs_append: "runs cmp (xs @ ys) \<le> runs cmp xs + runs cmp ys"
proof (induction cmp xs rule: runs.induct)
  case (2 cmp x)
  then show ?case by (cases ys) auto
qed auto

lemma runs_pos: "runs cmp xs = 0 \<longleftrightarrow> xs = []"
  using runs_rest [of xs cmp] by (cases "xs = []") auto

lemma runs_sorted: "sorted_by cmp xs \<longleftrightarrow> runs cmp xs \<le> 1"
proof (induction cmp xs rule: runs.induct)
  case (3 cmp x y ys)
  then show ?case using runs_pos [of cmp "y # ys"] by (auto simp: less_of_Greater)
qed auto

lemma pass_cnt_runs: "2 * pass_cnt cmp xs \<le> runs cmp xs + 1"
proof (induction cmp xs rule: pass_cnt.induct)
  case (1 cmp xs)
  show ?case
  proof (cases "xs = [] \<or> rest_run cmp xs = []")
    case True
    then show ?thesis using runs_rest [of xs cmp] by (auto simp: pass_cnt.simps [of cmp xs])
  next
    case False
    then show ?thesis
      using 1 runs_rest [of xs cmp] runs_rest [of "rest_run cmp xs" cmp] by (simp add: pass_cnt.simps [of cmp xs])
  qed
qed

lemma rest_run_pass_cnt: "xs \<noteq> [] \<Longrightarrow> 0 < pass_cnt cmp xs"
  by (simp add: pass_cnt.simps)

lemma runs_merge_pass: "runs cmp (merge_pass cmp xs) \<le> pass_cnt cmp xs"
proof (induction cmp xs rule: merge_pass.induct)
  case (1 cmp xs)
  show ?case
  proof (cases "rest_run cmp xs = []")
    case True
    then show ?thesis
      using runs_rest [of xs cmp] by (cases "xs = []") (simp_all add: merge_pass.simps pass_cnt.simps)
  next
    case False
    let ?m = "merge_by cmp (fst_run cmp xs) (fst_run cmp (rest_run cmp xs))"
    have "runs cmp ?m \<le> 1"
      using sorted_merge [OF sorted_take_run sorted_take_run] by (simp add: runs_sorted)
    moreover have "xs \<noteq> []" using False by auto
    ultimately show ?thesis
      using 1 False runs_append [of cmp ?m "merge_pass cmp (rest_run cmp (rest_run cmp xs))"]
      by (simp add: merge_pass.simps [of cmp xs] pass_cnt.simps [of cmp xs])
  qed
qed

text \<open>A pass keeps the elements and, among equal elements, their order.\<close>

lemma merge_pass_stable:
  "mset (merge_pass cmp xs) = mset xs \<and> filter (\<lambda>y. compare cmp x y = Equiv) (merge_pass cmp xs) = filter (\<lambda>y. compare cmp x y = Equiv) xs"
proof (induction cmp xs rule: merge_pass.induct)
  case (1 cmp xs)
  show ?case
  proof (cases "rest_run cmp xs = []")
    case False
    have xs: "xs = fst_run cmp xs @ fst_run cmp (rest_run cmp xs) @ rest_run cmp (rest_run cmp xs)"
      by (metis take_run_append)
    have "filter (\<lambda>y. compare cmp x y = Equiv) (merge_by cmp (fst_run cmp xs) (fst_run cmp (rest_run cmp xs)))
      = filter (\<lambda>y. compare cmp x y = Equiv) (fst_run cmp xs @ fst_run cmp (rest_run cmp xs))"
      by (simp add: filter_merge sorted_take_run merge_stable_segments)
    then show ?thesis
      using 1 [OF False] arg_cong [OF xs, of mset] arg_cong [OF xs, of "filter (\<lambda>y. compare cmp x y = Equiv)"]
      by (simp add: merge_pass.simps [of cmp xs] False mset_merge)
  qed (simp add: merge_pass.simps [of cmp xs])
qed

lemma sort_merge_pass: "sort_by cmp (merge_pass cmp xs) = sort_by cmp xs"
  by (rule sort_eqI [symmetric]) (auto simp: merge_pass_stable stable_sort)

lemma sort_sorted: "sorted_by cmp xs \<Longrightarrow> sort_by cmp xs = xs"
  by (rule sort_eqI) auto

section \<open>The passes on the pointer structure\<close>

lemma run_loop_at:
  assumes "list_rep s l (xs @ y # ys)"
  shows "run_loop (less_of cmp) s (tail_of l) y = Some (at l (rest_run cmp (y # ys)))"
  using assms
proof (induction ys arbitrary: xs y)
  case Nil
  then show ?case by (subst run_loop.simps) (simp add: list_next_at)
next
  case (Cons z ys)
  have rep: "list_rep s l ((xs @ [y]) @ z # ys)" using Cons.prems by simp
  have "z \<noteq> tail_of l" using list_rep_distinct [OF Cons.prems] by auto
  moreover have "list_next y s = Some z" "list_prev z s = Some y"
    using list_next_at [OF Cons.prems] list_prev_at [OF Cons.prems] by auto
  ultimately show ?case
    using Cons.IH [OF rep] by (subst run_loop.simps) (simp split: prod.splits)
qed

lemma find_end_of_run_at:
  assumes "list_rep s l (xs @ ys)" and "ys \<noteq> []"
  shows "find_end_of_run (at l ys) (tail_of l) (less_of cmp) s = Some (at l (rest_run cmp ys))"
proof -
  obtain y zs where ys: "ys = y # zs" using assms(2) by (cases ys) auto
  show ?thesis
    using assms(1) run_loop_at [of s l xs y zs cmp] at_nonzero [of s l xs "y # zs"] at_nonzero [of s l "xs @ ys" "[]"]
      at_inj [of s l xs y zs "[]"]
    by (simp add: find_end_of_run_def ys)
qed

lemma sorted_loop_at:
  assumes "list_rep s l (xs @ (y # ys) @ zs)"
  shows "sorted_loop (less_of cmp) s (at l zs) y = Some (sorted_by cmp (y # ys))"
  using assms
proof (induction ys arbitrary: xs y)
  case Nil
  then show ?case by (subst sorted_loop.simps) (simp add: list_next_at)
next
  case (Cons z ys)
  have rep: "list_rep s l ((xs @ [y]) @ (z # ys) @ zs)" using Cons.prems by simp
  have "z \<noteq> at l zs" using at_inj [of s l "xs @ [y]" z ys zs] Cons.prems by simp
  moreover have "list_next y s = Some z" "list_prev z s = Some y"
    using list_next_at [of s l xs y "z # ys @ zs"] list_prev_at [of s l xs y "z # ys @ zs"] Cons.prems by auto
  ultimately show ?case
    using Cons.IH [OF rep] by (subst sorted_loop.simps) (simp add: less_of_Greater [of cmp z y])
qed

lemma is_sorted_at:
  assumes "list_rep s l (xs @ ys @ zs)"
  shows "is_sorted (at l (ys @ zs)) (at l zs) (less_of cmp) s = Some (sorted_by cmp ys)"
proof (cases ys)
  case (Cons y ys')
  then show ?thesis
    using assms sorted_loop_at [of s l xs y ys' zs cmp] at_inj [of s l xs y ys' zs] by (simp add: is_sorted_def)
qed (simp add: is_sorted_def)

lemma merge_loop_at:
  assumes "list_rep s l (xs @ as @ bs @ zs)"
  shows "\<exists>s'. merge_loop (less_of cmp) (at l zs) (at l (as @ bs @ zs)) (at l (bs @ zs)) s = Some s'
    \<and> list_rep s' l (xs @ merge_by cmp as bs @ zs)"
  using assms
proof (induction as bs arbitrary: xs s rule: Sorting_Algorithms.merge.induct [of _ cmp])
  case (1 bs)
  then show ?case by (subst merge_loop.simps) simp
next
  case (2 v va)
  then show ?case by (subst merge_loop.simps) simp
next
  case (3 a as b bs)
  have "a \<noteq> b" "b \<noteq> at l zs"
    using at_inj [of s l xs a as "b # bs @ zs"] at_inj [of s l "xs @ a # as" b bs zs] "3.prems" by auto
  note step = merge_loop.simps [of _ _ a b s] and ne = this
  show ?case
  proof (cases "less_of cmp b a")
    case True
    have "list_next b s = Some (at l (bs @ zs))" "list_prev (at l (bs @ zs)) s = Some b"
      using list_next_at [of s l "xs @ a # as" b "bs @ zs"] list_prev_at [of s l "xs @ a # as" b "bs @ zs"] "3.prems" by auto
    moreover obtain s1 where "list_splice a b (at l (bs @ zs)) s = Some s1" and rep: "list_rep s1 l (xs @ b # (a # as) @ bs @ zs)"
      using list_splice_within [of s l xs "a # as" "[b]" "bs @ zs"] "3.prems" by (auto simp: at_def)
    ultimately show ?thesis
      using "3.IH"(1) [of s1 "xs @ [b]"] True rep step ne by (simp add: less_of_Greater)
  next
    case False
    have "list_next a s = Some (at l (as @ b # bs @ zs))"
      using list_next_at [of s l xs a "as @ b # bs @ zs"] "3.prems" by auto
    then show ?thesis
      using "3.IH"(2) [of s "xs @ [a]"] False "3.prems" step ne by (simp add: less_of_Greater)
  qed
qed

lemma inplace_merge_at:
  assumes "list_rep s l (xs @ as @ bs @ zs)" and "sorted_by cmp as" and "sorted_by cmp bs"
  shows "\<exists>s'. inplace_merge (at l (as @ bs @ zs)) (at l (bs @ zs)) (at l zs) (less_of cmp) s = Some s'
    \<and> list_rep s' l (xs @ merge_by cmp as bs @ zs)"
  using merge_loop_at [OF assms(1), of cmp] is_sorted_at [of s l xs as "bs @ zs" cmp] is_sorted_at [of s l "xs @ as" bs zs cmp]
    at_nonzero [of s l xs] at_nonzero [of s l "xs @ as"] at_nonzero [of s l "xs @ as @ bs"] assms
  by (simp add: inplace_merge_def)

lemma rest_run_tail:
  assumes "list_rep s l (xs @ ys)"
  shows "at l (rest_run cmp ys) = tail_of l \<longleftrightarrow> rest_run cmp ys = []"
proof (cases "rest_run cmp ys")
  case (Cons r rs)
  then have "ys = fst_run cmp ys @ r # rs" by (metis take_run_append)
  then show ?thesis using assms at_inj [of s l "xs @ fst_run cmp ys" r rs "[]"] Cons by simp
qed simp

lemma pass_loop_at:
  assumes "list_rep s l (xs @ ys)"
  shows "\<exists>s'. pass_loop l (less_of cmp) (at l ys) n s = Some (n + pass_cnt cmp ys, s') \<and> list_rep s' l (xs @ merge_pass cmp ys)"
  using assms
proof (induction cmp ys arbitrary: xs n s rule: merge_pass.induct)
  case (1 cmp ys)
  note stop = list_end_rep [OF "1.prems"]
  note step = pass_loop.simps [of l "less_of cmp" "at l ys" n s]
  show ?case
  proof (cases "ys = []")
    case True
    then show ?thesis using "1.prems" step by (simp add: stop pass_cnt.simps merge_pass.simps)
  next
    case False
    let ?r1 = "fst_run cmp ys" and ?q = "rest_run cmp ys"
    let ?r2 = "fst_run cmp ?q" and ?z = "rest_run cmp ?q"
    have ne: "at l ys \<noteq> tail_of l"
      using False at_inj [of s l xs "hd ys" "tl ys" "[]"] "1.prems" by (cases ys) auto
    note end1 = find_end_of_run_at [OF "1.prems" False, of cmp]
    show ?thesis
    proof (cases "?q = []")
      case True
      then show ?thesis
        using "1.prems" False step ne end1 by (simp add: stop pass_cnt.simps [of cmp ys] merge_pass.simps [of cmp ys])
    next
      case q: False
      have ys: "ys = ?r1 @ ?q" "?q = ?r2 @ ?z" by (simp_all add: take_run_append)
      have rep: "list_rep s l (xs @ ?r1 @ ?r2 @ ?z)" "list_rep s l ((xs @ ?r1) @ ?q)"
        using "1.prems" ys by (metis append.assoc)+
      obtain s1 where m: "inplace_merge (at l ys) (at l ?q) (at l ?z) (less_of cmp) s = Some s1"
          and rep1: "list_rep s1 l (xs @ merge_by cmp ?r1 ?r2 @ ?z)"
        using inplace_merge_at [OF rep(1) sorted_take_run sorted_take_run] ys by metis
      have "at l ?q \<noteq> tail_of l" using rest_run_tail [OF "1.prems"] q by blast
      then show ?thesis
        using "1.IH" [OF q, of s1 "xs @ merge_by cmp ?r1 ?r2" "n + 1"] rep1 step ne end1 m find_end_of_run_at [OF rep(2) q, of cmp] False q
        by (simp add: stop pass_cnt.simps [of cmp ys] merge_pass.simps [of cmp ys])
    qed
  qed
qed

lemma sort_loop_rep:
  assumes "list_rep s l xs"
  shows "\<exists>s'. sort_loop l (less_of cmp) s = Some s' \<and> list_rep s' l (sort_by cmp xs)"
  using assms
proof (induction "runs cmp xs" arbitrary: xs s rule: less_induct)
  case less
  obtain s1 where p: "pass_loop l (less_of cmp) (at l xs) 0 s = Some (pass_cnt cmp xs, s1)" and rep: "list_rep s1 l (merge_pass cmp xs)"
    using pass_loop_at [of s l "[]" xs cmp 0] less.prems by auto
  note step = sort_loop.simps [of l "less_of cmp" s]
  show ?case
  proof (cases "pass_cnt cmp xs > 1")
    case True
    then have "runs cmp (merge_pass cmp xs) < runs cmp xs"
      using runs_merge_pass [of cmp xs] pass_cnt_runs [of cmp xs] by linarith
    then show ?thesis
      using less.hyps [OF _ rep] step p True by (simp add: list_begin_at [OF less.prems] sort_merge_pass)
  next
    case False
    then have "sorted_by cmp (merge_pass cmp xs)"
      using runs_merge_pass [of cmp xs] by (simp add: runs_sorted)
    then have "sort_by cmp xs = merge_pass cmp xs"
      by (metis sort_sorted sort_merge_pass)
    then show ?thesis
      using step p rep False by (simp add: list_begin_at [OF less.prems])
  qed
qed

lemma list_sort_rep:
  assumes "list_rep s l xs"
  shows "\<exists>s'. list_sort l (less_of cmp) s = Some s' \<and> list_rep s' l (sort_by cmp xs)"
proof -
  obtain s' where "sort_loop l (less_of cmp) s = Some s'" and rep: "list_rep s' l (sort_by cmp xs)"
    using sort_loop_rep [OF assms] by blast
  then show ?thesis
    using is_sorted_at [of s' l "[]" "sort_by cmp xs" "[]" cmp]
    by (simp add: list_sort_def list_rep_l [OF assms] list_begin_at [OF rep] list_end_rep [OF rep])
qed

section \<open>Ordered insertion\<close>

lemma ordered_loop_at:
  assumes "list_rep s l (xs @ ys)"
  shows "ordered_loop l e lessf s (at l ys) = Some (at l (dropWhile (\<lambda>y. \<not> lessf e y) ys))"
  using assms
proof (induction ys arbitrary: xs)
  case Nil
  then show ?case using list_end_rep [OF Nil] by (subst ordered_loop.simps) simp
next
  case (Cons y ys)
  have "y \<noteq> tail_of l" using list_rep_distinct [OF Cons.prems] by auto
  then show ?case
    using Cons.IH [of "xs @ [y]"] Cons.prems list_next_at [OF Cons.prems] list_end_rep [OF Cons.prems]
    by (subst ordered_loop.simps) simp
qed

lemma list_insert_ordered_rep:
  assumes "list_rep s l xs" and "e \<notin> set (nodes l xs)" and "e \<noteq> 0"
  shows "\<exists>s'. list_insert_ordered l e lessf s = Some s'
    \<and> list_rep s' l (takeWhile (\<lambda>y. \<not> lessf e y) xs @ e # dropWhile (\<lambda>y. \<not> lessf e y) xs)"
proof -
  let ?t = "takeWhile (\<lambda>y. \<not> lessf e y) xs" and ?d = "dropWhile (\<lambda>y. \<not> lessf e y) xs"
  have "list_rep s l (?t @ ?d)" "e \<notin> set (nodes l (?t @ ?d))" using assms by simp_all
  then obtain s' where "list_insert (at l ?d) e s = Some s'" "list_rep s' l (?t @ e # ?d)"
    using list_insert_rep assms(3) unfolding at_def by blast
  then show ?thesis
    using ordered_loop_at [of s l "[]" xs e lessf] assms
    by (simp add: list_insert_ordered_def list_rep_l [OF assms(1)] list_begin_at [OF assms(1)])
qed

text \<open>Into a sorted list, that is the position at the end of the equal elements.\<close>

lemma less_of_trans_not: "less_of cmp e x \<Longrightarrow> \<not> less_of cmp y x \<Longrightarrow> less_of cmp e y"
  using compare.trans_not_less [of cmp e y x] by (auto simp: less_of_def)

lemma sorted_dropWhile:
  assumes "sorted_by cmp xs" and "y \<in> set (dropWhile (\<lambda>y. \<not> less_of cmp e y) xs)"
  shows "less_of cmp e y"
proof (cases "dropWhile (\<lambda>y. \<not> less_of cmp e y) xs")
  case Nil
  then show ?thesis using assms(2) by (simp only: list.set empty_iff)
next
  case (Cons d ds)
  then have "less_of cmp e d" by (simp add: dropWhile_eq_Cons_conv)
  moreover have "sorted_by cmp (takeWhile (\<lambda>y. \<not> less_of cmp e y) xs @ d # ds)"
    unfolding Cons [symmetric] using assms(1) by simp
  then have "sorted_by cmp (d # ds)"
    unfolding sorted_append_iff by blast
  then have "y = d \<or> \<not> less_of cmp y d"
    using assms(2) [unfolded Cons] sorted_Cons_imp_not_less [of cmp d ds y] by (auto simp: less_of_Greater)
  ultimately show ?thesis using less_of_trans_not [of cmp e d y] by auto
qed

lemma sort_insert:
  assumes "sorted_by cmp (t @ d)" and "\<And>y. y \<in> set t \<Longrightarrow> \<not> less_of cmp e y" and "\<And>y. y \<in> set d \<Longrightarrow> less_of cmp e y"
  shows "sort_by cmp ((t @ d) @ [e]) = t @ e # d"
proof (rule sort_eqI)
  have "sorted_by cmp (t @ [e] @ d)"
    using assms unfolding sorted_append_iff by (auto simp: less_of_Greater dest: compare.asym_greater compare.asym_less)
  then show "sorted_by cmp (t @ e # d)" by simp
  fix y
  show "filter (\<lambda>z. compare cmp y z = Equiv) ((t @ d) @ [e]) = filter (\<lambda>z. compare cmp y z = Equiv) (t @ e # d)"
  proof (cases "compare cmp y e = Equiv")
    case True
    then have "filter (\<lambda>z. compare cmp y z = Equiv) d = []"
      using assms(3) compare.equiv_subst_left [of cmp y e] by (auto simp: filter_empty_conv less_of_def)
    then show ?thesis by simp
  qed simp
qed simp

lemma sort_snoc:
  assumes "sorted_by cmp xs"
  shows "sort_by cmp (xs @ [e]) = takeWhile (\<lambda>y. \<not> less_of cmp e y) xs @ e # dropWhile (\<lambda>y. \<not> less_of cmp e y) xs"
proof -
  let ?P = "\<lambda>y. \<not> less_of cmp e y"
  have "sort_by cmp ((takeWhile ?P xs @ dropWhile ?P xs) @ [e]) = takeWhile ?P xs @ e # dropWhile ?P xs"
  proof (rule sort_insert)
    show "sorted_by cmp (takeWhile ?P xs @ dropWhile ?P xs)" using assms by simp
    show "\<not> less_of cmp e y" if "y \<in> set (takeWhile ?P xs)" for y using set_takeWhileD [OF that] by simp
    show "less_of cmp e y" if "y \<in> set (dropWhile ?P xs)" for y using assms that by (rule sorted_dropWhile)
  qed
  then show ?thesis by (simp only: takeWhile_dropWhile_id)
qed

section \<open>Duplicates\<close>

text \<open>The list without the repetitions that follow an equal element, and those repetitions.\<close>

fun uniq :: "('a \<Rightarrow> 'a \<Rightarrow> bool) \<Rightarrow> 'a list \<Rightarrow> 'a list \<times> 'a list" where
  "uniq lessf (x # y # ys) =
     (if \<not> lessf x y \<and> \<not> lessf y x then case uniq lessf (x # ys) of (us, ds) \<Rightarrow> (us, y # ds)
      else case uniq lessf (y # ys) of (us, ds) \<Rightarrow> (x # us, ds))"
| "uniq lessf xs = (xs, [])"

lemma nodes_middle: "set (nodes l (xs @ y # ys)) = insert y (set (nodes l (xs @ ys)))"
  by (auto simp: nodes_def)

lemma move_duplicate:
  assumes rep: "list_rep s l (xs @ z # zs)" and "d \<noteq> 0 \<longrightarrow> list_rep s d ds \<and> set (nodes l (xs @ z # zs)) \<inter> set (nodes d ds) = {}"
  shows "\<exists>s1 s2. list_remove z s = Some (at l zs, s1) \<and> (if d \<noteq> 0 then list_push_back d z s1 else Some s1) = Some s2
    \<and> list_rep s2 l (xs @ zs) \<and> (d \<noteq> 0 \<longrightarrow> list_rep s2 d (ds @ [z]) \<and> set (nodes l (xs @ zs)) \<inter> set (nodes d (ds @ [z])) = {})"
proof -
  obtain s1 where 1: "list_remove z s = Some (at l zs, s1)" "list_rep s1 l (xs @ zs)"
      "agree_outside (set (nodes l (xs @ z # zs))) s s1"
    using list_remove_rep [OF rep] unfolding at_def by blast
  show ?thesis
  proof (cases "d = 0")
    case False
    then have ds: "list_rep s1 d ds" "z \<notin> set (nodes d ds)" "z \<noteq> 0"
      using assms(2) 1(3) list_rep_frame [of s d ds _ s1] list_rep_nonnull [OF rep, of z]
      by (auto simp: nodes_middle Int_commute)
    obtain s2 where 2: "list_push_back d z s1 = Some s2" "list_rep s2 d (ds @ [z])" "agree_outside (insert z (set (nodes d ds))) s1 s2"
      using list_push_back_rep [OF ds] by blast
    have dj: "set (nodes l (xs @ zs)) \<inter> insert z (set (nodes d ds)) = {}"
      using assms(2) False rep by (auto simp: nodes_def list_rep_def)
    then have "list_rep s2 l (xs @ zs)"
      using list_rep_frame [OF _ 2(3)] 1(2) by simp
    moreover have "set (nodes d (ds @ [z])) = insert z (set (nodes d ds))" by (auto simp: nodes_def)
    ultimately show ?thesis using 1(1) 2(1,2) dj False by simp
  qed (use 1 in simp)
qed

lemma unique_loop_at:
  assumes "list_rep s l (xs @ y # ys)" and "d \<noteq> 0 \<longrightarrow> list_rep s d ds \<and> set (nodes l (xs @ y # ys)) \<inter> set (nodes d ds) = {}"
  shows "\<exists>s'. unique_loop l d lessf y s = Some s' \<and> list_rep s' l (xs @ fst (uniq lessf (y # ys)))
    \<and> (d \<noteq> 0 \<longrightarrow> list_rep s' d (ds @ snd (uniq lessf (y # ys))))"
  using assms
proof (induction "length ys" arbitrary: xs y ys s ds)
  case 0
  then show ?case
    using list_next_at [OF "0.prems"(1)] list_end_rep [OF "0.prems"(1)] by (subst unique_loop.simps) simp
next
  case (Suc n)
  then obtain z zs where ys: "ys = z # zs" "n = length zs" by (cases ys) auto
  have "z \<noteq> tail_of l" using list_rep_distinct [OF Suc.prems(1)] ys by auto
  note step = unique_loop.simps [of l d lessf y s] list_next_at [OF Suc.prems(1)] list_end_rep [OF Suc.prems(1)] this
  show ?case
  proof (cases "\<not> lessf y z \<and> \<not> lessf z y")
    case False
    then have "unique_loop l d lessf y s = unique_loop l d lessf z s"
        "uniq lessf (y # ys) = (y # fst (uniq lessf (z # zs)), snd (uniq lessf (z # zs)))"
      using step ys by (auto split: prod.splits)
    then show ?thesis
      using Suc.hyps(1) [of zs s "xs @ [y]" z ds] Suc.prems ys by simp
  next
    case True
    then have u: "uniq lessf (y # ys) = (fst (uniq lessf (y # zs)), z # snd (uniq lessf (y # zs)))"
        "unique_loop l d lessf y s = do {
           (_, s) \<leftarrow> list_remove z s;
           s \<leftarrow> (if d \<noteq> 0 then list_push_back d z s else Some s);
           unique_loop l d lessf y s }"
      using step ys by (auto split: prod.splits)
    obtain s1 s2 where "list_remove z s = Some (at l zs, s1)" "(if d \<noteq> 0 then list_push_back d z s1 else Some s1) = Some s2"
        "list_rep s2 l (xs @ y # zs)" "d \<noteq> 0 \<longrightarrow> list_rep s2 d (ds @ [z]) \<and> set (nodes l (xs @ y # zs)) \<inter> set (nodes d (ds @ [z])) = {}"
      using move_duplicate [of s l "xs @ [y]" z zs d ds] Suc.prems ys by auto
    then show ?thesis
      using Suc.hyps(1) [of zs s2 xs y "ds @ [z]"] ys u by simp
  qed
qed

lemma list_unique_rep:
  assumes "list_rep s l xs" and "d \<noteq> 0 \<longrightarrow> list_rep s d ds \<and> set (nodes l xs) \<inter> set (nodes d ds) = {}"
  shows "\<exists>s'. list_unique l d lessf s = Some s' \<and> list_rep s' l (fst (uniq lessf xs)) \<and> (d \<noteq> 0 \<longrightarrow> list_rep s' d (ds @ snd (uniq lessf xs)))"
proof (cases xs)
  case Nil
  then show ?thesis using assms by (simp add: list_unique_def list_empty_rep list_rep_l)
next
  case (Cons y ys)
  then show ?thesis
    using assms unique_loop_at [of s l "[]" y ys d ds lessf]
    by (simp add: list_unique_def list_empty_rep list_rep_l list_begin_at)
qed

section \<open>Extrema\<close>

lemma max_loop_at:
  assumes "list_rep s l (xs @ ys)"
  shows "max_loop l lessf s m (at l ys) = Some (foldl (\<lambda>m e. if lessf m e then e else m) m ys)"
  using assms
proof (induction ys arbitrary: xs m)
  case Nil
  then show ?case using list_end_rep [OF Nil] by (subst max_loop.simps) simp
next
  case (Cons y ys)
  have "y \<noteq> tail_of l" using list_rep_distinct [OF Cons.prems] by auto
  then show ?case
    using Cons.IH [of "xs @ [y]"] Cons.prems list_next_at [OF Cons.prems] list_end_rep [OF Cons.prems]
    by (subst max_loop.simps) simp
qed

lemma min_loop_at:
  assumes "list_rep s l (xs @ ys)"
  shows "min_loop l lessf s m (at l ys) = Some (foldl (\<lambda>m e. if lessf e m then e else m) m ys)"
  using assms
proof (induction ys arbitrary: xs m)
  case Nil
  then show ?case using list_end_rep [OF Nil] by (subst min_loop.simps) simp
next
  case (Cons y ys)
  have "y \<noteq> tail_of l" using list_rep_distinct [OF Cons.prems] by auto
  then show ?case
    using Cons.IH [of "xs @ [y]"] Cons.prems list_next_at [OF Cons.prems] list_end_rep [OF Cons.prems]
    by (subst min_loop.simps) simp
qed

text \<open>The first of the largest elements: everything before it is smaller, nothing after it is larger.\<close>

lemma foldl_first_max:
  assumes "\<And>a b c. lt a b \<Longrightarrow> \<not> lt a c \<Longrightarrow> lt c b" and "\<And>a b c. lt a b \<Longrightarrow> lt b c \<Longrightarrow> lt a c"
    and "xs @ m # ys = zs" and "\<forall>u\<in>set xs. lt u m" and "\<forall>v\<in>set ys. \<not> lt m v"
  shows "\<exists>us r vs. zs @ ws = us @ r # vs \<and> foldl (\<lambda>m e. if lt m e then e else m) m ws = r
    \<and> (\<forall>u\<in>set us. lt u r) \<and> (\<forall>v\<in>set vs. \<not> lt r v)"
  using assms(3-)
proof (induction ws arbitrary: m xs ys zs)
  case (Cons w ws)
  show ?case
  proof (cases "lt m w")
    case True
    have "lt u w" if "u \<in> set zs" for u
    proof -
      consider "u \<in> set xs" | "u = m" | "u \<in> set ys" using Cons.prems(1) \<open>u \<in> set zs\<close> by auto
      then show ?thesis
        using Cons.prems True assms(1) [of m w u] assms(2) [of u m w] by cases blast+
    qed
    then show ?thesis using Cons.IH [of zs w "[]" "zs @ [w]"] True by simp
  next
    case False
    then show ?thesis using Cons.IH [of xs m "ys @ [w]" "zs @ [w]"] Cons.prems by auto
  qed
qed auto

lemma first_max:
  assumes "\<And>a b c. lt a b \<Longrightarrow> \<not> lt a c \<Longrightarrow> lt c b" and "\<And>a b c. lt a b \<Longrightarrow> lt b c \<Longrightarrow> lt a c"
  shows "\<exists>us vs. x # xs = us @ foldl (\<lambda>m e. if lt m e then e else m) x xs # vs
    \<and> (\<forall>u\<in>set us. lt u (foldl (\<lambda>m e. if lt m e then e else m) x xs)) \<and> (\<forall>v\<in>set vs. \<not> lt (foldl (\<lambda>m e. if lt m e then e else m) x xs) v)"
proof -
  have "\<exists>us r vs. [x] @ xs = us @ r # vs \<and> foldl (\<lambda>m e. if lt m e then e else m) x xs = r
    \<and> (\<forall>u\<in>set us. lt u r) \<and> (\<forall>v\<in>set vs. \<not> lt r v)"
    by (rule foldl_first_max [where xs = "[]" and ys = "[]"]) (fact assms(1), fact assms(2), simp_all)
  then show ?thesis by auto
qed

lemma less_of_trans: "less_of cmp a b \<Longrightarrow> less_of cmp b c \<Longrightarrow> less_of cmp a c"
  by (auto simp: less_of_def intro: compare.trans_less)

lemma less_of_cotrans: "less_of cmp a b \<Longrightarrow> \<not> less_of cmp a c \<Longrightarrow> less_of cmp c b"
  using compare.trans_not_less [of cmp a c b] by (auto simp: less_of_def)

lemma max_first:
  "\<exists>us vs. x # xs = us @ foldl (\<lambda>m e. if less_of cmp m e then e else m) x xs # vs
    \<and> (\<forall>u\<in>set us. less_of cmp u (foldl (\<lambda>m e. if less_of cmp m e then e else m) x xs))
    \<and> (\<forall>v\<in>set vs. \<not> less_of cmp (foldl (\<lambda>m e. if less_of cmp m e then e else m) x xs) v)"
  by (rule first_max) (fact less_of_cotrans less_of_trans)+

lemma min_first:
  "\<exists>us vs. x # xs = us @ foldl (\<lambda>m e. if less_of cmp e m then e else m) x xs # vs
    \<and> (\<forall>u\<in>set us. less_of cmp (foldl (\<lambda>m e. if less_of cmp e m then e else m) x xs) u)
    \<and> (\<forall>v\<in>set vs. \<not> less_of cmp v (foldl (\<lambda>m e. if less_of cmp e m then e else m) x xs))"
proof (rule first_max [where lt = "\<lambda>a b. less_of cmp b a"])
  show "less_of cmp b a \<Longrightarrow> \<not> less_of cmp c a \<Longrightarrow> less_of cmp b c" for a b c by (rule less_of_trans_not)
  show "less_of cmp b a \<Longrightarrow> less_of cmp c b \<Longrightarrow> less_of cmp c a" for a b c by (rule less_of_trans [of cmp c b a])
qed

section \<open>Properties\<close>

text \<open>
  C6: \<open>list_sort\<close> returns for every list and every strict weak order, none of its
  assertions fails, and the list then holds the stable sort of its elements: the same
  elements, in order, and equal ones in the order they had.
\<close>

theorem list_sort_stable:
  assumes "list_rep s l xs"
  shows "\<exists>s'. list_sort l (less_of cmp) s = Some s' \<and> list_rep s' l (Sorting_Algorithms.sort cmp xs)"
  using assms by (rule list_sort_rep)

theorem list_sort_stable_witness:
  "\<exists>s'. list_sort 100 (less_of (reversed default)) \<lparr>l_prev = (\<lambda>_. 0)(108 := 32, 32 := 16, 16 := 100), l_next = (\<lambda>_. 0)(100 := 16, 16 := 32, 32 := 108)\<rparr> = Some s'
    \<and> list_rep s' 100 [32, 16]"
  using list_sort_stable [OF example_links_rep2, of "reversed default"] by simp

text \<open>
  C33: \<open>list_insert_ordered\<close> into a sorted list gives the stable sort of the list with the
  new element at its end: the result is sorted and the element stands behind its equals.
\<close>

theorem list_insert_ordered_sorted:
  assumes "list_rep s l xs" and "Sorting_Algorithms.sorted cmp xs" and "e \<notin> set (nodes l xs)" and "e \<noteq> 0"
  shows "\<exists>s'. list_insert_ordered l e (less_of cmp) s = Some s' \<and> list_rep s' l (Sorting_Algorithms.sort cmp (xs @ [e]))"
  using list_insert_ordered_rep [OF assms(1,3,4)] by (simp add: sort_snoc [OF assms(2)])

theorem list_insert_ordered_sorted_witness:
  "\<exists>s'. list_insert_ordered 100 16 (less_of default) example_links = Some s'
    \<and> list_rep s' 100 (Sorting_Algorithms.sort default ([] @ [16]))"
  by (rule list_insert_ordered_sorted) (simp_all add: example_links_rep nodes_def head_of_def tail_of_def)

text \<open>
  \<open>list_unique\<close> keeps the first of each group of adjacent equal elements and appends
  the others, in order, to the list of duplicates when there is one.
\<close>

theorem list_unique_correct:
  assumes "list_rep s l xs" and "d \<noteq> 0 \<longrightarrow> list_rep s d ds \<and> set (nodes l xs) \<inter> set (nodes d ds) = {}"
  shows "\<exists>s'. list_unique l d lessf s = Some s' \<and> list_rep s' l (fst (uniq lessf xs)) \<and> (d \<noteq> 0 \<longrightarrow> list_rep s' d (ds @ snd (uniq lessf xs)))"
  using assms by (rule list_unique_rep)

theorem list_unique_correct_witness:
  "\<exists>s'. list_unique 100 0 (\<lambda>_ _. False) \<lparr>l_prev = (\<lambda>_. 0)(108 := 32, 32 := 16, 16 := 100), l_next = (\<lambda>_. 0)(100 := 16, 16 := 32, 32 := 108)\<rparr> = Some s'
    \<and> list_rep s' 100 [16]"
  using list_unique_correct [OF example_links_rep2, of 0 "[]" "\<lambda>_ _. False"] by simp

text \<open>
  \<open>list_max\<close> returns the first of the largest elements and \<open>list_min\<close> the first of the
  smallest: with respect to the result \<open>m\<close>, the elements before it are strictly smaller
  (larger) and none behind it is larger (smaller).
\<close>

theorem list_max_min_first:
  assumes "list_rep s l xs" and "xs \<noteq> []"
  shows "\<exists>us m vs us' m' vs'. xs = us @ m # vs \<and> list_max l (less_of cmp) s = Some m
      \<and> (\<forall>u\<in>set us. less_of cmp u m) \<and> (\<forall>v\<in>set vs. \<not> less_of cmp m v)
      \<and> xs = us' @ m' # vs' \<and> list_min l (less_of cmp) s = Some m'
      \<and> (\<forall>u\<in>set us'. less_of cmp m' u) \<and> (\<forall>v\<in>set vs'. \<not> less_of cmp v m')"
proof -
  obtain x ys where xs: "xs = x # ys" using assms(2) by (cases xs) auto
  have rep: "list_rep s l ([] @ x # ys)" "list_rep s l ([x] @ ys)" using assms(1) xs by simp_all
  have "x \<noteq> tail_of l" using list_rep_distinct [OF assms(1)] xs by auto
  then have "list_max l (less_of cmp) s = Some (foldl (\<lambda>m e. if less_of cmp m e then e else m) x ys)"
      "list_min l (less_of cmp) s = Some (foldl (\<lambda>m e. if less_of cmp e m then e else m) x ys)"
    using max_loop_at [OF rep(2), of "less_of cmp" x] min_loop_at [OF rep(2), of "less_of cmp" x] list_next_at [OF rep(1)]
    by (simp_all add: list_max_def list_min_def list_begin_at [OF assms(1)] list_end_rep [OF assms(1)] xs)
  moreover obtain us vs where "xs = us @ foldl (\<lambda>m e. if less_of cmp m e then e else m) x ys # vs"
      "\<forall>u\<in>set us. less_of cmp u (foldl (\<lambda>m e. if less_of cmp m e then e else m) x ys)"
      "\<forall>v\<in>set vs. \<not> less_of cmp (foldl (\<lambda>m e. if less_of cmp m e then e else m) x ys) v"
    using max_first [of x ys cmp] xs by auto
  moreover obtain us' vs' where "xs = us' @ foldl (\<lambda>m e. if less_of cmp e m then e else m) x ys # vs'"
      "\<forall>u\<in>set us'. less_of cmp (foldl (\<lambda>m e. if less_of cmp e m then e else m) x ys) u"
      "\<forall>v\<in>set vs'. \<not> less_of cmp v (foldl (\<lambda>m e. if less_of cmp e m then e else m) x ys)"
    using min_first [of x ys cmp] xs by auto
  ultimately show ?thesis by (intro exI conjI)
qed

theorem list_max_min_first_witness:
  "\<exists>us m vs us' m' vs'. [16, 32] = us @ m # vs
      \<and> list_max 100 (less_of default) \<lparr>l_prev = (\<lambda>_. 0)(108 := 32, 32 := 16, 16 := 100), l_next = (\<lambda>_. 0)(100 := 16, 16 := 32, 32 := 108)\<rparr> = Some m
      \<and> (\<forall>u\<in>set us. less_of default u m) \<and> (\<forall>v\<in>set vs. \<not> less_of default m v)
      \<and> [16, 32] = us' @ m' # vs'
      \<and> list_min 100 (less_of default) \<lparr>l_prev = (\<lambda>_. 0)(108 := 32, 32 := 16, 16 := 100), l_next = (\<lambda>_. 0)(100 := 16, 16 := 32, 32 := 108)\<rparr> = Some m'
      \<and> (\<forall>u\<in>set us'. less_of default m' u) \<and> (\<forall>v\<in>set vs'. \<not> less_of default v m')"
  by (rule list_max_min_first [OF example_links_rep2]) simp

end
