(* ===== verification/Hash.thy ===== *)
theory Hash
  imports Prelude "HOL-Library.Multiset"
begin

text \<open>
  lib/kernel/hash.c: the chained hash table.  Elements have a type \<open>'e\<close> (in the kernel: the
  address of the embedded \<open>struct hash_elem\<close>); \<open>hf\<close> and \<open>lf\<close> are the hash and comparison
  functions of the table, passed to each operation because they read the elements as they
  are at the time of the call.  A bucket is the list of its elements: the operations of
  lib/kernel/list.c on it are those of the list of values, which theory Klist shows of the
  pointers.  \<open>mem\<close> says whether \<open>malloc\<close> has the memory for a new array of buckets.
\<close>

record 'e hash =
  elem_cnt :: nat
  bucket_cnt :: nat
  buckets :: "'e list list"

section \<open>Hash functions\<close>

definition FNV_32_PRIME :: u32 where
  "FNV_32_PRIME = 16777619"

definition FNV_32_BASIS :: u32 where
  "FNV_32_BASIS = 2166136261"

text \<open>\<open>hash_bytes\<close> has as argument the \<open>size\<close> bytes at \<open>buf\<close>.\<close>

fun hash_bytes_loop :: "u8 list \<Rightarrow> u32 \<Rightarrow> u32" where
  "hash_bytes_loop [] h = h"
| "hash_bytes_loop (b # bs) h = hash_bytes_loop bs ((h * FNV_32_PRIME) XOR ucast b)"

definition hash_bytes :: "u8 list \<Rightarrow> u32" where
  "hash_bytes buf = hash_bytes_loop buf FNV_32_BASIS"

text \<open>The bytes at \<open>s\<close> in memory; a string without a terminator is read past its end.\<close>

fun hash_string_loop :: "u8 list \<Rightarrow> u32 \<Rightarrow> u32 option" where
  "hash_string_loop [] h = None"
| "hash_string_loop (b # bs) h =
     (if b \<noteq> 0 then hash_string_loop bs ((h * FNV_32_PRIME) XOR ucast b) else Some h)"

definition hash_string :: "u8 list \<Rightarrow> u32 option" where
  "hash_string s = hash_string_loop s FNV_32_BASIS"

text \<open>The object representation of a 32-bit integer.\<close>

definition le_bytes :: "u32 \<Rightarrow> u8 list" where
  "le_bytes w = map (\<lambda>i. ucast (drop_bit (8 * i) w)) [0, 1, 2, 3]"

definition hash_int :: "u32 \<Rightarrow> u32" where
  "hash_int i = hash_bytes (le_bytes i)"

section \<open>Buckets\<close>

definition turn_off_least_1bit :: "nat \<Rightarrow> nat" where
  "turn_off_least_1bit x = x AND (x - 1)"

definition is_power_of_2 :: "nat \<Rightarrow> bool" where
  "is_power_of_2 x \<longleftrightarrow> x \<noteq> 0 \<and> turn_off_least_1bit x = 0"

definition find_bucket :: "('e \<Rightarrow> u32) \<Rightarrow> 'e hash \<Rightarrow> 'e \<Rightarrow> nat" where
  "find_bucket hf h e = unat (hf e) AND (bucket_cnt h - 1)"

fun find_elem :: "('e \<Rightarrow> 'e \<Rightarrow> bool) \<Rightarrow> 'e list \<Rightarrow> 'e \<Rightarrow> 'e option" where
  "find_elem lf [] e = None"
| "find_elem lf (hi # is) e = (if \<not> lf hi e \<and> \<not> lf e hi then Some hi else find_elem lf is e)"

definition insert_elem :: "'e hash \<Rightarrow> nat \<Rightarrow> 'e \<Rightarrow> 'e hash option" where
  "insert_elem h bucket e = do {
     b \<leftarrow> rd (buckets h) bucket;
     bs \<leftarrow> wr (buckets h) bucket (e # b);
     Some (h\<lparr>elem_cnt := elem_cnt h + 1, buckets := bs\<rparr>)
   }"

text \<open>\<open>list_remove\<close> unlinks an element from the list it is in.\<close>

definition remove_elem :: "'e hash \<Rightarrow> 'e \<Rightarrow> 'e hash" where
  "remove_elem h e = h\<lparr>elem_cnt := elem_cnt h - 1, buckets := map (remove1 e) (buckets h)\<rparr>"

partial_function (option) shrink_loop :: "nat \<Rightarrow> nat option" where
  "shrink_loop n = (if \<not> is_power_of_2 n then shrink_loop (turn_off_least_1bit n) else Some n)"

text \<open>Moving the elements of one old bucket, front to back, and then those of all old buckets.\<close>

fun move_elems :: "('e \<Rightarrow> u32) \<Rightarrow> 'e list \<Rightarrow> 'e hash \<Rightarrow> 'e hash option" where
  "move_elems hf [] h = Some h"
| "move_elems hf (e # es) h = do {
     b \<leftarrow> rd (buckets h) (find_bucket hf h e);
     bs \<leftarrow> wr (buckets h) (find_bucket hf h e) (e # b);
     move_elems hf es (h\<lparr>buckets := bs\<rparr>)
   }"

fun move_buckets :: "('e \<Rightarrow> u32) \<Rightarrow> 'e list list \<Rightarrow> 'e hash \<Rightarrow> 'e hash option" where
  "move_buckets hf [] h = Some h"
| "move_buckets hf (b # bs) h = do { h \<leftarrow> move_elems hf b h; move_buckets hf bs h }"

definition rehash :: "('e \<Rightarrow> u32) \<Rightarrow> bool \<Rightarrow> 'e hash \<Rightarrow> 'e hash option" where
  "rehash hf mem h = do {
     let n = elem_cnt h div 2;
     let n = (if n < 4 then 4 else n);
     new_bucket_cnt \<leftarrow> shrink_loop n;
     if new_bucket_cnt = bucket_cnt h then Some h
     else if \<not> mem then Some h
     else move_buckets hf (buckets h) (h\<lparr>buckets := replicate new_bucket_cnt [], bucket_cnt := new_bucket_cnt\<rparr>)
   }"

section \<open>Operations\<close>

text \<open>With a destructor, the elements it is called for, in order, are part of the result.\<close>

fun clear_loop :: "bool \<Rightarrow> 'e list list \<Rightarrow> 'e list \<times> 'e list list" where
  "clear_loop destructor [] = ([], [])"
| "clear_loop destructor (b # bs) =
     (let (es, bs') = clear_loop destructor bs in ((if destructor then b else []) @ es, [] # bs'))"

definition hash_clear :: "bool \<Rightarrow> 'e hash \<Rightarrow> 'e list \<times> 'e hash" where
  "hash_clear destructor h =
     (let (es, bs) = clear_loop destructor (buckets h) in (es, h\<lparr>buckets := bs, elem_cnt := 0\<rparr>))"

text \<open>
  \<open>malloc\<close> leaves the buckets uninitialised; \<open>junk\<close> is what they hold before \<open>hash_clear\<close>
  initialises them.
\<close>

definition hash_init :: "'e list list \<Rightarrow> bool \<Rightarrow> 'e hash \<times> bool" where
  "hash_init junk mem =
     (let h = \<lparr>elem_cnt = 0, bucket_cnt = 4, buckets = take 4 (junk @ replicate 4 [])\<rparr> in
      if mem then (snd (hash_clear False h), True) else (h\<lparr>buckets := []\<rparr>, False))"

definition hash_destroy :: "bool \<Rightarrow> 'e hash \<Rightarrow> 'e list" where
  "hash_destroy destructor h = (if destructor then fst (hash_clear True h) else [])"

definition hash_insert :: "('e \<Rightarrow> u32) \<Rightarrow> ('e \<Rightarrow> 'e \<Rightarrow> bool) \<Rightarrow> bool \<Rightarrow> 'e hash \<Rightarrow> 'e \<Rightarrow> ('e option \<times> 'e hash) option" where
  "hash_insert hf lf mem h e = do {
     let bucket = find_bucket hf h e;
     b \<leftarrow> rd (buckets h) bucket;
     let old = find_elem lf b e;
     h \<leftarrow> (if old = None then insert_elem h bucket e else Some h);
     h \<leftarrow> rehash hf mem h;
     Some (old, h)
   }"

definition hash_replace :: "('e \<Rightarrow> u32) \<Rightarrow> ('e \<Rightarrow> 'e \<Rightarrow> bool) \<Rightarrow> bool \<Rightarrow> 'e hash \<Rightarrow> 'e \<Rightarrow> ('e option \<times> 'e hash) option" where
  "hash_replace hf lf mem h e = do {
     let bucket = find_bucket hf h e;
     b \<leftarrow> rd (buckets h) bucket;
     let old = find_elem lf b e;
     let h = (case old of None \<Rightarrow> h | Some x \<Rightarrow> remove_elem h x);
     h \<leftarrow> insert_elem h bucket e;
     h \<leftarrow> rehash hf mem h;
     Some (old, h)
   }"

definition hash_find :: "('e \<Rightarrow> u32) \<Rightarrow> ('e \<Rightarrow> 'e \<Rightarrow> bool) \<Rightarrow> 'e hash \<Rightarrow> 'e \<Rightarrow> 'e option option" where
  "hash_find hf lf h e = do {
     b \<leftarrow> rd (buckets h) (find_bucket hf h e);
     Some (find_elem lf b e)
   }"

definition hash_delete :: "('e \<Rightarrow> u32) \<Rightarrow> ('e \<Rightarrow> 'e \<Rightarrow> bool) \<Rightarrow> bool \<Rightarrow> 'e hash \<Rightarrow> 'e \<Rightarrow> ('e option \<times> 'e hash) option" where
  "hash_delete hf lf mem h e = do {
     b \<leftarrow> rd (buckets h) (find_bucket hf h e);
     let found = find_elem lf b e;
     h \<leftarrow> (case found of None \<Rightarrow> Some h | Some x \<Rightarrow> rehash hf mem (remove_elem h x));
     Some (found, h)
   }"

text \<open>The elements for which \<open>hash_apply\<close> calls the action, in order.\<close>

fun apply_loop :: "'e list list \<Rightarrow> 'e list" where
  "apply_loop [] = []"
| "apply_loop (b # bs) = b @ apply_loop bs"

definition hash_apply :: "'e hash \<Rightarrow> 'e list" where
  "hash_apply h = apply_loop (buckets h)"

definition hash_size :: "'e hash \<Rightarrow> nat" where
  "hash_size h = elem_cnt h"

definition hash_empty :: "'e hash \<Rightarrow> bool" where
  "hash_empty h \<longleftrightarrow> elem_cnt h = 0"

subsection \<open>Iteration\<close>

text \<open>
  The position of an iterator in its bucket: the head of the list, an element, the end of
  the list or, when the table is exhausted, the null pointer.
\<close>

datatype 'e position = Head | Elem 'e | Tail | Null

record 'e hash_iterator =
  it_bucket :: nat
  it_elem :: "'e position"

definition hash_first :: "'e hash \<Rightarrow> 'e hash_iterator" where
  "hash_first h = \<lparr>it_bucket = 0, it_elem = Head\<rparr>"

fun begin_of :: "'e list \<Rightarrow> 'e position" where
  "begin_of [] = Tail"
| "begin_of (x # xs) = Elem x"

fun after_elem :: "'e list \<Rightarrow> 'e \<Rightarrow> 'e position option" where
  "after_elem [] e = None"
| "after_elem (x # xs) e = (if x = e then Some (begin_of xs) else after_elem xs e)"

fun next_in :: "'e list \<Rightarrow> 'e position \<Rightarrow> 'e position option" where
  "next_in b Head = Some (begin_of b)"
| "next_in b (Elem e) = after_elem b e"
| "next_in b Tail = None"
| "next_in b Null = None"

function next_loop :: "'e hash \<Rightarrow> nat \<Rightarrow> 'e position \<Rightarrow> 'e hash_iterator option" where
  "next_loop h b p =
     (if p = Tail then
        if b + 1 \<ge> bucket_cnt h then Some \<lparr>it_bucket = b + 1, it_elem = Null\<rparr>
        else do { bl \<leftarrow> rd (buckets h) (b + 1); next_loop h (b + 1) (begin_of bl) }
      else Some \<lparr>it_bucket = b, it_elem = p\<rparr>)"
  by auto

termination
  by (relation "measure (\<lambda>(h, b, p). bucket_cnt h - b)") auto

definition hash_next :: "'e hash \<Rightarrow> 'e hash_iterator \<Rightarrow> ('e position \<times> 'e hash_iterator) option" where
  "hash_next h i = do {
     b \<leftarrow> rd (buckets h) (it_bucket i);
     p \<leftarrow> next_in b (it_elem i);
     i \<leftarrow> next_loop h (it_bucket i) p;
     Some (it_elem i, i)
   }"

definition hash_cur :: "'e hash_iterator \<Rightarrow> 'e position" where
  "hash_cur i = it_elem i"

text \<open>The loop \<open>hash_first (&i, h); while (hash_next (&i)) use (hash_cur (&i))\<close>.\<close>

partial_function (option) iterate :: "'e hash \<Rightarrow> 'e hash_iterator \<Rightarrow> 'e list option" where
  "iterate h i = do {
     (p, i) \<leftarrow> hash_next h i;
     (case p of
        Elem e \<Rightarrow> do { es \<leftarrow> iterate h i; Some (e # es) }
      | Null \<Rightarrow> Some []
      | _ \<Rightarrow> None)
   }"

declare next_loop.simps [simp del]

section \<open>The number of buckets\<close>

lemma turn_off_even: "0 < m \<Longrightarrow> turn_off_least_1bit (2 * m) = 2 * turn_off_least_1bit m"
proof -
  assume "0 < m"
  then have "(2 * m - 1) div 2 = m - 1" by linarith
  with \<open>0 < m\<close> show ?thesis
    unfolding turn_off_least_1bit_def by (subst and_nat_rec) auto
qed

lemma turn_off_odd: "turn_off_least_1bit (Suc (2 * m)) = 2 * m"
  by (simp add: turn_off_least_1bit_def and_nat_rec [of "Suc (2 * m)"])

lemma turn_off_top:
  assumes "2 ^ k \<le> x" and "x < 2 ^ Suc k"
  shows "turn_off_least_1bit x = 0 \<and> x = 2 ^ k \<or> 2 ^ k \<le> turn_off_least_1bit x \<and> turn_off_least_1bit x < x \<and> x \<noteq> 2 ^ k"
  using assms
proof (induction k arbitrary: x)
  case 0
  then show ?case by (simp add: turn_off_least_1bit_def)
next
  case (Suc k)
  show ?case
  proof (cases "even x")
    case True
    then obtain m where m: "x = 2 * m" by blast
    then have "2 ^ k \<le> m" "m < 2 ^ Suc k" using Suc.prems by auto
    then show ?thesis using Suc.IH [of m] m turn_off_even [of m] by auto
  next
    case False
    then obtain m where m: "x = Suc (2 * m)" by (metis oddE Suc_eq_plus1)
    then have "2 ^ k \<le> m" using Suc.prems by simp
    moreover have "x \<noteq> 2 ^ Suc k" using False by auto
    ultimately show ?thesis using m turn_off_odd [of m] by auto
  qed
qed

lemma top_exp_ex: "0 < x \<Longrightarrow> \<exists>k. 2 ^ k \<le> x \<and> x < 2 ^ Suc k" for x :: nat
  using ex_power_ivl1 [of 2 x] by auto

lemma is_power_of_2_iff: "is_power_of_2 x \<longleftrightarrow> (\<exists>k. x = 2 ^ k)"
proof
  assume "is_power_of_2 x"
  then show "\<exists>k. x = 2 ^ k"
    using top_exp_ex [of x] turn_off_top [of _ x] by (auto simp: is_power_of_2_def)
next
  assume "\<exists>k. x = 2 ^ k"
  then obtain k where "x = 2 ^ k" by blast
  then show "is_power_of_2 x"
    using turn_off_top [of k x] by (auto simp: is_power_of_2_def)
qed

text \<open>The loop ends at the highest bit of its argument.\<close>

lemma shrink_loop_top:
  assumes "2 ^ k \<le> n" and "n < 2 ^ Suc k"
  shows "shrink_loop n = Some (2 ^ k)"
  using assms
proof (induction n rule: less_induct)
  case (less n)
  show ?case
  proof (cases "n = 2 ^ k")
    case True
    then show ?thesis by (subst shrink_loop.simps) (auto simp: is_power_of_2_iff)
  next
    case False
    then have t: "2 ^ k \<le> turn_off_least_1bit n" "turn_off_least_1bit n < n"
      using turn_off_top [OF less.prems] by auto
    moreover have "(0::nat) < 2 ^ k" by simp
    ultimately have "\<not> is_power_of_2 n" unfolding is_power_of_2_def by linarith
    then show ?thesis
      using less.IH [OF t(2,1)] t less.prems(2) by (subst shrink_loop.simps) simp
  qed
qed

lemma shrink_loop_bounds:
  assumes "0 < n"
  shows "\<exists>k. shrink_loop n = Some (2 ^ k) \<and> 2 ^ k \<le> n \<and> n < 2 * 2 ^ k"
  using top_exp_ex [OF assms] shrink_loop_top [of _ n] by auto

lemma find_bucket_mod: "bucket_cnt h = 2 ^ k \<Longrightarrow> find_bucket hf h e = unat (hf e) mod bucket_cnt h"
  by (simp add: find_bucket_def take_bit_eq_mask mask_eq_exp_minus_1 flip: take_bit_eq_mod)

section \<open>Tables as finite maps\<close>

definition elems :: "'e hash \<Rightarrow> 'e list" where
  "elems h = concat (buckets h)"

definition keyed :: "('e \<Rightarrow> 'k) \<Rightarrow> 'e list \<Rightarrow> 'k \<Rightarrow> 'e option" where
  "keyed key xs = map_of (map (\<lambda>e. (key e, e)) xs)"

definition contents :: "('e \<Rightarrow> 'k) \<Rightarrow> 'e hash \<Rightarrow> 'k \<Rightarrow> 'e option" where
  "contents key h = keyed key (elems h)"

definition placed :: "('e \<Rightarrow> u32) \<Rightarrow> 'e hash \<Rightarrow> bool" where
  "placed hf h \<longleftrightarrow> (\<exists>k. bucket_cnt h = 2 ^ k) \<and> length (buckets h) = bucket_cnt h
     \<and> (\<forall>i<bucket_cnt h. \<forall>e\<in>set (buckets h ! i). find_bucket hf h e = i)"

definition hash_ok :: "('e \<Rightarrow> u32) \<Rightarrow> ('e \<Rightarrow> 'k) \<Rightarrow> 'e hash \<Rightarrow> bool" where
  "hash_ok hf key h \<longleftrightarrow> placed hf h \<and> elem_cnt h = length (elems h) \<and> distinct (map key (elems h))"

lemma keyed_Some: "distinct (map key xs) \<Longrightarrow> keyed key xs k = Some e \<longleftrightarrow> e \<in> set xs \<and> key e = k"
  unfolding keyed_def by (subst map_of_eq_Some_iff) (auto simp: comp_def)

lemma keyed_mset:
  assumes "mset xs = mset ys" and "distinct (map key ys)"
  shows "distinct (map key xs)" and "keyed key xs = keyed key ys"
proof -
  have "mset (map key xs) = mset (map key ys)" using assms(1) by simp
  then show d: "distinct (map key xs)" using assms(2) mset_eq_imp_distinct_iff by blast
  show "keyed key xs = keyed key ys"
  proof
    fix k
    show "keyed key xs k = keyed key ys k"
      using keyed_Some [OF d, of k] keyed_Some [OF assms(2), of k] mset_eq_setD [OF assms(1)]
      by (metis option.exhaust)
  qed
qed

lemma keyed_Cons: "keyed key (x # xs) = (keyed key xs)(key x \<mapsto> x)"
  by (auto simp: keyed_def)

lemma distinct_map_remove1:
  "distinct (map key xs) \<Longrightarrow> x \<in> set xs \<Longrightarrow> distinct (map key (remove1 x xs)) \<and> key x \<notin> key ` set (remove1 x xs)"
  by (auto simp: distinct_map inj_on_def distinct_remove1)

lemma keyed_remove1:
  assumes "distinct (map key xs)" and "x \<in> set xs"
  shows "keyed key (remove1 x xs) = (keyed key xs)(key x := None)"
proof -
  have "mset xs = mset (x # remove1 x xs)" using assms(2) by simp
  then have "keyed key xs = keyed key (x # remove1 x xs)"
    using keyed_mset(2) [of xs "x # remove1 x xs" key] distinct_map_remove1 [OF assms] by simp
  moreover have "keyed key (remove1 x xs) (key x) = None"
    using distinct_map_remove1 [OF assms] keyed_Some [of key "remove1 x xs" "key x"]
    by (metis imageI option.exhaust)
  ultimately show ?thesis by (auto simp: keyed_Cons)
qed

lemma find_bucket_cong: "bucket_cnt h' = bucket_cnt h \<Longrightarrow> find_bucket hf h' e = find_bucket hf h e"
  by (simp add: find_bucket_def)

lemma placed_find_bucket: "placed hf h \<Longrightarrow> find_bucket hf h e < bucket_cnt h"
  using find_bucket_mod [of h _ hf e] by (auto simp: placed_def)

lemma placed_bucket: "placed hf h \<Longrightarrow> find_bucket hf h e < length (buckets h)"
  using placed_find_bucket by (simp add: placed_def)

lemma placed_cong:
  assumes "\<And>e. e \<in> set (elems h) \<Longrightarrow> hf' e = hf e"
  shows "placed hf' h = placed hf h"
proof -
  have "find_bucket hf' h e = find_bucket hf h e" if "i < length (buckets h)" "e \<in> set (buckets h ! i)" for i e
  proof -
    have "e \<in> set (elems h)" unfolding elems_def set_concat using UN_I [OF nth_mem [OF that(1)], of e set] that(2) by simp
    from assms [OF this] show ?thesis by (simp add: find_bucket_def)
  qed
  then show ?thesis unfolding placed_def by auto
qed

lemma mset_concat_update:
  "i < length bs \<Longrightarrow> mset (concat (bs[i := x # bs ! i])) = add_mset x (mset (concat bs))"
  by (induction bs arbitrary: i) (auto split: nat.splits)

lemma placed_push:
  assumes "placed hf h" and "h' = h\<lparr>elem_cnt := n, buckets := (buckets h)[find_bucket hf h e := e # buckets h ! find_bucket hf h e]\<rparr>"
  shows "placed hf h'" and "mset (elems h') = add_mset e (mset (elems h))"
  using assms placed_bucket [OF assms(1), of e]
  by (auto simp: placed_def find_bucket_def nth_list_update elems_def mset_concat_update)

lemma move_elems_placed:
  assumes "placed hf h"
  shows "\<exists>h'. move_elems hf es h = Some h' \<and> placed hf h' \<and> mset (elems h') = mset es + mset (elems h)
    \<and> elem_cnt h' = elem_cnt h \<and> bucket_cnt h' = bucket_cnt h"
  using assms
proof (induction es arbitrary: h)
  case (Cons e es)
  define h1 where "h1 = h\<lparr>buckets := (buckets h)[find_bucket hf h e := e # buckets h ! find_bucket hf h e]\<rparr>"
  have "h1 = h\<lparr>elem_cnt := elem_cnt h, buckets := (buckets h)[find_bucket hf h e := e # buckets h ! find_bucket hf h e]\<rparr>"
    by (simp add: h1_def)
  note 1 = placed_push [OF Cons.prems this]
  show ?case
    using Cons.IH [OF 1(1)] 1(2) placed_bucket [OF Cons.prems, of e] by (auto simp: h1_def)
qed auto

lemma move_buckets_placed:
  assumes "placed hf h"
  shows "\<exists>h'. move_buckets hf bs h = Some h' \<and> placed hf h' \<and> mset (elems h') = mset (concat bs) + mset (elems h)
    \<and> elem_cnt h' = elem_cnt h \<and> bucket_cnt h' = bucket_cnt h"
  using assms
proof (induction bs arbitrary: h)
  case (Cons b bs)
  obtain h1 where "move_elems hf b h = Some h1" "placed hf h1" "mset (elems h1) = mset b + mset (elems h)"
      "elem_cnt h1 = elem_cnt h" "bucket_cnt h1 = bucket_cnt h"
    using move_elems_placed [OF Cons.prems] by blast
  then show ?case using Cons.IH [of h1] by auto
qed auto

text \<open>
  \<open>rehash\<close> keeps the elements.  With memory for the new buckets, the number of buckets is the
  largest power of two that is at most half the number of elements, but at least four.
\<close>

lemma rehash_placed:
  assumes "placed hf h"
  shows "\<exists>h'. rehash hf mem h = Some h' \<and> placed hf h' \<and> mset (elems h') = mset (elems h) \<and> elem_cnt h' = elem_cnt h
    \<and> (mem \<longrightarrow> bucket_cnt h' \<le> max 4 (elem_cnt h div 2) \<and> max 4 (elem_cnt h div 2) < 2 * bucket_cnt h')"
proof -
  let ?n = "max 4 (elem_cnt h div 2)"
  obtain k where k: "shrink_loop ?n = Some (2 ^ k)" "2 ^ k \<le> ?n" "?n < 2 * 2 ^ k"
    using shrink_loop_bounds [of ?n, OF less_le_trans [OF _ max.cobounded1]] by auto
  have n: "(if elem_cnt h div 2 < 4 then 4 else elem_cnt h div 2) = ?n" by simp
  let ?h = "h\<lparr>buckets := replicate (2 ^ k) [], bucket_cnt := 2 ^ k\<rparr>"
  have "placed hf ?h" by (auto simp: placed_def)
  then obtain h' where "move_buckets hf (buckets h) ?h = Some h'" "placed hf h'" "mset (elems h') = mset (elems h)"
      "elem_cnt h' = elem_cnt h" "bucket_cnt h' = 2 ^ k"
    using move_buckets_placed [of hf ?h "buckets h"] by (auto simp: elems_def)
  then show ?thesis
    using assms k unfolding rehash_def Let_def n by auto
qed

lemma hash_ok_mset:
  assumes "placed hf h" and "mset (elems h) = mset ys" and "distinct (map key ys)" and "elem_cnt h = length ys"
  shows "hash_ok hf key h" and "contents key h = keyed key ys"
  using assms keyed_mset [OF assms(2,3)] mset_eq_length [OF assms(2)] by (simp_all add: hash_ok_def contents_def)

lemma concat_remove1: "distinct (concat bs) \<Longrightarrow> concat (map (remove1 x) bs) = remove1 x (concat bs)"
proof (induction bs)
  case (Cons b bs)
  then have "x \<in> set b \<Longrightarrow> remove1 x (concat bs) = concat bs"
    by (intro remove1_idem) auto
  with Cons show ?case
    by (cases "x \<in> set b") (auto simp: remove1_append remove1_idem)
qed simp

lemma remove_elem_placed:
  assumes "hash_ok hf key h"
  shows "placed hf (remove_elem h x)" and "elems (remove_elem h x) = remove1 x (elems h)"
proof -
  show "placed hf (remove_elem h x)"
    using assms by (auto simp: hash_ok_def placed_def remove_elem_def find_bucket_def dest: notin_set_remove1 set_remove1_subset [THEN subsetD])
  have "distinct (concat (buckets h))"
    using assms by (auto simp: hash_ok_def elems_def distinct_map)
  then show "elems (remove_elem h x) = remove1 x (elems h)"
    by (simp add: elems_def remove_elem_def concat_remove1)
qed

lemma insert_elem_placed:
  assumes "placed hf h"
  shows "\<exists>h'. insert_elem h (find_bucket hf h e) e = Some h' \<and> placed hf h' \<and> mset (elems h') = add_mset e (mset (elems h))
    \<and> elem_cnt h' = elem_cnt h + 1"
  using placed_push [OF assms refl, where n = "elem_cnt h + 1" and e = e] placed_bucket [OF assms, of e]
  by (auto simp: insert_elem_def)

lemma keyed_None: "keyed key xs k = None \<longleftrightarrow> k \<notin> key ` set xs"
  by (simp add: keyed_def map_of_eq_None_iff image_image)

text \<open>
  What the table needs of its functions: elements that compare as neither smaller nor larger
  are those with the same key, and the hash value depends on the key only.
\<close>

locale hash_keys =
  fixes hf :: "'e \<Rightarrow> u32" and lf :: "'e \<Rightarrow> 'e \<Rightarrow> bool" and key :: "'e \<Rightarrow> 'k"
  assumes same_key: "\<not> lf a b \<and> \<not> lf b a \<longleftrightarrow> key a = key b"
    and hash_key: "key a = key b \<Longrightarrow> hf a = hf b"
begin

lemma find_elem_keyed: "find_elem lf b e = keyed key b (key e)"
  by (induction b) (auto simp: keyed_def same_key)

lemma find_elem_contents:
  assumes "hash_ok hf key h"
  shows "find_elem lf (buckets h ! find_bucket hf h e) e = contents key h (key e)"
proof -
  let ?i = "find_bucket hf h e"
  have i: "?i < length (buckets h)" and d: "distinct (map key (elems h))"
    using assms placed_bucket by (auto simp: hash_ok_def)
  have "buckets h = take ?i (buckets h) @ (buckets h ! ?i) # drop (Suc ?i) (buckets h)"
    using i by (simp add: id_take_nth_drop)
  then have "distinct (map key (buckets h ! ?i))"
    using d unfolding elems_def by (metis concat.simps(2) concat_append distinct_append map_append)
  moreover have "x \<in> set (buckets h ! ?i) \<and> key x = key e \<longleftrightarrow> x \<in> set (elems h) \<and> key x = key e" for x
  proof
    assume "x \<in> set (elems h) \<and> key x = key e"
    then obtain b where "b \<in> set (buckets h)" "x \<in> set b" and k: "key x = key e"
      by (auto simp: elems_def)
    then obtain j where "j < length (buckets h)" "x \<in> set (buckets h ! j)"
      by (metis in_set_conv_nth)
    then have "find_bucket hf h x = j" using assms by (auto simp: hash_ok_def placed_def)
    moreover have "find_bucket hf h x = ?i" using hash_key [OF k] by (simp add: find_bucket_def)
    ultimately show "x \<in> set (buckets h ! ?i) \<and> key x = key e" using \<open>x \<in> set (buckets h ! j)\<close> k by simp
  qed (use i in \<open>auto simp: elems_def\<close>)
  ultimately have "keyed key (buckets h ! ?i) (key e) = Some x \<longleftrightarrow> keyed key (elems h) (key e) = Some x" for x
    using keyed_Some [of key "buckets h ! ?i" "key e" x] keyed_Some [OF d, of "key e" x] by simp
  then show ?thesis
    unfolding find_elem_keyed contents_def by (metis option.exhaust)
qed

lemma hash_find_ok: "hash_ok hf key h \<Longrightarrow> hash_find hf lf h e = Some (contents key h (key e))"
  using placed_bucket [of hf h e] by (simp add: hash_find_def find_elem_contents hash_ok_def)

lemma old_elem: "hash_ok hf key h \<Longrightarrow> contents key h k = Some x \<longleftrightarrow> x \<in> set (elems h) \<and> key x = k"
  by (simp add: contents_def hash_ok_def keyed_Some)

lemma no_old_elem: "contents key h k = None \<longleftrightarrow> k \<notin> key ` set (elems h)"
  by (simp add: contents_def keyed_None)

lemma rehash_ok:
  assumes "placed hf h" and "mset (elems h) = mset ys" and "distinct (map key ys)" and "elem_cnt h = length ys"
  shows "\<exists>h'. rehash hf mem h = Some h' \<and> hash_ok hf key h' \<and> contents key h' = keyed key ys \<and> hash_size h' = length ys"
proof -
  obtain h' where h': "rehash hf mem h = Some h'" "placed hf h'" "mset (elems h') = mset (elems h)" "elem_cnt h' = elem_cnt h"
    using rehash_placed [OF assms(1)] by blast
  then show ?thesis
    using hash_ok_mset [OF h'(2) _ assms(3)] assms(2,4) by (simp add: hash_size_def)
qed

lemma hash_insert_ok:
  assumes "hash_ok hf key h"
  shows "\<exists>h'. hash_insert hf lf mem h e = Some (contents key h (key e), h') \<and> hash_ok hf key h'
    \<and> contents key h' = (if contents key h (key e) = None then (contents key h)(key e \<mapsto> e) else contents key h)"
proof -
  have p: "placed hf h" and ok: "distinct (map key (elems h))" "elem_cnt h = length (elems h)"
    using assms by (auto simp: hash_ok_def)
  note unfold = hash_insert_def Let_def find_elem_contents [OF assms] rd_in [OF placed_bucket [OF p]]
  show ?thesis
  proof (cases "contents key h (key e)")
    case None
    obtain h1 where h1: "insert_elem h (find_bucket hf h e) e = Some h1" "placed hf h1"
        "mset (elems h1) = mset (e # elems h)" "elem_cnt h1 = length (e # elems h)"
      using insert_elem_placed [OF p] ok by auto
    have "distinct (map key (e # elems h))" using ok None no_old_elem [of h "key e"] by simp
    from rehash_ok [OF h1(2,3) this h1(4), of mem] show ?thesis
      using None h1(1) by (auto simp: unfold keyed_Cons contents_def)
  next
    case (Some x)
    from rehash_ok [OF p refl ok, of mem] Some show ?thesis by (auto simp: unfold contents_def)
  qed
qed

lemma hash_delete_ok:
  assumes "hash_ok hf key h"
  shows "\<exists>h'. hash_delete hf lf mem h e = Some (contents key h (key e), h') \<and> hash_ok hf key h'
    \<and> contents key h' = (contents key h)(key e := None)"
proof -
  have p: "placed hf h" and ok: "distinct (map key (elems h))" "elem_cnt h = length (elems h)"
    using assms by (auto simp: hash_ok_def)
  note unfold = hash_delete_def Let_def find_elem_contents [OF assms] rd_in [OF placed_bucket [OF p]]
  show ?thesis
  proof (cases "contents key h (key e)")
    case None
    then show ?thesis using assms by (auto simp: unfold)
  next
    case (Some x)
    then have x: "x \<in> set (elems h)" "key x = key e" using old_elem [OF assms] by auto
    note r = remove_elem_placed [OF assms, of x]
    have "elem_cnt (remove_elem h x) = length (remove1 x (elems h))"
      using ok(2) x(1) by (simp add: remove_elem_def length_remove1)
    from rehash_ok [OF r(1) _ _ this, of mem] show ?thesis
      using Some r(2) distinct_map_remove1 [OF ok(1) x(1)] keyed_remove1 [OF ok(1) x(1)] x(2)
      by (auto simp: unfold contents_def)
  qed
qed

text \<open>The new element may be the old one, whose other fields have changed.\<close>

lemma hash_replace_ok:
  assumes "hash_ok hf key h"
  shows "\<exists>h'. hash_replace hf lf mem h e = Some (contents key h (key e), h') \<and> hash_ok hf key h'
    \<and> contents key h' = (contents key h)(key e \<mapsto> e)"
proof -
  have p: "placed hf h" and ok: "distinct (map key (elems h))" "elem_cnt h = length (elems h)"
    using assms by (auto simp: hash_ok_def)
  note unfold = hash_replace_def Let_def find_elem_contents [OF assms] rd_in [OF placed_bucket [OF p]]
  define h0 where "h0 = (case contents key h (key e) of None \<Rightarrow> h | Some x \<Rightarrow> remove_elem h x)"
  have h0: "placed hf h0 \<and> distinct (map key (elems h0)) \<and> key e \<notin> key ` set (elems h0) \<and> elem_cnt h0 = length (elems h0)
      \<and> keyed key (elems h0) = (contents key h)(key e := None) \<and> bucket_cnt h0 = bucket_cnt h"
  proof (cases "contents key h (key e)")
    case None
    then show ?thesis using p ok no_old_elem [of h "key e"] by (auto simp: h0_def contents_def)
  next
    case (Some x)
    then have x: "x \<in> set (elems h)" "key x = key e" using old_elem [OF assms] by auto
    then show ?thesis
      using Some ok remove_elem_placed [OF assms, of x] distinct_map_remove1 [OF ok(1) x(1)] keyed_remove1 [OF ok(1) x(1)]
      by (auto simp: h0_def contents_def length_remove1 remove_elem_def)
  qed
  then obtain h1 where h1: "insert_elem h0 (find_bucket hf h0 e) e = Some h1" "placed hf h1"
      "mset (elems h1) = mset (e # elems h0)" "elem_cnt h1 = length (e # elems h0)"
    using insert_elem_placed [of hf h0 e] by auto
  have "distinct (map key (e # elems h0))" using h0 by simp
  from rehash_ok [OF h1(2,3) this h1(4), of mem] show ?thesis
    using h0 h1(1) find_bucket_cong [of h0 h hf e] by (auto simp: unfold keyed_Cons simp flip: h0_def)
qed

end

section \<open>Iteration\<close>

text \<open>\<open>rest_from h i ys\<close>: what is left when the part \<open>ys\<close> of bucket \<open>i\<close> is left.\<close>

definition rest_from :: "'e hash \<Rightarrow> nat \<Rightarrow> 'e list \<Rightarrow> 'e list" where
  "rest_from h i ys = ys @ concat (drop (Suc i) (buckets h))"

lemma next_loop_rest:
  assumes "length (buckets h) = bucket_cnt h" and "i < bucket_cnt h" and "buckets h ! i = us @ ys"
  shows "(rest_from h i ys = [] \<and> (\<exists>n. next_loop h i (begin_of ys) = Some \<lparr>it_bucket = n, it_elem = Null\<rparr>))
    \<or> (\<exists>j vs z zs. next_loop h i (begin_of ys) = Some \<lparr>it_bucket = j, it_elem = Elem z\<rparr> \<and> j < bucket_cnt h
        \<and> buckets h ! j = vs @ z # zs \<and> rest_from h i ys = z # rest_from h j zs)"
  using assms(2,3)
proof (induction "bucket_cnt h - i" arbitrary: i us ys rule: less_induct)
  case less
  show ?case
  proof (cases ys)
    case (Cons z zs)
    then show ?thesis using less.prems by (auto simp: next_loop.simps [of h i] rest_from_def)
  next
    case Nil
    show ?thesis
    proof (cases "i + 1 < bucket_cnt h")
      case True
      then have "rest_from h i ys = rest_from h (i + 1) (buckets h ! (i + 1))"
        using Nil assms(1) by (simp add: rest_from_def Cons_nth_drop_Suc [symmetric])
      then show ?thesis
        using less.hyps [of "i + 1" "[]"] True Nil assms(1) by (simp add: next_loop.simps [of h i])
    next
      case False
      then show ?thesis using Nil assms(1) by (simp add: next_loop.simps [of h i] rest_from_def)
    qed
  qed
qed

lemma after_elem_split: "distinct (us @ z # zs) \<Longrightarrow> after_elem (us @ z # zs) z = Some (begin_of zs)"
  by (induction us) auto

lemma iterate_step:
  assumes "length (buckets h) = bucket_cnt h" and "\<forall>b\<in>set (buckets h). distinct b"
    and "it_bucket it < bucket_cnt h" and "buckets h ! it_bucket it = us @ ys" and "next_in (us @ ys) (it_elem it) = Some (begin_of ys)"
  shows "iterate h it = Some (rest_from h (it_bucket it) ys)"
  using assms(3-)
proof (induction "length (rest_from h (it_bucket it) ys)" arbitrary: it us ys rule: less_induct)
  case less
  let ?i = "it_bucket it"
  have nxt: "hash_next h it = do { i \<leftarrow> next_loop h ?i (begin_of ys); Some (it_elem i, i) }"
    using less.prems assms(1) by (simp add: hash_next_def)
  consider n where "rest_from h ?i ys = []" "next_loop h ?i (begin_of ys) = Some \<lparr>it_bucket = n, it_elem = Null\<rparr>"
    | j vs z zs where "next_loop h ?i (begin_of ys) = Some \<lparr>it_bucket = j, it_elem = Elem z\<rparr>" "j < bucket_cnt h"
        "buckets h ! j = vs @ z # zs" "rest_from h ?i ys = z # rest_from h j zs"
    using next_loop_rest [OF assms(1) less.prems(1,2)] by blast
  then show ?case
  proof cases
    case 1
    then show ?thesis using nxt by (subst iterate.simps) simp
  next
    case 2
    have "distinct (vs @ z # zs)" using assms(1,2) 2(2,3) by (metis nth_mem)
    then have "iterate h \<lparr>it_bucket = j, it_elem = Elem z\<rparr> = Some (rest_from h j zs)"
      using less.hyps [of "\<lparr>it_bucket = j, it_elem = Elem z\<rparr>" zs "vs @ [z]"] 2 after_elem_split [of vs z zs] by simp
    then show ?thesis using 2 nxt by (subst iterate.simps) simp
  qed
qed

text \<open>The iterator yields every element once, bucket after bucket.\<close>

lemma iterate_elems:
  assumes "hash_ok hf key h"
  shows "iterate h (hash_first h) = Some (elems h)"
proof -
  have l: "length (buckets h) = bucket_cnt h" and pos: "0 < bucket_cnt h" and d: "distinct (concat (buckets h))"
    using assms by (auto simp: hash_ok_def placed_def elems_def distinct_map)
  then have "\<forall>b\<in>set (buckets h). distinct b" by (auto simp: distinct_concat_iff)
  moreover have "rest_from h 0 (buckets h ! 0) = elems h"
    using l pos by (cases "buckets h") (simp_all add: rest_from_def elems_def)
  ultimately show ?thesis
    using iterate_step [OF l _ , of "hash_first h" "[]" "buckets h ! 0"] pos by (simp add: hash_first_def)
qed

lemma hash_apply_elems: "hash_apply h = elems h"
proof -
  have "apply_loop bs = concat bs" for bs :: "'a list list" by (induction bs) auto
  then show ?thesis by (simp add: hash_apply_def elems_def)
qed

lemma clear_loop_concat: "clear_loop d bs = (if d then concat bs else [], replicate (length bs) [])"
  by (induction bs) auto

lemma hash_clear_ok:
  assumes "hash_ok hf key h"
  shows "fst (hash_clear True h) = elems h" and "hash_ok hf key (snd (hash_clear d h))"
    and "contents key (snd (hash_clear d h)) = (\<lambda>_. None)"
  using assms by (auto simp: hash_clear_def clear_loop_concat hash_ok_def placed_def elems_def contents_def keyed_def find_bucket_def)

lemma hash_init_ok:
  "snd (hash_init junk mem) = mem"
  "mem \<Longrightarrow> hash_ok hf key (fst (hash_init junk mem)) \<and> contents key (fst (hash_init junk mem)) = (\<lambda>_. None)"
  by (auto simp: hash_init_def Let_def hash_clear_def clear_loop_concat hash_ok_def placed_def elems_def contents_def keyed_def
      intro: exI [of _ 2])

lemma hash_size_card:
  assumes "hash_ok hf key h"
  shows "hash_size h = card (dom (contents key h))"
proof -
  have "dom (contents key h) = key ` set (elems h)"
    by (auto simp: contents_def keyed_def dom_map_of_conv_image_fst image_image)
  moreover have "distinct (map key (elems h))" using assms by (simp add: hash_ok_def)
  then have "card (key ` set (elems h)) = length (elems h)"
    by (metis distinct_card length_map set_map)
  ultimately show ?thesis using assms by (simp add: hash_ok_def hash_size_def)
qed

section \<open>Properties\<close>

text \<open>
  C22: \<open>rehash\<close> ends and loses nothing.  On any table whose elements are in their buckets it
  returns, with the same elements in the buckets of the new table; when memory for the new
  buckets can be had, their number is a power of two between \<open>n / 2\<close> and \<open>n\<close>, where \<open>n\<close> is
  half the number of elements but at least 4.
\<close>

theorem rehash_correct:
  assumes "placed hf h"
  shows "\<exists>h'. rehash hf mem h = Some h' \<and> placed hf h' \<and> mset (elems h') = mset (elems h) \<and> hash_size h' = hash_size h
    \<and> (mem \<longrightarrow> is_power_of_2 (bucket_cnt h') \<and> bucket_cnt h' \<le> max 4 (elem_cnt h div 2)
         \<and> max 4 (elem_cnt h div 2) < 2 * bucket_cnt h')"
proof -
  obtain h' where "rehash hf mem h = Some h'" "placed hf h'" "mset (elems h') = mset (elems h)" "elem_cnt h' = elem_cnt h"
      "mem \<longrightarrow> bucket_cnt h' \<le> max 4 (elem_cnt h div 2) \<and> max 4 (elem_cnt h div 2) < 2 * bucket_cnt h'"
    using rehash_placed [OF assms] by blast
  then show ?thesis by (intro exI [of _ h']) (simp add: hash_size_def is_power_of_2_iff placed_def)
qed

definition example_hash :: "u32 hash" where
  "example_hash = \<lparr>elem_cnt = 3, bucket_cnt = 4, buckets = [[8, 4], [5], [], []]\<rparr>"

lemma less_four: "(i :: nat) < 4 \<longleftrightarrow> i = 0 \<or> i = 1 \<or> i = 2 \<or> i = 3"
  by auto

lemma example_hash_ok: "hash_ok (\<lambda>e. e) id example_hash"
  by (auto simp: example_hash_def hash_ok_def placed_def elems_def find_bucket_def less_four intro!: exI [of _ 2])

theorem rehash_correct_witness:
  "\<exists>h'. rehash (\<lambda>e. e) True example_hash = Some h' \<and> bucket_cnt h' = 4 \<and> mset (elems h') = {#4, 5, 8#}"
proof -
  have "placed (\<lambda>e. e) example_hash" using example_hash_ok by (simp add: hash_ok_def)
  from rehash_correct [OF this, of True] obtain h' where h': "rehash (\<lambda>e. e) True example_hash = Some h'"
      "mset (elems h') = mset (elems example_hash)" "bucket_cnt h' \<le> 4" "4 < 2 * bucket_cnt h'" "is_power_of_2 (bucket_cnt h')"
    by (auto simp: example_hash_def)
  then have "bucket_cnt h' = 3 \<or> bucket_cnt h' = 4" by linarith
  moreover have "bucket_cnt h' \<noteq> 3"
  proof
    assume "bucket_cnt h' = 3"
    with h'(5) show False by (simp add: is_power_of_2_def turn_off_least_1bit_def)
  qed
  ultimately show ?thesis using h'(1,2) by (intro exI [of _ h']) (auto simp: example_hash_def elems_def)
qed

text \<open>
  C23: iteration with \<open>hash_first\<close> and \<open>hash_next\<close> ends and yields every element of the table
  exactly once, in the order in which \<open>hash_apply\<close> visits them.
\<close>

theorem hash_iteration:
  assumes "hash_ok hf key h"
  shows "\<exists>es. iterate h (hash_first h) = Some es \<and> es = hash_apply h \<and> distinct es \<and> length es = hash_size h
    \<and> (\<forall>k e. contents key h k = Some e \<longleftrightarrow> e \<in> set es \<and> key e = k)"
  using iterate_elems [OF assms] assms keyed_Some [of key "elems h"]
  by (auto simp: hash_apply_elems hash_ok_def distinct_map hash_size_def contents_def)

theorem hash_iteration_witness:
  "iterate example_hash (hash_first example_hash) = Some [8, 4, 5]"
  using hash_iteration [OF example_hash_ok] by (auto simp: hash_apply_elems elems_def example_hash_def)

end
