(* ===== verification/Slots.thy ===== *)
theory Slots
  imports Prelude
begin

text \<open>
  The contract of the kernel's slot allocators.  The page allocator (threads/palloc.c),
  the swap area (vm/swap.c) and the free map of the file system (filesys/free-map.c) all
  hand out runs of consecutive slots that a bitmap tracks: \<open>True\<close> is a slot in use.
  \<open>run_allocator\<close> states what they rely on; lib/kernel/bitmap.c provides it (theory
  Bitmap).  \<open>tiles\<close> is the clients' view: a list of the runs handed out, disjoint, that
  together are exactly the slots in use.
\<close>

section \<open>Runs of slots\<close>

definition fill :: "'a list \<Rightarrow> nat \<Rightarrow> nat \<Rightarrow> 'a \<Rightarrow> 'a list" where
  "fill xs i n v = map (\<lambda>k. if i \<le> k \<and> k < i + n then v else xs ! k) [0..<length xs]"

definition run_at :: "'a list \<Rightarrow> nat \<Rightarrow> nat \<Rightarrow> 'a \<Rightarrow> bool" where
  "run_at xs i n v \<longleftrightarrow> i + n \<le> length xs \<and> (\<forall>k < n. xs ! (i + k) = v)"

definition span :: "nat \<times> nat \<Rightarrow> nat set" where
  "span r = {fst r ..< fst r + snd r}"

definition tiles :: "nat set \<Rightarrow> (nat \<times> nat) list \<Rightarrow> bool" where
  "tiles U rs \<longleftrightarrow> U = \<Union> (span ` set rs) \<and> sorted_wrt (\<lambda>r r'. span r \<inter> span r' = {}) rs"

definition marked :: "bool list \<Rightarrow> nat set" where
  "marked xs = {k. k < length xs \<and> xs ! k}"

lemma length_fill [simp]: "length (fill xs i n v) = length xs"
  by (simp add: fill_def)

lemma nth_fill [simp]:
  "k < length xs \<Longrightarrow> fill xs i n v ! k = (if i \<le> k \<and> k < i + n then v else xs ! k)"
  by (simp add: fill_def)

lemma fill_0 [simp]: "fill xs i 0 v = xs"
  by (rule nth_equalityI) auto

lemma fill_Suc: "fill xs i (Suc n) v = fill (xs[i := v]) (Suc i) n v"
  by (rule nth_equalityI) (auto simp: nth_list_update)

lemma fill_all: "length xs \<le> n \<Longrightarrow> fill xs 0 n v = replicate (length xs) v"
  by (rule nth_equalityI) auto

lemma run_at_nth: "run_at xs i n v \<Longrightarrow> i \<le> k \<Longrightarrow> k < i + n \<Longrightarrow> xs ! k = v"
  by (auto simp: run_at_def le_iff_add)

lemma fill_undo: "run_at xs i n v \<Longrightarrow> fill (fill xs i n w) i n v = xs"
  by (rule nth_equalityI) (auto simp: run_at_nth)

lemma run_at_fill: "i + n \<le> length xs \<Longrightarrow> run_at (fill xs i n v) i n v"
  by (simp add: run_at_def)

lemma run_at_0 [simp]: "run_at xs i 0 v \<longleftrightarrow> i \<le> length xs"
  by (simp add: run_at_def)

lemma run_at_span: "run_at xs i n v \<longleftrightarrow> i + n \<le> length xs \<and> (\<forall>k \<in> span (i, n). xs ! k = v)"
  by (auto simp: run_at_def span_def le_iff_add)

lemma marked_fill_True: "i + n \<le> length xs \<Longrightarrow> marked (fill xs i n True) = marked xs \<union> span (i, n)"
  by (auto simp: marked_def span_def)

lemma marked_fill_False: "marked (fill xs i n False) = marked xs - span (i, n)"
  by (auto simp: marked_def span_def split: if_splits)

lemma run_at_free: "run_at xs i n False \<Longrightarrow> marked xs \<inter> span (i, n) = {}"
  by (auto simp: marked_def run_at_span)

lemma run_at_used: "i + n \<le> length xs \<Longrightarrow> run_at xs i n True \<longleftrightarrow> span (i, n) \<subseteq> marked xs"
  by (auto simp: marked_def run_at_span span_def)

lemma tiles_Nil [simp]: "tiles U [] \<longleftrightarrow> U = {}"
  by (simp add: tiles_def)

lemma tiles_add: "tiles U rs \<Longrightarrow> U \<inter> span r = {} \<Longrightarrow> tiles (U \<union> span r) (r # rs)"
  by (auto simp: tiles_def)

lemma tiles_member: "tiles U rs \<Longrightarrow> r \<in> set rs \<Longrightarrow> span r \<subseteq> U"
  by (auto simp: tiles_def)

lemma tiles_remove:
  assumes "tiles U rs" and "r \<in> set rs"
  shows "tiles (U - span r) (remove1 r rs)"
proof -
  let ?D = "\<lambda>r r'. span r \<inter> span r' = {}"
  obtain as bs where rs: "rs = as @ r # bs" "r \<notin> set as"
    using split_list_first [OF assms(2)] by blast
  have d: "sorted_wrt ?D (as @ r # bs)" and U: "U = \<Union> (span ` set rs)"
    using assms(1) rs by (auto simp: tiles_def)
  have "U - span r = \<Union> (span ` set (as @ bs))"
    using d unfolding U rs(1) by (fastforce simp: sorted_wrt_append)
  then show ?thesis
    using d rs by (auto simp: tiles_def sorted_wrt_append remove1_append)
qed

lemma tiles_disjoint:
  assumes "tiles U (r # rs)" and "r' \<in> set rs"
  shows "span r \<inter> span r' = {}"
  using assms by (auto simp: tiles_def)

lemma tiles_card:
  assumes "tiles U rs"
  shows "card U = sum_list (map snd rs)"
proof -
  have "card (\<Union> (span ` set rs)) = sum_list (map snd rs)"
    using conjunct2 [OF assms [unfolded tiles_def]]
  proof (induction rs)
    case (Cons r rs)
    then have "span r \<inter> \<Union> (span ` set rs) = {}" by auto
    then have "card (span r \<union> \<Union> (span ` set rs)) = card (span r) + card (\<Union> (span ` set rs))"
      by (intro card_Un_disjoint) (auto simp: span_def)
    with Cons show ?case by (simp add: span_def)
  qed simp
  then show ?thesis
    using assms by (simp add: tiles_def)
qed

section \<open>The allocator contract\<close>

text \<open>
  \<open>rep s xs\<close>: state \<open>s\<close> stands for the slots \<open>xs\<close>.  Allocation is first fit, fails with
  \<open>err\<close> and leaves the state alone when there is no free run that is long enough, and
  \<open>err\<close> is never the index of a slot.
\<close>

locale run_allocator =
  fixes rep :: "'s \<Rightarrow> bool list \<Rightarrow> bool"
    and alloc :: "'s \<Rightarrow> nat \<Rightarrow> (nat \<times> 's) option"
    and release :: "'s \<Rightarrow> nat \<Rightarrow> nat \<Rightarrow> 's option"
    and err :: nat
  assumes alloc_first_fit:
      "rep s xs \<Longrightarrow> run_at xs i n False \<Longrightarrow> \<forall>j < i. \<not> run_at xs j n False
        \<Longrightarrow> \<exists>s'. alloc s n = Some (i, s') \<and> rep s' (fill xs i n True)"
    and alloc_full: "rep s xs \<Longrightarrow> \<forall>i. \<not> run_at xs i n False \<Longrightarrow> alloc s n = Some (err, s)"
    and release_run:
      "rep s xs \<Longrightarrow> i + n \<le> length xs
        \<Longrightarrow> \<exists>s'. release s i n = Some s' \<and> rep s' (fill xs i n False)"
    and err_outside: "rep s xs \<Longrightarrow> length xs < err"
begin

lemma alloc_total:
  assumes "rep s xs"
  obtains (full) "alloc s n = Some (err, s)" "\<forall>i. \<not> run_at xs i n False"
  | (run) i s' where "alloc s n = Some (i, s')" "i \<noteq> err" "run_at xs i n False"
      "\<forall>j < i. \<not> run_at xs j n False" "rep s' (fill xs i n True)"
proof (cases "\<exists>i. run_at xs i n False")
  case False
  then show ?thesis using alloc_full [OF assms] full by blast
next
  case True
  define i where "i = (LEAST i. run_at xs i n False)"
  have i: "run_at xs i n False" "\<forall>j < i. \<not> run_at xs j n False"
    using True by (auto simp: i_def intro: LeastI_ex dest: not_less_Least)
  moreover have "i \<noteq> err"
    using i(1) err_outside [OF assms] by (auto simp: run_at_def)
  ultimately show ?thesis
    using alloc_first_fit [OF assms i] run by blast
qed

lemma alloc_sound:
  assumes "rep s xs" and "alloc s n = Some (i, s')" and "i \<noteq> err"
  shows "run_at xs i n False" and "rep s' (fill xs i n True)"
  using alloc_total [OF assms(1), of n] assms(2,3) by (metis option.inject prod.inject)+

lemma alloc_fails_iff:
  assumes "rep s xs" and "alloc s n = Some (i, s')"
  shows "i = err \<longleftrightarrow> (\<forall>j. \<not> run_at xs j n False)"
  using alloc_total [OF assms(1), of n] assms(2) by (metis option.inject prod.inject)

lemma alloc_then_release:
  assumes "rep s xs" and "alloc s n = Some (i, s')" and "i \<noteq> err"
  shows "\<exists>s''. release s' i n = Some s'' \<and> rep s'' xs"
proof -
  note sound = alloc_sound [OF assms]
  then show ?thesis
    using release_run [OF sound(2), of i n] by (auto simp: run_at_def fill_undo)
qed

lemma alloc_tiles:
  assumes "rep s xs" and "alloc s n = Some (i, s')" and "i \<noteq> err" and "tiles (marked xs) rs"
  shows "\<exists>ys. rep s' ys \<and> length ys = length xs \<and> tiles (marked ys) ((i, n) # rs)"
proof -
  note sound = alloc_sound [OF assms(1-3)]
  have "tiles (marked (fill xs i n True)) ((i, n) # rs)"
    using tiles_add [OF assms(4) run_at_free [OF sound(1)]] sound(1)
    by (simp add: marked_fill_True run_at_def)
  with sound(2) show ?thesis by (metis length_fill)
qed

lemma release_tiles:
  assumes "rep s xs" and "tiles (marked xs) rs" and "(i, n) \<in> set rs" and "i + n \<le> length xs"
  shows "\<exists>s' ys. release s i n = Some s' \<and> rep s' ys \<and> length ys = length xs
    \<and> tiles (marked ys) (remove1 (i, n) rs)"
  using release_run [OF assms(1,4)] tiles_remove [OF assms(2,3)]
  by (metis length_fill marked_fill_False)

end

end
