(* ===== verification/Bitmap.thy ===== *)
theory Bitmap
  imports Slots
begin

text \<open>
  lib/kernel/bitmap.c: an array of bits packed into 32-bit elements
  (\<open>elem_type\<close> is \<open>unsigned long\<close>, 32 bits on the target).  \<open>bits\<close> is the memory the
  pointer of the same name owns.  \<open>bitmap_mark\<close>, \<open>bitmap_reset\<close> and \<open>bitmap_flip\<close> do
  not check the index, so they fail in the model only when the element lies outside that
  memory; a bit index is a \<open>size_t\<close>, and the sums \<open>start + cnt\<close> and \<open>start + i\<close> wrap.
  A memory request is an argument: \<open>None\<close> is the null pointer, \<open>Some m\<close> uninitialised
  memory with the contents \<open>m\<close>.
\<close>

section \<open>Data and operations\<close>

record bitmap =
  bit_cnt :: nat
  bits :: "u32 list"

definition BITMAP_ERROR :: nat where
  "BITMAP_ERROR = SIZE_MAX"

definition elem_idx :: "nat \<Rightarrow> nat" where
  "elem_idx bit_idx = bit_idx div 32"

definition bit_mask :: "nat \<Rightarrow> u32" where
  "bit_mask bit_idx = push_bit (bit_idx mod 32) 1"

definition elem_cnt :: "nat \<Rightarrow> nat" where
  "elem_cnt n = wrap32 (n + 32 - 1) div 32"

definition byte_cnt :: "nat \<Rightarrow> nat" where
  "byte_cnt n = wrap32 (4 * elem_cnt n)"

definition last_mask :: "bitmap \<Rightarrow> u32" where
  "last_mask b =
     (let last_bits = bit_cnt b mod 32
      in if last_bits \<noteq> 0 then push_bit last_bits 1 - 1 else - 1)"

definition bitmap_mark :: "bitmap \<Rightarrow> nat \<Rightarrow> bitmap option" where
  "bitmap_mark b bit_idx =
     (let idx = elem_idx bit_idx; mask = bit_mask bit_idx
      in do { e \<leftarrow> rd (bits b) idx; bs \<leftarrow> wr (bits b) idx (e OR mask); Some (b\<lparr>bits := bs\<rparr>) })"

definition bitmap_reset :: "bitmap \<Rightarrow> nat \<Rightarrow> bitmap option" where
  "bitmap_reset b bit_idx =
     (let idx = elem_idx bit_idx; mask = bit_mask bit_idx
      in do { e \<leftarrow> rd (bits b) idx; bs \<leftarrow> wr (bits b) idx (e AND NOT mask); Some (b\<lparr>bits := bs\<rparr>) })"

definition bitmap_flip :: "bitmap \<Rightarrow> nat \<Rightarrow> bitmap option" where
  "bitmap_flip b bit_idx =
     (let idx = elem_idx bit_idx; mask = bit_mask bit_idx
      in do { e \<leftarrow> rd (bits b) idx; bs \<leftarrow> wr (bits b) idx (e XOR mask); Some (b\<lparr>bits := bs\<rparr>) })"

definition bitmap_set :: "bitmap \<Rightarrow> nat \<Rightarrow> bool \<Rightarrow> bitmap option" where
  "bitmap_set b idx value = do {
     ASSERT (idx < bit_cnt b);
     if value then bitmap_mark b idx else bitmap_reset b idx
   }"

definition bitmap_test :: "bitmap \<Rightarrow> nat \<Rightarrow> bool option" where
  "bitmap_test b idx = do {
     ASSERT (idx < bit_cnt b);
     e \<leftarrow> rd (bits b) (elem_idx idx);
     Some (e AND bit_mask idx \<noteq> 0)
   }"

definition bitmap_size :: "bitmap \<Rightarrow> nat" where
  "bitmap_size b = bit_cnt b"

text \<open>The loops run \<open>i\<close> upwards; their last argument is the number of rounds left.\<close>

fun set_loop :: "bitmap \<Rightarrow> nat \<Rightarrow> nat \<Rightarrow> bool \<Rightarrow> nat \<Rightarrow> bitmap option" where
  "set_loop b start i value 0 = Some b"
| "set_loop b start i value (Suc n) = do {
     b' \<leftarrow> bitmap_set b (wrap32 (start + i)) value;
     set_loop b' start (Suc i) value n
   }"

definition bitmap_set_multiple :: "bitmap \<Rightarrow> nat \<Rightarrow> nat \<Rightarrow> bool \<Rightarrow> bitmap option" where
  "bitmap_set_multiple b start cnt value = do {
     ASSERT (start \<le> bit_cnt b);
     ASSERT (wrap32 (start + cnt) \<le> bit_cnt b);
     set_loop b start 0 value cnt
   }"

definition bitmap_set_all :: "bitmap \<Rightarrow> bool \<Rightarrow> bitmap option" where
  "bitmap_set_all b value = bitmap_set_multiple b 0 (bitmap_size b) value"

fun count_loop :: "bitmap \<Rightarrow> nat \<Rightarrow> nat \<Rightarrow> bool \<Rightarrow> nat \<Rightarrow> nat \<Rightarrow> nat option" where
  "count_loop b start i value value_cnt 0 = Some value_cnt"
| "count_loop b start i value value_cnt (Suc n) = do {
     t \<leftarrow> bitmap_test b (wrap32 (start + i));
     count_loop b start (Suc i) value (if t = value then Suc value_cnt else value_cnt) n
   }"

definition bitmap_count :: "bitmap \<Rightarrow> nat \<Rightarrow> nat \<Rightarrow> bool \<Rightarrow> nat option" where
  "bitmap_count b start cnt value = do {
     ASSERT (start \<le> bit_cnt b);
     ASSERT (wrap32 (start + cnt) \<le> bit_cnt b);
     count_loop b start 0 value 0 cnt
   }"

fun contains_loop :: "bitmap \<Rightarrow> nat \<Rightarrow> nat \<Rightarrow> bool \<Rightarrow> nat \<Rightarrow> bool option" where
  "contains_loop b start i value 0 = Some False"
| "contains_loop b start i value (Suc n) = do {
     t \<leftarrow> bitmap_test b (wrap32 (start + i));
     if t = value then Some True else contains_loop b start (Suc i) value n
   }"

definition bitmap_contains :: "bitmap \<Rightarrow> nat \<Rightarrow> nat \<Rightarrow> bool \<Rightarrow> bool option" where
  "bitmap_contains b start cnt value = do {
     ASSERT (start \<le> bit_cnt b);
     ASSERT (wrap32 (start + cnt) \<le> bit_cnt b);
     contains_loop b start 0 value cnt
   }"

definition bitmap_any :: "bitmap \<Rightarrow> nat \<Rightarrow> nat \<Rightarrow> bool option" where
  "bitmap_any b start cnt = bitmap_contains b start cnt True"

definition bitmap_none :: "bitmap \<Rightarrow> nat \<Rightarrow> nat \<Rightarrow> bool option" where
  "bitmap_none b start cnt = map_option Not (bitmap_contains b start cnt True)"

definition bitmap_all :: "bitmap \<Rightarrow> nat \<Rightarrow> nat \<Rightarrow> bool option" where
  "bitmap_all b start cnt = map_option Not (bitmap_contains b start cnt False)"

function scan_loop :: "bitmap \<Rightarrow> nat \<Rightarrow> nat \<Rightarrow> nat \<Rightarrow> bool \<Rightarrow> nat option" where
  "scan_loop b i last_idx cnt value =
     (if i \<le> last_idx then do {
        c \<leftarrow> bitmap_contains b i cnt (\<not> value);
        if \<not> c then Some i else scan_loop b (Suc i) last_idx cnt value
      } else Some BITMAP_ERROR)"
  by pat_completeness auto
termination
  by (relation "measure (\<lambda>(b, i, last_idx, cnt, value). Suc last_idx - i)") auto

declare scan_loop.simps [simp del]

definition bitmap_scan :: "bitmap \<Rightarrow> nat \<Rightarrow> nat \<Rightarrow> bool \<Rightarrow> nat option" where
  "bitmap_scan b start cnt value = do {
     ASSERT (start \<le> bit_cnt b);
     if cnt \<le> bit_cnt b then scan_loop b start (bit_cnt b - cnt) cnt value
     else Some BITMAP_ERROR
   }"

definition bitmap_scan_and_flip :: "bitmap \<Rightarrow> nat \<Rightarrow> nat \<Rightarrow> bool \<Rightarrow> (nat \<times> bitmap) option" where
  "bitmap_scan_and_flip b start cnt value = do {
     idx \<leftarrow> bitmap_scan b start cnt value;
     if idx \<noteq> BITMAP_ERROR then do {
       b' \<leftarrow> bitmap_set_multiple b idx cnt (\<not> value);
       Some (idx, b')
     } else Some (idx, b)
   }"

text \<open>
  Creation.  \<open>bitmap_create mb mbits n\<close>: \<open>mb\<close> tells whether the request for the header
  succeeds and \<open>mbits\<close> is the answer to the request for \<open>byte_cnt n\<close> bytes; the result
  is \<open>Some None\<close> for the null pointer.  A request for no bytes yields the null pointer,
  which then stands for the empty array.
\<close>

definition bitmap_create :: "bool \<Rightarrow> u32 list option \<Rightarrow> nat \<Rightarrow> bitmap option option" where
  "bitmap_create mb mbits n =
     (if mb then
        if mbits \<noteq> None \<or> n = 0 then do {
          b \<leftarrow> bitmap_set_all \<lparr>bit_cnt = n, bits = (case mbits of None \<Rightarrow> [] | Some m \<Rightarrow> m)\<rparr> False;
          Some (Some b)
        } else Some None
      else Some None)"

definition bitmap_buf_size :: "nat \<Rightarrow> nat" where
  "bitmap_buf_size n = wrap32 (8 + byte_cnt n)"

text \<open>
  In a caller's buffer of \<open>block_size\<close> bytes the elements follow the 8-byte header;
  \<open>mem\<close> is the contents of the rest of the buffer, in elements.
\<close>

definition bitmap_create_in_buf :: "nat \<Rightarrow> u32 list \<Rightarrow> nat \<Rightarrow> bitmap option" where
  "bitmap_create_in_buf n mem block_size = do {
     ASSERT (block_size \<ge> bitmap_buf_size n);
     bitmap_set_all \<lparr>bit_cnt = n, bits = mem\<rparr> False
   }"

definition bitmap_file_size :: "bitmap \<Rightarrow> nat" where
  "bitmap_file_size b = byte_cnt (bit_cnt b)"

section \<open>The contract: an array of bits\<close>

text \<open>
  \<open>bm_bits b\<close> is the bit array a bitmap stands for, and \<open>bm_ok\<close> the representation
  invariant: the element memory has room for every bit, and the sizes leave room for the
  rounding in \<open>elem_cnt\<close>.
\<close>

definition bm_bits :: "bitmap \<Rightarrow> bool list" where
  "bm_bits b = map (\<lambda>i. bit (bits b ! (i div 32)) (i mod 32)) [0..<bit_cnt b]"

definition bm_ok :: "bitmap \<Rightarrow> bool" where
  "bm_ok b \<longleftrightarrow> bit_cnt b \<le> 32 * length (bits b) \<and> bit_cnt b + 32 \<le> 2 ^ 32"

definition bm_rep :: "bitmap \<Rightarrow> bool list \<Rightarrow> bool" where
  "bm_rep b xs \<longleftrightarrow> bm_ok b \<and> bm_bits b = xs"

lemma length_bm_bits [simp]: "length (bm_bits b) = bit_cnt b"
  by (simp add: bm_bits_def)

lemma bm_rep_length: "bm_rep b xs \<Longrightarrow> bit_cnt b = length xs"
  by (auto simp: bm_rep_def)

lemma bm_rep_bound: "bm_rep b xs \<Longrightarrow> length xs + 32 \<le> 2 ^ 32"
  by (auto simp: bm_rep_def bm_ok_def)

lemma bm_rep_small: "bm_rep b xs \<Longrightarrow> n \<le> length xs \<Longrightarrow> wrap32 n = n"
  using bm_rep_bound [of b xs] by simp

lemma bm_rep_length_less: "bm_rep b xs \<Longrightarrow> length xs < BITMAP_ERROR"
  using bm_rep_bound [of b xs] by (simp add: BITMAP_ERROR_def SIZE_MAX_def)

lemma elem_in: "bm_ok b \<Longrightarrow> i < bit_cnt b \<Longrightarrow> i div 32 < length (bits b)"
  by (auto simp: bm_ok_def)

lemma same_bit: "k div 32 = i div 32 \<Longrightarrow> k mod 32 = i mod 32 \<Longrightarrow> k = (i :: nat)"
  by (metis div_mult_mod_eq)

text \<open>Writing one element changes one bit of the array.\<close>

lemma bm_rep_elem:
  assumes "bm_rep b xs" and "i div 32 < length (bits b)"
    and "\<And>j. j < 32 \<Longrightarrow> bit e j = (if j = i mod 32 then v else bit (bits b ! (i div 32)) j)"
  shows "bm_rep (b\<lparr>bits := (bits b)[i div 32 := e]\<rparr>) (xs[i := v])"
proof -
  have "bm_bits (b\<lparr>bits := (bits b)[i div 32 := e]\<rparr>) ! k = (bm_bits b)[i := v] ! k"
    if "k < bit_cnt b" for k
    using assms(2,3) that same_bit [of k i] by (cases "k = i") (auto simp: bm_bits_def nth_list_update)
  then have "bm_bits (b\<lparr>bits := (bits b)[i div 32 := e]\<rparr>) = (bm_bits b)[i := v]"
    by (intro nth_equalityI) auto
  then show ?thesis
    using assms(1) by (simp add: bm_rep_def bm_ok_def)
qed

lemma bit_bit_mask: "j < 32 \<Longrightarrow> bit (bit_mask i) j \<longleftrightarrow> j = i mod 32"
  by (auto simp: bit_mask_def bit_simps)

lemma and_bit_mask: "w AND bit_mask i \<noteq> 0 \<longleftrightarrow> bit w (i mod 32)"
  unfolding bit_mask_def bit_iff_and_push_bit_not_eq_0 ..

lemma bitmap_mark_sound: "bm_rep b xs \<Longrightarrow> bitmap_mark b i = Some b' \<Longrightarrow> bm_rep b' (xs[i := True])"
  using bm_rep_elem [of b xs i "bits b ! (i div 32) OR bit_mask i" True]
  by (auto simp: bitmap_mark_def elem_idx_def Let_def bind_eq_Some_iff rd_eq_Some bit_or_iff bit_bit_mask)

lemma bitmap_reset_sound: "bm_rep b xs \<Longrightarrow> bitmap_reset b i = Some b' \<Longrightarrow> bm_rep b' (xs[i := False])"
  using bm_rep_elem [of b xs i "bits b ! (i div 32) AND NOT (bit_mask i)" False]
  by (auto simp: bitmap_reset_def elem_idx_def Let_def bind_eq_Some_iff rd_eq_Some bit_and_iff bit_not_iff
      bit_bit_mask)

lemma bitmap_mark_rep:
  assumes "bm_rep b xs" and "i < length xs"
  shows "\<exists>b'. bitmap_mark b i = Some b' \<and> bm_rep b' (xs[i := True])"
proof -
  have "\<exists>b'. bitmap_mark b i = Some b'"
    using assms elem_in [of b i] by (auto simp: bitmap_mark_def elem_idx_def bm_rep_def Let_def)
  then show ?thesis using bitmap_mark_sound [OF assms(1)] by blast
qed

lemma bitmap_reset_rep:
  assumes "bm_rep b xs" and "i < length xs"
  shows "\<exists>b'. bitmap_reset b i = Some b' \<and> bm_rep b' (xs[i := False])"
proof -
  have "\<exists>b'. bitmap_reset b i = Some b'"
    using assms elem_in [of b i] by (auto simp: bitmap_reset_def elem_idx_def bm_rep_def Let_def)
  then show ?thesis using bitmap_reset_sound [OF assms(1)] by blast
qed

lemma bitmap_flip_rep:
  assumes "bm_rep b xs" and "i < length xs"
  shows "\<exists>b'. bitmap_flip b i = Some b' \<and> bm_rep b' (xs[i := \<not> xs ! i])"
proof -
  have "xs ! i = bit (bits b ! (i div 32)) (i mod 32)"
    using assms by (auto simp: bm_rep_def bm_bits_def)
  then show ?thesis
    using assms elem_in [of b i] bm_rep_elem [OF assms(1), of i "bits b ! (i div 32) XOR bit_mask i" "\<not> xs ! i"]
    by (auto simp: bitmap_flip_def elem_idx_def Let_def bm_rep_def bit_xor_iff bit_bit_mask)
qed

lemma bitmap_set_rep:
  assumes "bm_rep b xs" and "i < length xs"
  shows "\<exists>b'. bitmap_set b i v = Some b' \<and> bm_rep b' (xs[i := v])"
  using bitmap_mark_rep [OF assms] bitmap_reset_rep [OF assms] assms bm_rep_length [OF assms(1)]
  by (cases v) (simp_all add: bitmap_set_def)

lemma bitmap_test_rep [run_simps]:
  assumes "bm_rep b xs" and "i < length xs"
  shows "bitmap_test b i = Some (xs ! i)"
  using assms elem_in [of b i]
  by (auto simp: bitmap_test_def elem_idx_def and_bit_mask bm_rep_def bm_bits_def)

section \<open>Ranges\<close>

lemma set_loop_rep:
  assumes "bm_rep b xs" and "start + i + n \<le> length xs"
  shows "\<exists>b'. set_loop b start i v n = Some b' \<and> bm_rep b' (fill xs (start + i) n v)"
  using assms
proof (induction n arbitrary: b xs i)
  case (Suc n)
  then obtain b1 where b1: "bitmap_set b (start + i) v = Some b1" "bm_rep b1 (xs[start + i := v])"
    using bitmap_set_rep [OF Suc.prems(1), of "start + i" v] by auto
  then show ?case
    using Suc.IH [OF b1(2), of "Suc i"] Suc.prems(2) bm_rep_small [OF Suc.prems(1), of "start + i"]
    by (simp add: fill_Suc)
qed simp

lemma bitmap_set_multiple_rep:
  assumes "bm_rep b xs" and "start + n \<le> length xs"
  shows "\<exists>b'. bitmap_set_multiple b start n v = Some b' \<and> bm_rep b' (fill xs start n v)"
  using set_loop_rep [of b xs start 0 n v] assms bm_rep_small [OF assms] bm_rep_length [OF assms(1)]
  by (auto simp: bitmap_set_multiple_def)

lemma count_loop_rep:
  assumes "bm_rep b xs" and "start + i + n \<le> length xs"
  shows "count_loop b start i v c n
    = Some (c + length (filter (\<lambda>x. x = v) (take n (drop (start + i) xs))))"
  using assms(2)
proof (induction n arbitrary: c i)
  case (Suc n)
  then have "drop (start + i) xs = xs ! (start + i) # drop (start + Suc i) xs"
    by (simp add: Cons_nth_drop_Suc)
  with Suc show ?case
    using bm_rep_small [OF assms(1), of "start + i"] bitmap_test_rep [OF assms(1)] by auto
qed simp

lemma contains_loop_rep:
  assumes "bm_rep b xs" and "start + i + n \<le> length xs"
  shows "contains_loop b start i v n = Some (\<exists>k < n. xs ! (start + i + k) = v)"
  using assms(2)
proof (induction n arbitrary: i)
  case (Suc n)
  have split: "(\<exists>k < Suc n. P k) \<longleftrightarrow> P 0 \<or> (\<exists>k < n. P (Suc k))" for P
    by (metis less_Suc_eq_0_disj)
  show ?case
    using Suc bm_rep_small [OF assms(1), of "start + i"] bitmap_test_rep [OF assms(1)]
    unfolding split by auto
qed simp

lemma bitmap_contains_rep [run_simps]:
  assumes "bm_rep b xs" and "start + n \<le> length xs"
  shows "bitmap_contains b start n v = Some (\<not> run_at xs start n (\<not> v))"
  using contains_loop_rep [of b xs start 0 n v] assms bm_rep_small [OF assms] bm_rep_length [OF assms(1)]
  by (auto simp: bitmap_contains_def run_at_def)

section \<open>Searching\<close>

lemma scan_loop_first:
  assumes "bm_rep b xs" and "run_at xs j n v" and "\<forall>k. i \<le> k \<and> k < j \<longrightarrow> \<not> run_at xs k n v" and "i \<le> j"
  shows "scan_loop b i (length xs - n) n v = Some j"
  using assms(3,4)
proof (induction "j - i" arbitrary: i)
  case 0
  then have "i = j" "i + n \<le> length xs" "i \<le> length xs - n"
    using assms(2) by (auto simp: run_at_def)
  then show ?case
    using assms(1,2) by (simp add: scan_loop.simps [of b j] bitmap_contains_rep)
next
  case (Suc d)
  then have "i < j" "\<not> run_at xs i n v" by auto
  moreover have "i + n \<le> length xs" "i \<le> length xs - n"
    using assms(2) \<open>i < j\<close> by (auto simp: run_at_def)
  moreover have "scan_loop b (Suc i) (length xs - n) n v = Some j"
    using Suc by (intro Suc.hyps(1)) auto
  ultimately show ?case
    using assms(1) by (simp add: scan_loop.simps [of b i] bitmap_contains_rep)
qed

lemma scan_loop_none:
  assumes "bm_rep b xs" and "\<forall>k \<ge> i. \<not> run_at xs k n v" and "n \<le> length xs"
  shows "scan_loop b i (length xs - n) n v = Some BITMAP_ERROR"
  using assms(2)
proof (induction "Suc (length xs - n) - i" arbitrary: i)
  case 0
  then show ?case by (simp add: scan_loop.simps)
next
  case (Suc d)
  then have i: "i \<le> length xs - n" by simp
  have "scan_loop b (Suc i) (length xs - n) n v = Some BITMAP_ERROR"
    using Suc by (intro Suc.hyps(1)) auto
  moreover have "i + n \<le> length xs" "\<not> run_at xs i n v"
    using i assms(3) Suc.prems by auto
  ultimately show ?case
    using assms(1) i by (simp add: scan_loop.simps [of b i] bitmap_contains_rep)
qed

lemma bitmap_scan_first:
  assumes "bm_rep b xs" and "run_at xs j n v" and "start \<le> j"
    and "\<forall>k. start \<le> k \<and> k < j \<longrightarrow> \<not> run_at xs k n v"
  shows "bitmap_scan b start n v = Some j"
  using scan_loop_first [OF assms(1,2,4,3)] assms bm_rep_length [OF assms(1)]
  by (auto simp: bitmap_scan_def run_at_def)

lemma bitmap_scan_none:
  assumes "bm_rep b xs" and "start \<le> length xs" and "\<forall>k \<ge> start. \<not> run_at xs k n v"
  shows "bitmap_scan b start n v = Some BITMAP_ERROR"
  using scan_loop_none [OF assms(1,3)] assms bm_rep_length [OF assms(1)]
  by (auto simp: bitmap_scan_def)

lemma bitmap_scan_and_flip_first:
  assumes "bm_rep b xs" and "run_at xs j n v" and "start \<le> j"
    and "\<forall>k. start \<le> k \<and> k < j \<longrightarrow> \<not> run_at xs k n v"
  shows "\<exists>b'. bitmap_scan_and_flip b start n v = Some (j, b') \<and> bm_rep b' (fill xs j n (\<not> v))"
proof -
  have "j \<noteq> BITMAP_ERROR"
    using assms(2) bm_rep_length_less [OF assms(1)] by (auto simp: run_at_def)
  moreover have "j + n \<le> length xs"
    using assms(2) by (simp add: run_at_def)
  ultimately show ?thesis
    using bitmap_scan_first [OF assms] bitmap_set_multiple_rep [OF assms(1), of j n "\<not> v"]
    by (auto simp: bitmap_scan_and_flip_def)
qed

lemma bitmap_scan_and_flip_none:
  assumes "bm_rep b xs" and "start \<le> length xs" and "\<forall>k \<ge> start. \<not> run_at xs k n v"
  shows "bitmap_scan_and_flip b start n v = Some (BITMAP_ERROR, b)"
  using bitmap_scan_none [OF assms] by (simp add: bitmap_scan_and_flip_def)

section \<open>The bitmap is a slot allocator\<close>

interpretation bm: run_allocator bm_rep "\<lambda>b n. bitmap_scan_and_flip b 0 n False"
  "\<lambda>b i n. bitmap_set_multiple b i n False" BITMAP_ERROR
proof unfold_locales
  fix b xs i n
  assume "bm_rep b xs" "run_at xs i n False" "\<forall>j < i. \<not> run_at xs j n False"
  then show "\<exists>s'. bitmap_scan_and_flip b 0 n False = Some (i, s') \<and> bm_rep s' (fill xs i n True)"
    using bitmap_scan_and_flip_first [of b xs i n False 0] by simp
qed (simp_all add: bitmap_scan_and_flip_none bitmap_set_multiple_rep bm_rep_length_less)

section \<open>Creation\<close>

lemma elem_cnt_enough: "n + 32 \<le> 2 ^ 32 \<Longrightarrow> n \<le> 32 * elem_cnt n"
  by (auto simp: elem_cnt_def)

lemma bitmap_set_all_rep:
  assumes "n + 32 \<le> 2 ^ 32" and "elem_cnt n \<le> length m"
  shows "\<exists>b. bitmap_set_all \<lparr>bit_cnt = n, bits = m\<rparr> v = Some b \<and> bm_rep b (replicate n v)"
proof -
  let ?b = "\<lparr>bit_cnt = n, bits = m\<rparr>"
  have "bm_rep ?b (bm_bits ?b)"
    using assms elem_cnt_enough [of n] by (simp add: bm_rep_def bm_ok_def)
  then show ?thesis
    using bitmap_set_multiple_rep [of ?b "bm_bits ?b" 0 n v]
    by (simp add: bitmap_set_all_def bitmap_size_def fill_all)
qed

lemma bitmap_create_rep:
  assumes "n + 32 \<le> 2 ^ 32" and "length m = elem_cnt n"
  shows "\<exists>b. bitmap_create True (Some m) n = Some (Some b) \<and> bm_rep b (replicate n False)"
  using bitmap_set_all_rep [of n m False] assms by (auto simp: bitmap_create_def)

lemma bitmap_create_in_buf_rep:
  assumes "n + 32 \<le> 2 ^ 32" and "elem_cnt n \<le> length m" and "bitmap_buf_size n \<le> block_size"
  shows "\<exists>b. bitmap_create_in_buf n m block_size = Some b \<and> bm_rep b (replicate n False)"
  using bitmap_set_all_rep [of n m False] assms by (auto simp: bitmap_create_in_buf_def)

lemma bm_rep_example: "bm_rep \<lparr>bit_cnt = 4, bits = [5]\<rparr> [True, False, True, False]"
  by (simp add: bm_rep_def bm_ok_def bm_bits_def upt_conv_Cons)

section \<open>Properties\<close>



text \<open>
  Setting a range of bits changes exactly the bits of the range, as later tests and
  counts of any single bits or ranges see them.
\<close>

theorem set_multiple_then_read:
  assumes "bm_rep b xs" and "start + n \<le> length xs"
  shows "\<exists>b'. bitmap_set_multiple b start n v = Some b' \<and>
    (\<forall>i < length xs. bitmap_test b' i = Some (if start \<le> i \<and> i < start + n then v else xs ! i)) \<and>
    bitmap_count b' start n v = Some n \<and> bitmap_contains b' start n (\<not> v) = Some False"
proof -
  obtain b' where b': "bitmap_set_multiple b start n v = Some b'" "bm_rep b' (fill xs start n v)"
    using bitmap_set_multiple_rep [OF assms] by blast
  have "take n (drop start (fill xs start n v)) = replicate n v"
    using assms(2) by (intro nth_equalityI) auto
  then have "bitmap_count b' start n v = Some n"
    using count_loop_rep [OF b'(2), of start 0 n v 0] assms bm_rep_small [OF assms]
      bm_rep_length [OF b'(2)]
    by (simp add: bitmap_count_def)
  then show ?thesis
    using b' assms(2) by (simp add: bitmap_test_rep [OF b'(2)] bitmap_contains_rep [OF b'(2)] run_at_fill)
qed

theorem set_multiple_then_read_witness:
  "\<exists>b'. bitmap_set_multiple \<lparr>bit_cnt = 4, bits = [5]\<rparr> 1 2 True = Some b' \<and>
    (\<forall>i < length [True, False, True, False]. bitmap_test b' i
       = Some (if 1 \<le> i \<and> i < 1 + 2 then True else [True, False, True, False] ! i)) \<and>
    bitmap_count b' 1 2 True = Some 2 \<and> bitmap_contains b' 1 2 (\<not> True) = Some False"
  by (rule set_multiple_then_read [OF bm_rep_example]) simp

end
