(* ===== verification/Vaddr.thy ===== *)
theory Vaddr
  imports Prelude
begin

text \<open>
  Addresses: threads/vaddr.h and threads/pte.h.  A pointer is its 32-bit value, the null
  pointer is \<open>0\<close>.  The inline functions of both headers, and the format of page directory
  and page table entries.
\<close>

section \<open>Pages (threads/vaddr.h)\<close>

definition PGBITS :: nat where
  "PGBITS = 12"

definition PGSIZE :: nat where
  "PGSIZE = 2 ^ PGBITS"

definition BITMASK :: "nat \<Rightarrow> nat \<Rightarrow> u32" where
  "BITMASK shift cnt = push_bit shift (push_bit cnt 1 - 1)"

definition PGMASK :: u32 where
  "PGMASK = BITMASK 0 PGBITS"

definition PHYS_BASE :: u32 where
  "PHYS_BASE = 0xc0000000"

definition pg_ofs :: "u32 \<Rightarrow> u32" where
  "pg_ofs va = va AND PGMASK"

definition pg_no :: "u32 \<Rightarrow> u32" where
  "pg_no va = drop_bit PGBITS va"

definition pg_round_up :: "u32 \<Rightarrow> u32" where
  "pg_round_up va = (va + of_nat PGSIZE - 1) AND NOT PGMASK"

definition pg_round_down :: "u32 \<Rightarrow> u32" where
  "pg_round_down va = va AND NOT PGMASK"

definition is_user_vaddr :: "u32 \<Rightarrow> bool" where
  "is_user_vaddr vaddr \<longleftrightarrow> vaddr < PHYS_BASE"

definition is_kernel_vaddr :: "u32 \<Rightarrow> bool" where
  "is_kernel_vaddr vaddr \<longleftrightarrow> vaddr \<ge> PHYS_BASE"

definition ptov :: "u32 \<Rightarrow> u32 option" where
  "ptov paddr = do { ASSERT (paddr < PHYS_BASE); Some (paddr + PHYS_BASE) }"

definition vtop :: "u32 \<Rightarrow> u32 option" where
  "vtop vaddr = do { ASSERT (is_kernel_vaddr vaddr); Some (vaddr - PHYS_BASE) }"

section \<open>Page tables (threads/pte.h)\<close>

definition PTBITS :: nat where
  "PTBITS = 10"

definition PTSHIFT :: nat where
  "PTSHIFT = PGBITS"

definition PTMASK :: u32 where
  "PTMASK = BITMASK PTSHIFT PTBITS"

definition PDSHIFT :: nat where
  "PDSHIFT = PTSHIFT + PTBITS"

definition pt_no :: "u32 \<Rightarrow> u32" where
  "pt_no va = drop_bit PTSHIFT (va AND PTMASK)"

definition pd_no :: "u32 \<Rightarrow> u32" where
  "pd_no va = drop_bit PDSHIFT va"

definition PTE_ADDR :: u32 where "PTE_ADDR = 0xfffff000"
definition PTE_P :: u32 where "PTE_P = 0x1"
definition PTE_W :: u32 where "PTE_W = 0x2"
definition PTE_U :: u32 where "PTE_U = 0x4"
definition PTE_A :: u32 where "PTE_A = 0x20"
definition PTE_D :: u32 where "PTE_D = 0x40"

definition pde_create :: "u32 \<Rightarrow> u32 option" where
  "pde_create pt = do {
     ASSERT (pg_ofs pt = 0);
     p \<leftarrow> vtop pt;
     Some (p OR PTE_U OR PTE_P OR PTE_W)
   }"

definition pde_get_pt :: "u32 \<Rightarrow> u32 option" where
  "pde_get_pt pde = do { ASSERT (pde AND PTE_P \<noteq> 0); ptov (pde AND PTE_ADDR) }"

definition pte_create_kernel :: "u32 \<Rightarrow> bool \<Rightarrow> u32 option" where
  "pte_create_kernel page writable = do {
     ASSERT (pg_ofs page = 0);
     p \<leftarrow> vtop page;
     Some (p OR PTE_P OR (if writable then PTE_W else 0))
   }"

definition pte_create_user :: "u32 \<Rightarrow> bool \<Rightarrow> u32 option" where
  "pte_create_user page writable = do { pte \<leftarrow> pte_create_kernel page writable; Some (pte OR PTE_U) }"

definition pte_get_page :: "u32 \<Rightarrow> u32 option" where
  "pte_get_page pte = ptov (pte AND PTE_ADDR)"

lemmas page_consts = PGBITS_def PGSIZE_def BITMASK_def PGMASK_def PTBITS_def PTSHIFT_def PTMASK_def PDSHIFT_def
lemmas pte_consts = PTE_ADDR_def PTE_P_def PTE_W_def PTE_U_def PTE_A_def PTE_D_def

section \<open>Addresses as numbers\<close>

lemma PGSIZE_eq [simp]: "PGSIZE = 4096"
  by (simp add: page_consts)

lemma PGMASK_eq: "PGMASK = mask 12"
  by (simp add: page_consts mask_eq_exp_minus_1)

lemma PTE_ADDR_eq: "PTE_ADDR = NOT (mask 12)"
  by (simp add: PTE_ADDR_def mask_eq_exp_minus_1)

lemma unat_pg_ofs: "unat (pg_ofs va) = unat va mod 4096"
  by (simp add: pg_ofs_def PGMASK_eq unat_take_bit flip: take_bit_eq_mask)

lemma unat_pg_no: "unat (pg_no va) = unat va div 4096"
  by (simp add: pg_no_def PGBITS_def unat_drop_bit)

lemma unat_pd_no: "unat (pd_no va) = unat va div 4194304"
  by (simp add: pd_no_def page_consts unat_drop_bit)

lemma pt_no_alt: "pt_no va = take_bit 10 (drop_bit 12 va)"
proof -
  have eq: "PTMASK = push_bit 12 (mask 10)"
    by (simp add: page_consts mask_eq_exp_minus_1)
  have ptmask: "bit PTMASK n \<longleftrightarrow> 12 \<le> n \<and> n < 22" for n
    unfolding eq bit_push_bit_iff bit_mask_iff by auto
  show ?thesis
  proof (rule bit_word_eqI)
    fix n
    show "bit (pt_no va) n = bit (take_bit 10 (drop_bit 12 va)) n"
      unfolding pt_no_def PTSHIFT_def PGBITS_def bit_take_bit_iff bit_drop_bit_eq o_def bit_and_iff ptmask
      by auto
  qed
qed

lemma unat_pt_no: "unat (pt_no va) = unat va div 4096 mod 1024"
  by (simp add: pt_no_alt unat_take_bit unat_drop_bit)

lemma pg_round_down_eq: "pg_round_down va = va - pg_ofs va"
proof -
  have "va = (va AND NOT (mask 12)) + (va AND mask 12)"
    by (subst disjunctive_add_eq_or) (auto simp: bit_simps intro!: bit_word_eqI)
  then show ?thesis
    by (simp add: PGMASK_eq pg_ofs_def pg_round_down_def algebra_simps)
qed

lemma unat_pg_round_down: "unat (pg_round_down va) = unat va div 4096 * 4096"
proof -
  have "pg_ofs va \<le> va"
    by (simp add: word_le_nat_alt unat_pg_ofs)
  then show ?thesis
    by (simp add: pg_round_down_eq unat_sub unat_pg_ofs minus_mod_eq_div_mult)
qed

text \<open>The three fields of an address determine it.\<close>

lemma va_fields: "unat va = unat (pd_no va) * 4194304 + unat (pt_no va) * 4096 + unat (pg_ofs va)"
proof -
  have "unat va div 4194304 = unat va div 4096 div 1024"
    by (simp add: div_mult2_eq [symmetric])
  then show ?thesis
    unfolding unat_pd_no unat_pt_no unat_pg_ofs
    using div_mult_mod_eq [of "unat va" 4096] div_mult_mod_eq [of "unat va div 4096" 1024] by linarith
qed

lemma page_eqI:
  assumes "pd_no va = pd_no va'" and "pt_no va = pt_no va'" and "pg_ofs va = 0" and "pg_ofs va' = 0"
  shows "va = va'"
  using va_fields [of va] va_fields [of va'] assms by (simp add: word_unat_eq_iff)

lemma unat_PHYS_BASE [simp]: "unat PHYS_BASE = 3221225472"
  by (simp add: PHYS_BASE_def)

lemma user_pd_no: "is_user_vaddr va \<longleftrightarrow> unat (pd_no va) < 768"
  by (auto simp: is_user_vaddr_def word_less_nat_alt unat_pd_no)

lemma user_kernel: "is_user_vaddr va \<longleftrightarrow> \<not> is_kernel_vaddr va"
  by (auto simp: is_user_vaddr_def is_kernel_vaddr_def)

lemma pg_ofs_0_iff: "pg_ofs va = 0 \<longleftrightarrow> unat va mod 4096 = 0"
  by (simp add: word_unat_eq_iff unat_pg_ofs)

lemma pg_ofs_pg_round_down [simp]: "pg_ofs (pg_round_down va) = 0"
  by (simp add: pg_ofs_0_iff unat_pg_round_down)

lemma pg_no_pg_round_down [simp]: "pg_no (pg_round_down va) = pg_no va"
  by (simp add: word_unat_eq_iff unat_pg_no unat_pg_round_down)

lemma pg_round_down_user: "is_user_vaddr va \<Longrightarrow> is_user_vaddr (pg_round_down va)"
proof -
  have "pg_round_down va \<le> va"
    by (simp add: word_le_nat_alt unat_pg_round_down)
  then show "is_user_vaddr va \<Longrightarrow> is_user_vaddr (pg_round_down va)"
    by (auto simp: is_user_vaddr_def)
qed

lemma unat_pg_round_up:
  assumes "unat va + 4095 < 2 ^ 32"
  shows "unat (pg_round_up va) = ROUND_UP (unat va) PGSIZE"
proof -
  have "pg_round_up va = pg_round_down (va + 4095)"
    by (simp add: pg_round_up_def pg_round_down_def add.commute)
  moreover have "unat (va + 4095) = unat va + 4095"
    using assms by (subst unat_add_lem [THEN iffD1]) auto
  ultimately show ?thesis
    by (simp add: unat_pg_round_down ROUND_UP_def)
qed

text \<open>
  \<open>vtop\<close> and \<open>ptov\<close> are inverse to each other on the physical memory that fits above
  \<open>PHYS_BASE\<close>, the first gigabyte.  (\<open>ptov\<close> accepts up to three gigabytes and wraps.)
\<close>

lemma ptov_vtop: "vtop va = Some pa \<Longrightarrow> ptov pa = Some va"
  by (auto simp: vtop_def ptov_def is_kernel_vaddr_def bind_eq_Some_iff word_less_nat_alt word_le_nat_alt
      unat_sub)
    (use unsigned_less [of va, where ?'a = nat] in simp)

lemma vtop_ptov: "pa < 0x40000000 \<Longrightarrow> ptov pa = Some va \<Longrightarrow> vtop va = Some pa"
proof -
  assume pa: "pa < 0x40000000" and "ptov pa = Some va"
  then have va: "va = pa + PHYS_BASE" by (auto simp: ptov_def bind_eq_Some_iff)
  have "unat (pa + PHYS_BASE) = unat pa + unat PHYS_BASE"
    using pa by (subst unat_add_lem [THEN iffD1]) (auto simp: word_less_nat_alt)
  then show ?thesis
    by (simp add: va vtop_def is_kernel_vaddr_def word_le_nat_alt)
qed

lemma vtop_aligned:
  assumes "vtop va = Some pa"
  shows "pg_ofs pa = 0 \<longleftrightarrow> pg_ofs va = 0"
proof -
  have "unat va = unat pa + 786432 * 4096"
    using assms by (auto simp: vtop_def bind_eq_Some_iff is_kernel_vaddr_def word_le_nat_alt unat_sub)
  then show ?thesis
    unfolding pg_ofs_0_iff by (simp only: mod_mult_self1)
qed

text \<open>Entries: the address field and the flags do not interfere.\<close>

lemma addr_field:
  assumes "pg_ofs x = 0" and "f AND PTE_ADDR = 0"
  shows "(x OR f) AND PTE_ADDR = x"
proof -
  have "x AND PTE_ADDR = pg_round_down x"
    by (simp only: PTE_ADDR_eq pg_round_down_def PGMASK_eq)
  then have "x AND PTE_ADDR = x"
    using assms(1) by (simp add: pg_round_down_eq)
  with assms(2) show ?thesis
    by (simp add: bit.conj_disj_distrib2)
qed

lemma flag_field:
  assumes "pg_ofs x = 0" and "g AND PTE_ADDR = 0"
  shows "(x OR f) AND g = f AND g"
proof -
  have "x AND g = (x AND PTE_ADDR) AND g"
    using addr_field [OF assms(1), of 0] by simp
  also have "\<dots> = 0"
    using assms(2) by (metis and.assoc and.commute and_zero_eq)
  finally show ?thesis
    by (simp add: bit.conj_disj_distrib2)
qed

lemmas entry_fields = addr_field [unfolded PTE_ADDR_def] flag_field [unfolded PTE_ADDR_def]

lemma pde_roundtrip:
  assumes "pg_ofs pt = 0" and "is_kernel_vaddr pt"
  shows "\<exists>pde. pde_create pt = Some pde \<and> pde \<noteq> 0 \<and> pde AND PTE_P \<noteq> 0 \<and> pde_get_pt pde = Some pt"
proof -
  obtain pa where pa: "vtop pt = Some pa"
    using assms(2) by (simp add: vtop_def)
  let ?pde = "pa OR PTE_U OR PTE_P OR PTE_W"
  have "pg_ofs pa = 0"
    using vtop_aligned [OF pa] assms(1) by simp
  then have addr: "?pde AND PTE_ADDR = pa" and P: "?pde AND PTE_P \<noteq> 0"
    by (simp_all add: entry_fields pte_consts or.assoc)
  then have "?pde \<noteq> 0" by auto
  with addr P show ?thesis
    using pa assms(1) ptov_vtop [OF pa] by (simp add: pde_create_def pde_get_pt_def)
qed

lemma pte_user_roundtrip:
  assumes "pg_ofs page = 0" and "is_kernel_vaddr page"
  shows "\<exists>pte. pte_create_user page w = Some pte \<and> pte_get_page pte = Some page
    \<and> pte AND PTE_P \<noteq> 0 \<and> pte AND PTE_U \<noteq> 0 \<and> (pte AND PTE_W \<noteq> 0 \<longleftrightarrow> w)
    \<and> pte AND PTE_D = 0 \<and> pte AND PTE_A = 0"
proof -
  obtain pa where pa: "vtop page = Some pa"
    using assms(2) by (simp add: vtop_def)
  have "pg_ofs pa = 0"
    using vtop_aligned [OF pa] assms(1) by simp
  then show ?thesis
    using pa assms(1) ptov_vtop [OF pa]
    by (cases w) (simp_all add: pte_create_user_def pte_create_kernel_def pte_get_page_def entry_fields
        pte_consts or.assoc)
qed

end
