(* ===== verification/Kmem.thy ===== *)
theory Kmem
  imports Vaddr
begin

text \<open>
  The memory that kernel code addresses through pointers: a byte for every 32-bit address.
  32-bit accesses are little endian, as on the machine.  \<open>memset\<close> and \<open>memcpy\<close> are the
  effect of the routines of lib/string.c on this memory; theory Cstring has the routines
  themselves, byte by byte.
\<close>

type_synonym kmem = "u32 \<Rightarrow> u8"

definition ld32 :: "kmem \<Rightarrow> u32 \<Rightarrow> u32" where
  "ld32 m a = ucast (m a) OR push_bit 8 (ucast (m (a + 1))) OR push_bit 16 (ucast (m (a + 2)))
     OR push_bit 24 (ucast (m (a + 3)))"

definition st32 :: "kmem \<Rightarrow> u32 \<Rightarrow> u32 \<Rightarrow> kmem" where
  "st32 m a v = m(a := ucast v, a + 1 := ucast (drop_bit 8 v), a + 2 := ucast (drop_bit 16 v),
     a + 3 := ucast (drop_bit 24 v))"

definition in_range :: "u32 \<Rightarrow> nat \<Rightarrow> u32 \<Rightarrow> bool" where
  "in_range a n x \<longleftrightarrow> unat (x - a) < n"

definition set_bytes :: "kmem \<Rightarrow> u32 \<Rightarrow> u8 \<Rightarrow> nat \<Rightarrow> kmem" where
  "set_bytes m a v n = (\<lambda>x. if in_range a n x then v else m x)"

definition copy_bytes :: "kmem \<Rightarrow> u32 \<Rightarrow> u32 \<Rightarrow> nat \<Rightarrow> kmem" where
  "copy_bytes m dst src n = (\<lambda>x. if in_range dst n x then m (src + (x - dst)) else m x)"

definition get_bytes :: "kmem \<Rightarrow> u32 \<Rightarrow> nat \<Rightarrow> u8 list" where
  "get_bytes m a n = map (\<lambda>i. m (a + of_nat i)) [0..<n]"

definition put_bytes :: "kmem \<Rightarrow> u32 \<Rightarrow> u8 list \<Rightarrow> kmem" where
  "put_bytes m a bs = (\<lambda>x. if in_range a (length bs) x then bs ! unat (x - a) else m x)"

section \<open>Bytes\<close>

lemma of_nat_offset: "n \<le> 2 ^ 32 \<Longrightarrow> i < n \<Longrightarrow> unat (of_nat i :: u32) = i"
  by (simp add: unat_of_nat)

lemma get_put_bytes:
  "length bs \<le> 2 ^ 32 \<Longrightarrow> get_bytes (put_bytes m a bs) a (length bs) = bs"
  by (rule nth_equalityI) (auto simp: get_bytes_def put_bytes_def in_range_def of_nat_offset)

lemma length_get_bytes [simp]: "length (get_bytes m a n) = n"
  by (simp add: get_bytes_def)

lemma nth_get_bytes [simp]: "i < n \<Longrightarrow> get_bytes m a n ! i = m (a + of_nat i)"
  by (simp add: get_bytes_def)

lemma put_bytes_outside: "\<not> in_range a (length bs) x \<Longrightarrow> put_bytes m a bs x = m x"
  by (simp add: put_bytes_def)

lemma get_bytes_put_outside:
  assumes "\<forall>i < n. \<not> in_range b (length bs) (a + of_nat i)"
  shows "get_bytes (put_bytes m b bs) a n = get_bytes m a n"
  using assms by (intro nth_equalityI) (auto simp: put_bytes_outside)

lemma get_bytes_append: "get_bytes m a (k + n) = get_bytes m a k @ get_bytes m (a + of_nat k) n"
  by (rule nth_equalityI) (auto simp: nth_append algebra_simps of_nat_diff)

lemma put_bytes_append:
  assumes "length xs + length ys \<le> 2 ^ 32"
  shows "put_bytes (put_bytes m a xs) (a + of_nat (length xs)) ys = put_bytes m a (xs @ ys)"
proof
  fix x
  let ?d = "x - a" and ?n = "of_nat (length xs) :: u32"
  have sub: "x - (a + ?n) = ?d - ?n" by simp
  show "put_bytes (put_bytes m a xs) (a + ?n) ys x = put_bytes m a (xs @ ys) x"
  proof (cases "ys = []")
    case True
    then show ?thesis by (simp add: put_bytes_def in_range_def)
  next
    case False
    then have "length xs < 2 ^ 32" using assms by (cases ys) auto
    then have n: "unat ?n = length xs" by (simp add: unat_of_nat)
    have "unat (?d - ?n) = (if length xs \<le> unat ?d then unat ?d - length xs else unat ?d + 2 ^ 32 - length xs)"
      using n by (simp add: unat_sub_if')
    then show ?thesis
      unfolding put_bytes_def in_range_def sub using assms by (auto simp: nth_append)
  qed
qed

section \<open>Words\<close>

lemma word_of_bytes:
  "(ucast (ucast v :: u8) :: u32) OR push_bit 8 (ucast (ucast (drop_bit 8 v) :: u8))
     OR push_bit 16 (ucast (ucast (drop_bit 16 v) :: u8)) OR push_bit 24 (ucast (ucast (drop_bit 24 v) :: u8))
   = (v :: u32)"
proof (rule bit_word_eqI)
  fix n assume "n < LENGTH(32)"
  then consider "n < 8" | "8 \<le> n" "n < 16" | "16 \<le> n" "n < 24" | "24 \<le> n" "n < 32"
    by fastforce
  then show "bit ((ucast (ucast v :: u8) :: u32) OR push_bit 8 (ucast (ucast (drop_bit 8 v) :: u8))
     OR push_bit 16 (ucast (ucast (drop_bit 16 v) :: u8)) OR push_bit 24 (ucast (ucast (drop_bit 24 v) :: u8))) n
    = bit v n"
    by cases (auto simp: bit_simps)
qed

lemma ld32_st32_same [simp]: "ld32 (st32 m a v) a = v"
  by (simp add: ld32_def st32_def word_of_bytes)

text \<open>Aligned words are the same word or do not overlap.\<close>

lemma aligned_offset:
  assumes "unat a mod 4 = 0" and "unat b mod 4 = 0" and "a \<noteq> b" and "i < 4" and "j < 4"
  shows "a + of_nat i \<noteq> b + (of_nat j :: u32)"
proof -
  have "unat (x + of_nat k) = unat x + k" if "unat x mod 4 = 0" "k < 4" for x :: u32 and k
  proof -
    have "unat x < 2 ^ 32" using unsigned_less [of x] by simp
    then have "unat x div 4 < 1073741824" by simp
    then have "unat x div 4 * 4 + k < 2 ^ 32" using that(2) by simp
    moreover have "unat x div 4 * 4 = unat x" using that(1) by (simp add: minus_mod_eq_div_mult [symmetric])
    ultimately show ?thesis
      using that(2) by (subst unat_add_lem [THEN iffD1]) (auto simp: unat_of_nat)
  qed
  then have "unat (a + of_nat i) div 4 = unat a div 4" "unat (b + of_nat j) div 4 = unat b div 4"
    using assms by (auto simp: div_add1_eq)
  moreover have "unat a div 4 \<noteq> unat b div 4"
    using assms(1-3) by (metis div_mult_mod_eq word_unat_eq_iff)
  ultimately show ?thesis by metis
qed

lemma ld32_st32_other:
  assumes "unat a mod 4 = 0" and "unat b mod 4 = 0" and "a \<noteq> b"
  shows "ld32 (st32 m a v) b = ld32 m b"
proof -
  have ne: "b + of_nat i \<noteq> a + of_nat j" if "i < 4" "j < 4" for i j
    using aligned_offset [OF assms that(2,1)] by metis
  have "st32 m a v (b + of_nat i) = m (b + of_nat i)" if "i < 4" for i
    using ne [OF that, of 0] ne [OF that, of 1] ne [OF that, of 2] ne [OF that, of 3]
    by (simp add: st32_def)
  from this [of 0] this [of 1] this [of 2] this [of 3] show ?thesis
    by (simp add: ld32_def)
qed

lemma ld32_cong:
  assumes "\<And>i. i < 4 \<Longrightarrow> m (a + of_nat i) = m' (a + of_nat i)"
  shows "ld32 m a = ld32 m' a"
  using assms [of 0] assms [of 1] assms [of 2] assms [of 3] by (simp add: ld32_def)

lemma ld32_set_zero:
  assumes "\<And>i. i < 4 \<Longrightarrow> in_range p n (a + of_nat i)"
  shows "ld32 (set_bytes m p 0 n) a = 0"
  using assms [of 0] assms [of 1] assms [of 2] assms [of 3] by (simp add: ld32_def set_bytes_def)

end
