(* ===== verification/Palloc.thy ===== *)
theory Palloc
  imports Bitmap Kmem "HOL-Library.Signed_Division"
begin

text \<open>
  threads/palloc.c: the page allocator.  The two pools and the memory their pages lie in
  are the state \<open>pmem\<close>; the bitmap of a pool is kept as a value beside the memory although
  the code stores it in the pages in front of the pool, which are never handed out.  The
  pool lock only orders concurrent callers; each operation here is one call.  A null
  pointer is \<open>0\<close>, \<open>None\<close> is a panic.
\<close>

record pool =
  used_map :: bitmap
  base :: u32

record pmem =
  kernel_pool :: pool
  user_pool :: pool
  ram :: kmem

definition PAL_ASSERT :: u32 where "PAL_ASSERT = 1"
definition PAL_ZERO :: u32 where "PAL_ZERO = 2"
definition PAL_USER :: u32 where "PAL_USER = 4"

text \<open>The memory behind the header of the bitmap, as the elements \<open>bitmap_create_in_buf\<close> uses.\<close>

definition words_at :: "kmem \<Rightarrow> u32 \<Rightarrow> nat \<Rightarrow> u32 list" where
  "words_at m a n = map (\<lambda>i. ld32 m (a + of_nat (4 * i))) [0..<n]"

definition init_pool :: "kmem \<Rightarrow> u32 \<Rightarrow> nat \<Rightarrow> pool option" where
  "init_pool m pool_base page_cnt =
     (let bm_pages = wrap32 (bitmap_buf_size page_cnt + PGSIZE - 1) div PGSIZE
      in if bm_pages > page_cnt then None
         else do {
           bm \<leftarrow> bitmap_create_in_buf (page_cnt - bm_pages)
                   (words_at m (pool_base + 8) ((bm_pages * PGSIZE - 8) div 4)) (wrap32 (bm_pages * PGSIZE));
           Some \<lparr>used_map = bm, base = pool_base + of_nat (bm_pages * PGSIZE)\<rparr>
         })"

definition palloc_init :: "kmem \<Rightarrow> u32 \<Rightarrow> nat \<Rightarrow> pmem option" where
  "palloc_init m init_ram_pages user_page_limit = do {
     free_start \<leftarrow> ptov (1024 * 1024);
     free_end \<leftarrow> ptov (init_ram_pages * of_nat PGSIZE);
     let free_pages = unat (word_of_int (sint (free_end - free_start) sdiv int PGSIZE) :: u32);
     let user_pages = (if free_pages div 2 > user_page_limit then user_page_limit else free_pages div 2);
     let kernel_pages = free_pages - user_pages;
     kp \<leftarrow> init_pool m free_start kernel_pages;
     up \<leftarrow> init_pool m (free_start + of_nat (kernel_pages * PGSIZE)) user_pages;
     Some \<lparr>kernel_pool = kp, user_pool = up, ram = m\<rparr>
   }"

definition palloc_get_multiple :: "u32 \<Rightarrow> nat \<Rightarrow> pmem \<Rightarrow> (u32 \<times> pmem) option" where
  "palloc_get_multiple flags page_cnt st =
     (let is_user = (flags AND PAL_USER \<noteq> 0);
          p = (if is_user then user_pool st else kernel_pool st)
      in if page_cnt = 0 then Some (0, st)
         else do {
           (page_idx, bm) \<leftarrow> bitmap_scan_and_flip (used_map p) 0 page_cnt False;
           let p' = p\<lparr>used_map := bm\<rparr>;
           let st' = (if is_user then st\<lparr>user_pool := p'\<rparr> else st\<lparr>kernel_pool := p'\<rparr>);
           let pages = (if page_idx \<noteq> BITMAP_ERROR then base p + of_nat (PGSIZE * page_idx) else 0);
           if pages \<noteq> 0 then
             Some (pages, if flags AND PAL_ZERO \<noteq> 0
                          then st'\<lparr>ram := set_bytes (ram st') pages 0 (PGSIZE * page_cnt)\<rparr> else st')
           else if flags AND PAL_ASSERT \<noteq> 0 then None
           else Some (pages, st')
         })"

definition palloc_get_page :: "u32 \<Rightarrow> pmem \<Rightarrow> (u32 \<times> pmem) option" where
  "palloc_get_page flags st = palloc_get_multiple flags 1 st"

definition page_from_pool :: "pool \<Rightarrow> u32 \<Rightarrow> bool" where
  "page_from_pool p page =
     (let page_no = unat (pg_no page);
          start_page = unat (pg_no (base p));
          end_page = wrap32 (start_page + bitmap_size (used_map p))
      in page_no \<ge> start_page \<and> page_no < end_page)"

definition free_in_pool :: "pool \<Rightarrow> u32 \<Rightarrow> nat \<Rightarrow> pool option" where
  "free_in_pool p pages page_cnt = do {
     let page_idx = unat (pg_no pages - pg_no (base p));
     all_used \<leftarrow> bitmap_all (used_map p) page_idx page_cnt;
     ASSERT all_used;
     bm \<leftarrow> bitmap_set_multiple (used_map p) page_idx page_cnt False;
     Some (p\<lparr>used_map := bm\<rparr>)
   }"

definition palloc_free_multiple :: "u32 \<Rightarrow> nat \<Rightarrow> pmem \<Rightarrow> pmem option" where
  "palloc_free_multiple pages page_cnt st = do {
     ASSERT (pg_ofs pages = 0);
     if pages = 0 \<or> page_cnt = 0 then Some st
     else
       let st' = st\<lparr>ram := set_bytes (ram st) pages 0xcc (PGSIZE * page_cnt)\<rparr>
       in if page_from_pool (kernel_pool st) pages then do {
            p \<leftarrow> free_in_pool (kernel_pool st) pages page_cnt;
            Some (st'\<lparr>kernel_pool := p\<rparr>)
          } else if page_from_pool (user_pool st) pages then do {
            p \<leftarrow> free_in_pool (user_pool st) pages page_cnt;
            Some (st'\<lparr>user_pool := p\<rparr>)
          } else None
   }"

definition palloc_free_page :: "u32 \<Rightarrow> pmem \<Rightarrow> pmem option" where
  "palloc_free_page page st = palloc_free_multiple page 1 st"

section \<open>One pool\<close>

text \<open>
  \<open>pool_rep p xs\<close>: the bitmap of \<open>p\<close> stands for \<open>xs\<close>, and the pool lies page aligned in
  the kernel's part of the address space.  \<open>pool_used\<close> are the numbers of the pages in use.
\<close>

definition pool_rep :: "pool \<Rightarrow> bool list \<Rightarrow> bool" where
  "pool_rep p xs \<longleftrightarrow> bm_rep (used_map p) xs \<and> pg_ofs (base p) = 0 \<and> PHYS_BASE \<le> base p
     \<and> unat (pg_no (base p)) + length xs \<le> 2 ^ 20"

definition first_page :: "pool \<Rightarrow> nat" where
  "first_page p = unat (pg_no (base p))"

definition page_at :: "nat \<Rightarrow> u32" where
  "page_at n = of_nat (PGSIZE * n)"

definition pool_used :: "pool \<Rightarrow> nat set" where
  "pool_used p = (+) (first_page p) ` marked (bm_bits (used_map p))"

lemma pool_rep_update: "pool_rep p xs \<Longrightarrow> bm_rep bm ys \<Longrightarrow> length ys = length xs \<Longrightarrow> pool_rep (p\<lparr>used_map := bm\<rparr>) ys"
  by (simp add: pool_rep_def)

lemma pool_used_rep: "pool_rep p xs \<Longrightarrow> pool_used p = (+) (first_page p) ` marked xs"
  by (simp add: pool_rep_def pool_used_def bm_rep_def)

lemma image_plus_span: "(+) k ` span (i, n) = span (k + i, n)"
  by (simp add: span_def ac_simps)

lemma unat_page_at: "n < 2 ^ 20 \<Longrightarrow> unat (page_at n) = 4096 * n"
  by (simp add: page_at_def unat_of_nat del: of_nat_mult)

lemma pg_no_page_at [simp]: "n < 2 ^ 20 \<Longrightarrow> unat (pg_no (page_at n)) = n"
  by (simp add: unat_pg_no unat_page_at)

lemma pg_ofs_page_at [simp]: "n < 2 ^ 20 \<Longrightarrow> pg_ofs (page_at n) = 0"
  by (simp add: pg_ofs_0_iff unat_page_at)

lemma aligned_page_at: "pg_ofs a = 0 \<Longrightarrow> a = page_at (unat (pg_no a))"
proof -
  assume "pg_ofs a = 0"
  then have "unat a = 4096 * (unat a div 4096)"
    using mult_div_mod_eq [of 4096 "unat a"] by (simp add: pg_ofs_0_iff)
  moreover have "unat (pg_no a) < 2 ^ 20"
    using unsigned_less [of a, where ?'a = nat] by (simp add: unat_pg_no)
  ultimately show ?thesis
    by (simp add: word_unat_eq_iff unat_page_at unat_pg_no)
qed

lemma pool_page:
  assumes "pool_rep p xs" and "i < length xs"
  shows "base p + of_nat (PGSIZE * i) = page_at (first_page p + i)" and "page_at (first_page p + i) \<noteq> 0"
proof -
  have b: "base p = page_at (first_page p)"
    using assms(1) aligned_page_at by (simp add: pool_rep_def first_page_def)
  then show "base p + of_nat (PGSIZE * i) = page_at (first_page p + i)"
    by (simp add: page_at_def algebra_simps)
  have "0 < first_page p"
    using assms(1) div_le_mono [of 3221225472 "unat (base p)" 4096]
    by (simp add: pool_rep_def first_page_def unat_pg_no word_le_nat_alt)
  then show "page_at (first_page p + i) \<noteq> 0"
    using assms unat_page_at [of "first_page p + i"] by (auto simp: pool_rep_def first_page_def)
qed

lemma page_from_pool_iff:
  assumes "pool_rep p xs" and "n < 2 ^ 20"
  shows "page_from_pool p (page_at n) \<longleftrightarrow> first_page p \<le> n \<and> n < first_page p + length xs"
  using assms bm_rep_length [of "used_map p" xs]
  by (auto simp: page_from_pool_def Let_def pool_rep_def first_page_def bitmap_size_def)

text \<open>Handing out and taking back a run of one pool.\<close>

lemma pool_free_run:
  assumes "pool_rep p xs" and "0 < n" and "span (a, n) \<subseteq> pool_used p"
  shows "\<exists>p'. free_in_pool p (page_at a) n = Some p' \<and> base p' = base p \<and> (\<exists>ys. pool_rep p' ys \<and> length ys = length xs)
    \<and> pool_used p' = pool_used p - span (a, n)"
proof -
  let ?i = "a - first_page p"
  have sub: "span (a, n) \<subseteq> (+) (first_page p) ` marked xs"
    using assms(3) pool_used_rep [OF assms(1)] by simp
  have "a \<in> span (a, n)" "a + n - 1 \<in> span (a, n)"
    using assms(2) by (auto simp: span_def)
  then have "first_page p \<le> a" "a + n \<le> first_page p + length xs"
    using sub by (auto simp: marked_def)
  then have a: "a = first_page p + ?i" "?i + n \<le> length xs" by auto
  have used: "run_at xs ?i n True"
    unfolding run_at_used [OF a(2)]
    using sub a(1) by (metis image_plus_span inj_image_subset_iff inj_on_add)
  have bm: "bm_rep (used_map p) xs" and "first_page p + length xs \<le> 2 ^ 20"
    using assms(1) by (auto simp: pool_rep_def first_page_def)
  then have "a < 2 ^ 20" using a assms(2) by simp
  then have idx: "unat (pg_no (page_at a) - pg_no (base p)) = ?i"
    using a(1) by (subst unat_sub) (auto simp: word_le_nat_alt first_page_def)
  obtain bm' where bm': "bitmap_set_multiple (used_map p) ?i n False = Some bm'" "bm_rep bm' (fill xs ?i n False)"
    using bm.release_run [OF bm a(2)] by blast
  have "free_in_pool p (page_at a) n = Some (p\<lparr>used_map := bm'\<rparr>)"
    using used by (simp add: free_in_pool_def idx bitmap_all_def bitmap_contains_rep [OF bm a(2)] bm'(1))
  moreover have rep': "pool_rep (p\<lparr>used_map := bm'\<rparr>) (fill xs ?i n False)"
    using assms(1) bm'(2) by (rule pool_rep_update) simp
  moreover have "pool_used (p\<lparr>used_map := bm'\<rparr>) = pool_used p - span (a, n)"
    unfolding pool_used_rep [OF rep'] pool_used_rep [OF assms(1)]
    using a(1) by (simp add: first_page_def marked_fill_False image_set_diff image_plus_span)
  ultimately show ?thesis by force
qed

lemma pool_get_run:
  assumes "pool_rep p xs" and "0 < n" and "bitmap_scan_and_flip (used_map p) 0 n False = Some (i, bm)"
    and "i \<noteq> BITMAP_ERROR"
  shows "i + n \<le> length xs" and "pool_rep (p\<lparr>used_map := bm\<rparr>) (fill xs i n True)"
    and "pool_used p \<inter> span (first_page p + i, n) = {}"
    and "pool_used (p\<lparr>used_map := bm\<rparr>) = pool_used p \<union> span (first_page p + i, n)"
proof -
  have bm: "bm_rep (used_map p) xs"
    using assms(1) by (simp add: pool_rep_def)
  note sound = bm.alloc_sound [OF bm assms(3,4)]
  show len: "i + n \<le> length xs"
    using sound(1) by (simp add: run_at_def)
  show rep': "pool_rep (p\<lparr>used_map := bm\<rparr>) (fill xs i n True)"
    using assms(1) sound(2) by (rule pool_rep_update) simp
  show "pool_used p \<inter> span (first_page p + i, n) = {}"
    using run_at_free [OF sound(1)]
    by (simp add: pool_used_rep [OF assms(1)] image_Int [symmetric] flip: image_plus_span)
  show "pool_used (p\<lparr>used_map := bm\<rparr>) = pool_used p \<union> span (first_page p + i, n)"
    unfolding pool_used_rep [OF rep'] pool_used_rep [OF assms(1)]
    by (simp add: first_page_def marked_fill_True [OF len] image_Un image_plus_span)
qed

section \<open>Both pools\<close>

definition palloc_ok :: "pmem \<Rightarrow> bool" where
  "palloc_ok st \<longleftrightarrow> pool_rep (kernel_pool st) (bm_bits (used_map (kernel_pool st)))
     \<and> pool_rep (user_pool st) (bm_bits (used_map (user_pool st)))
     \<and> first_page (kernel_pool st) + bit_cnt (used_map (kernel_pool st)) < first_page (user_pool st)"

definition used_pages :: "pmem \<Rightarrow> nat set" where
  "used_pages st = pool_used (kernel_pool st) \<union> pool_used (user_pool st)"

lemma pool_rep_bits: "pool_rep p xs \<Longrightarrow> bm_bits (used_map p) = xs"
  by (simp add: pool_rep_def bm_rep_def)

lemma pool_rep_cnt: "pool_rep p xs \<Longrightarrow> bit_cnt (used_map p) = length xs"
  by (auto simp: pool_rep_def bm_rep_def)

lemma pool_used_bounds: "pool_used p \<subseteq> {first_page p ..< first_page p + bit_cnt (used_map p)}"
  by (auto simp: pool_used_def marked_def)

lemma first_page_update [simp]: "first_page (p\<lparr>used_map := bm\<rparr>) = first_page p"
  by (simp add: first_page_def)

text \<open>What one call does to the pools, whichever pool it uses.\<close>

definition pool_of :: "u32 \<Rightarrow> pmem \<Rightarrow> pool" where
  "pool_of flags st = (if flags AND PAL_USER \<noteq> 0 then user_pool st else kernel_pool st)"

definition with_pool :: "u32 \<Rightarrow> pool \<Rightarrow> pmem \<Rightarrow> pmem" where
  "with_pool flags p st = (if flags AND PAL_USER \<noteq> 0 then st\<lparr>user_pool := p\<rparr> else st\<lparr>kernel_pool := p\<rparr>)"

lemma pool_of_ok: "palloc_ok st \<Longrightarrow> pool_rep (pool_of flags st) (bm_bits (used_map (pool_of flags st)))"
  by (simp add: palloc_ok_def pool_of_def)

lemma with_pool_ok:
  assumes "palloc_ok st" and "pool_rep p ys" and "length ys = bit_cnt (used_map (pool_of flags st))"
    and "base p = base (pool_of flags st)"
  shows "palloc_ok (with_pool flags p st)"
  using assms pool_rep_bits [OF assms(2)] pool_rep_cnt [OF assms(2)]
  by (auto simp: palloc_ok_def with_pool_def pool_of_def first_page_def split: if_splits)

lemma with_pool_used:
  assumes "palloc_ok st" and "span r \<subseteq> {first_page (pool_of flags st)
      ..< first_page (pool_of flags st) + bit_cnt (used_map (pool_of flags st))}"
  shows "used_pages st \<inter> span r = pool_used (pool_of flags st) \<inter> span r"
    and "pool_used p = pool_used (pool_of flags st) \<union> span r
      \<Longrightarrow> used_pages (with_pool flags p st) = used_pages st \<union> span r"
    and "pool_used p = pool_used (pool_of flags st) - span r
      \<Longrightarrow> used_pages (with_pool flags p st) = used_pages st - span r"
  using assms pool_used_bounds [of "kernel_pool st"] pool_used_bounds [of "user_pool st"]
  by (fastforce simp: palloc_ok_def used_pages_def with_pool_def pool_of_def split: if_splits)+

lemma ram_update_ok [simp]:
  "palloc_ok (st\<lparr>ram := m\<rparr>) = palloc_ok st" "used_pages (st\<lparr>ram := m\<rparr>) = used_pages st"
  by (simp_all add: palloc_ok_def used_pages_def)

text \<open>
  The two outcomes of a request.  \<open>palloc_room\<close> says that the pool has a run of
  \<open>n\<close> free pages.
\<close>

definition palloc_room :: "u32 \<Rightarrow> nat \<Rightarrow> pmem \<Rightarrow> bool" where
  "palloc_room flags n st \<longleftrightarrow> (\<exists>i < bit_cnt (used_map (pool_of flags st)).
     run_at (bm_bits (used_map (pool_of flags st))) i n False)"

lemma palloc_get_full:
  assumes "palloc_ok st" and "0 < n" and "\<not> palloc_room flags n st"
  shows "palloc_get_multiple flags n st = (if flags AND PAL_ASSERT \<noteq> 0 then None else Some (0, st))"
proof -
  have rep: "bm_rep (used_map (pool_of flags st)) (bm_bits (used_map (pool_of flags st)))"
    using pool_of_ok [OF assms(1)] by (simp add: pool_rep_def)
  have "\<forall>i. \<not> run_at (bm_bits (used_map (pool_of flags st))) i n False"
    using assms(2,3) by (auto simp: palloc_room_def run_at_def)
  then have "bitmap_scan_and_flip (used_map (pool_of flags st)) 0 n False
      = Some (BITMAP_ERROR, used_map (pool_of flags st))"
    using bm.alloc_full [OF rep] by blast
  then show ?thesis
    using assms(2) by (auto simp: palloc_get_multiple_def pool_of_def Let_def split: if_splits)
qed

lemma palloc_get_room:
  assumes "palloc_ok st" and "0 < n" and "palloc_room flags n st"
  obtains a st' where "palloc_get_multiple flags n st = Some (page_at a, st')" and "page_at a \<noteq> 0"
    and "a + n \<le> 2 ^ 20" and "palloc_ok st'" and "used_pages st \<inter> span (a, n) = {}"
    and "used_pages st' = used_pages st \<union> span (a, n)"
    and "ram st' = (if flags AND PAL_ZERO \<noteq> 0 then set_bytes (ram st) (page_at a) 0 (PGSIZE * n) else ram st)"
    and "PHYS_BASE \<le> page_at a"
proof -
  let ?p = "pool_of flags st" and ?xs = "bm_bits (used_map (pool_of flags st))"
  note rep = pool_of_ok [OF assms(1), of flags]
  then have bm: "bm_rep (used_map ?p) ?xs" by (simp add: pool_rep_def)
  obtain i bm' where got: "bitmap_scan_and_flip (used_map ?p) 0 n False = Some (i, bm')" "i \<noteq> BITMAP_ERROR"
    using bm.alloc_total [OF bm, of n] assms(3) unfolding palloc_room_def by metis
  note run = pool_get_run [OF rep assms(2) got]
  let ?a = "first_page ?p + i" and ?st = "with_pool flags (?p\<lparr>used_map := bm'\<rparr>) st"
  have i: "i < length ?xs" using run(1) assms(2) by simp
  note page = pool_page [OF rep i]
  have sp: "span (?a, n) \<subseteq> {first_page ?p ..< first_page ?p + bit_cnt (used_map ?p)}"
    using run(1) by (auto simp: span_def)
  note used = with_pool_used [OF assms(1) sp]
  define st' where "st' = (if flags AND PAL_ZERO \<noteq> 0
      then ?st\<lparr>ram := set_bytes (ram st) (page_at ?a) 0 (PGSIZE * n)\<rparr> else ?st)"
  have "palloc_get_multiple flags n st = Some (page_at ?a, st')"
    using assms(2) got page
    by (auto simp: palloc_get_multiple_def pool_of_def with_pool_def st'_def Let_def simp del: PGSIZE_eq)
  moreover have "?a + n \<le> 2 ^ 20"
    using rep run(1) by (simp add: pool_rep_def first_page_def)
  moreover have "PHYS_BASE \<le> page_at ?a"
    using rep i div_le_mono [of 3221225472 "unat (base ?p)" 4096]
    by (simp add: pool_rep_def word_le_nat_alt unat_page_at first_page_def unat_pg_no)
  moreover have "palloc_ok st'"
    using with_pool_ok [OF assms(1) run(2)] by (simp add: st'_def)
  moreover have "used_pages st' = used_pages st \<union> span (?a, n)"
    using used(2) [OF run(4)] by (simp add: st'_def)
  moreover have "used_pages st \<inter> span (?a, n) = {}"
    using run(3) used(1) by simp
  moreover have "ram st' = (if flags AND PAL_ZERO \<noteq> 0 then set_bytes (ram st) (page_at ?a) 0 (PGSIZE * n) else ram st)"
    by (simp add: st'_def with_pool_def)
  ultimately show ?thesis
    using page(2) by (intro that [of ?a st'])
qed

lemma palloc_free_used:
  assumes "palloc_ok st" and "0 < n" and "span (a, n) \<subseteq> pool_used (pool_of flags st)"
  shows "\<exists>st'. palloc_free_multiple (page_at a) n st = Some st' \<and> palloc_ok st'
    \<and> used_pages st' = used_pages st - span (a, n)"
proof -
  let ?p = "pool_of flags st"
  note rep = pool_of_ok [OF assms(1), of flags]
  obtain p' ys where p': "free_in_pool ?p (page_at a) n = Some p'" "base p' = base ?p" "pool_rep p' ys"
      "length ys = bit_cnt (used_map ?p)" "pool_used p' = pool_used ?p - span (a, n)"
    using pool_free_run [OF rep assms(2,3)] by auto
  have sp: "span (a, n) \<subseteq> {first_page ?p ..< first_page ?p + bit_cnt (used_map ?p)}"
    using assms(3) pool_used_bounds [of ?p] by (rule order_trans)
  then have a: "first_page ?p \<le> a" "a < first_page ?p + bit_cnt (used_map ?p)"
    using assms(2) by (auto simp: span_def)
  then have "a < 2 ^ 20" using rep by (simp add: pool_rep_def first_page_def)
  have "page_at a \<noteq> 0"
    using pool_page(2) [OF rep, of "a - first_page ?p"] a by simp
  moreover have "page_from_pool (kernel_pool st) (page_at a) \<longleftrightarrow> flags AND PAL_USER = 0"
      and "flags AND PAL_USER \<noteq> 0 \<Longrightarrow> page_from_pool (user_pool st) (page_at a)"
    using a \<open>a < 2 ^ 20\<close> assms(1)
    by (auto simp: palloc_ok_def pool_of_def page_from_pool_iff split: if_splits)
  ultimately have "palloc_free_multiple (page_at a) n st
      = Some (with_pool flags p' (st\<lparr>ram := set_bytes (ram st) (page_at a) 0xcc (PGSIZE * n)\<rparr>))"
    using assms(2) p'(1) \<open>a < 2 ^ 20\<close>
    by (auto simp: palloc_free_multiple_def with_pool_def pool_of_def Let_def)
  moreover have "palloc_ok (with_pool flags p' (st\<lparr>ram := m\<rparr>))" for m
    by (rule with_pool_ok [OF _ p'(3)]) (use assms(1) p' in \<open>simp_all add: pool_of_def\<close>)
  moreover have "used_pages (with_pool flags p' (st\<lparr>ram := m\<rparr>)) = used_pages st - span (a, n)" for m
    using with_pool_used(3) [OF assms(1) sp p'(5)]
    by (simp add: with_pool_def used_pages_def split: if_splits)
  ultimately show ?thesis by blast
qed

section \<open>Initialisation\<close>

lemma bitmap_buf_size_small: "n \<le> 2 ^ 20 \<Longrightarrow> bitmap_buf_size n = 8 + 4 * ((n + 31) div 32)"
  by (simp add: bitmap_buf_size_def byte_cnt_def elem_cnt_def)

definition bm_pages :: "nat \<Rightarrow> nat" where
  "bm_pages n = DIV_ROUND_UP (bitmap_buf_size n) PGSIZE"

lemma bm_pages_bounds:
  assumes "0 < n" and "n \<le> 2 ^ 20"
  shows "0 < bm_pages n" and "bm_pages n \<le> n" and "bm_pages n * 4096 < 2 ^ 30"
    and "bitmap_buf_size n \<le> bm_pages n * 4096"
  using assms DIV_ROUND_UP_ge [of 4096 "bitmap_buf_size n"]
  by (simp_all add: bm_pages_def DIV_ROUND_UP_def bitmap_buf_size_small)

lemma bm_pages_elems:
  assumes "0 < n" and "n \<le> 2 ^ 20"
  shows "elem_cnt (n - bm_pages n) \<le> (bm_pages n * 4096 - 8) div 4"
proof -
  have "elem_cnt (n - bm_pages n) = (n - bm_pages n + 31) div 32"
    using assms(2) by (simp add: elem_cnt_def)
  also have "\<dots> \<le> (n + 31) div 32" by (rule div_le_mono) simp
  also have "\<dots> \<le> (bm_pages n * 4096 - 8) div 4"
    using bm_pages_bounds(4) [OF assms] bitmap_buf_size_small [OF assms(2)] by linarith
  finally show ?thesis .
qed

lemma init_pool_ok:
  assumes "0 < n" and "PHYS_BASE \<le> page_at f" and "f + n < 2 ^ 20"
  shows "\<exists>p. init_pool m (page_at f) n = Some p \<and> pool_rep p (replicate (n - bm_pages n) False)
    \<and> first_page p = f + bm_pages n"
proof -
  let ?k = "bm_pages n" and ?m = "words_at m (page_at f + 8) ((bm_pages n * 4096 - 8) div 4)"
  have n: "n \<le> 2 ^ 20" using assms(3) by simp
  note k = bm_pages_bounds [OF assms(1) n]
  have "bitmap_buf_size (n - ?k) \<le> bitmap_buf_size n"
    using n by (simp add: bitmap_buf_size_small div_le_mono)
  moreover have "n - ?k + 32 \<le> 2 ^ 32" using n by simp
  ultimately obtain bm where bm: "bitmap_create_in_buf (n - ?k) ?m (?k * 4096) = Some bm"
      "bm_rep bm (replicate (n - ?k) False)"
    using bitmap_create_in_buf_rep [of "n - ?k" ?m "?k * 4096"] bm_pages_elems [OF assms(1) n] k(4)
    by (auto simp: words_at_def)
  have base: "page_at f + of_nat (?k * 4096) = page_at (f + ?k)"
    by (simp add: page_at_def algebra_simps)
  let ?p = "\<lparr>used_map = bm, base = page_at (f + ?k)\<rparr>"
  have "wrap32 (bitmap_buf_size n + 4096 - 1) div 4096 = ?k"
    using n by (simp add: bm_pages_def DIV_ROUND_UP_def bitmap_buf_size_small)
  then have "init_pool m (page_at f) n = Some ?p"
    using bm k base by (simp add: init_pool_def Let_def del: of_nat_mult)
  moreover have fp: "first_page ?p = f + ?k"
    using assms(3) k(2) by (simp add: first_page_def)
  moreover have "PHYS_BASE \<le> page_at (f + ?k)"
    using assms(2,3) k(2) by (simp add: word_le_nat_alt unat_page_at)
  ultimately show ?thesis
    using bm(2) assms(3) k(2) by (simp add: pool_rep_def)
qed

lemma free_pages_eq:
  assumes "256 \<le> unat ram_pages" and "unat ram_pages < 2 ^ 18"
  shows "unat (word_of_int (sint (ram_pages * of_nat PGSIZE + PHYS_BASE - page_at 786688) sdiv int PGSIZE) :: u32)
    = unat ram_pages - 256"
proof -
  obtain k where k: "unat ram_pages = 256 + k" using assms(1) le_Suc_ex by blast
  have "ram_pages = of_nat (256 + k)" by (simp flip: k)
  then have "ram_pages * of_nat PGSIZE + PHYS_BASE - page_at 786688 = word_of_int (int (4096 * k))"
    by (simp add: PHYS_BASE_def page_at_def algebra_simps)
  then have "sint (ram_pages * of_nat PGSIZE + PHYS_BASE - page_at 786688) = int (4096 * k)"
    using assms(2) k by (simp only: signed_of_int) (simp add: signed_take_bit_int_eq_self)
  moreover have "int (4096 * k) sdiv int PGSIZE = int k"
    by (simp add: signed_divide_int_def sgn_if)
  ultimately show ?thesis
    using assms(2) k by (simp only: of_int_of_nat_eq unat_of_nat) simp
qed

definition kernel_page_cnt :: "nat \<Rightarrow> nat \<Rightarrow> nat" where
  "kernel_page_cnt ram_pages limit =
     (let free = ram_pages - 256; kernel = free - min (free div 2) limit in kernel - bm_pages kernel)"

text \<open>
  With at least 258 pages of memory (the first megabyte, and a page for each pool), less than
  a gigabyte, and at least one user page, both pools come up disjoint and empty.
\<close>

lemma palloc_init_ok:
  assumes "258 \<le> unat ram_pages" and "unat ram_pages < 2 ^ 18" and "0 < limit"
  shows "\<exists>st. palloc_init m ram_pages limit = Some st \<and> palloc_ok st \<and> used_pages st = {}
    \<and> bit_cnt (used_map (kernel_pool st)) = kernel_page_cnt (unat ram_pages) limit"
proof -
  define free where "free = unat ram_pages - 256"
  define user where "user = (if free div 2 > limit then limit else free div 2)"
  define kernel where "kernel = free - user"
  have "user = min (free div 2) limit" by (simp add: user_def min_def)
  then have cnt: "kernel_page_cnt (unat ram_pages) limit = kernel - bm_pages kernel"
    by (simp add: kernel_page_cnt_def Let_def kernel_def flip: free_def)
  have start: "ptov (1024 * 1024) = Some (page_at 786688)"
    by (simp add: ptov_def PHYS_BASE_def page_at_def)
  have "unat (ram_pages * of_nat PGSIZE) = unat ram_pages * 4096"
    using assms(2) by (subst unat_mult_lem [THEN iffD1]) auto
  then have fend: "ptov (ram_pages * of_nat PGSIZE) = Some (ram_pages * of_nat PGSIZE + PHYS_BASE)"
    using assms(2) by (simp add: ptov_def word_less_nat_alt)
  have sizes: "0 < user" "0 < kernel" "786688 + kernel + user < 2 ^ 20"
    using assms by (auto simp: kernel_def user_def free_def)
  have base: "PHYS_BASE \<le> page_at f" if "786688 \<le> f" "f < 2 ^ 20" for f
    using that by (simp add: word_le_nat_alt unat_page_at)
  obtain kp where kp: "init_pool m (page_at 786688) kernel = Some kp"
      "pool_rep kp (replicate (kernel - bm_pages kernel) False)" "first_page kp = 786688 + bm_pages kernel"
    using init_pool_ok [OF sizes(2) base, of 786688 m] sizes by auto
  obtain up where up: "init_pool m (page_at (786688 + kernel)) user = Some up"
      "pool_rep up (replicate (user - bm_pages user) False)" "first_page up = 786688 + kernel + bm_pages user"
    using init_pool_ok [OF sizes(1) base, of "786688 + kernel" m] sizes by auto
  have "page_at 786688 + of_nat (kernel * PGSIZE) = page_at (786688 + kernel)"
    by (simp add: page_at_def algebra_simps)
  then have "palloc_init m ram_pages limit = Some \<lparr>kernel_pool = kp, user_pool = up, ram = m\<rparr>"
    using kp(1) up(1) free_pages_eq [of ram_pages] assms(1,2) start fend
    by (simp add: palloc_init_def Let_def del: PGSIZE_eq flip: free_def user_def kernel_def cong: if_cong split del: if_split)
  moreover have "bm_pages kernel \<le> kernel" "0 < bm_pages user"
    using bm_pages_bounds(2) [OF sizes(2)] bm_pages_bounds(1) [OF sizes(1)] sizes(3) by simp_all
  ultimately show ?thesis
    using kp(2,3) up(2,3) pool_rep_bits [OF kp(2)] pool_rep_bits [OF up(2)] pool_rep_cnt [OF kp(2)]
      pool_rep_cnt [OF up(2)]
    by (simp add: palloc_ok_def used_pages_def pool_used_def marked_def cnt)
qed

section \<open>Histories of calls\<close>

text \<open>
  \<open>palloc_reach st R\<close>: the allocator is in state \<open>st\<close> after some history of calls, and \<open>R\<close>
  lists the runs (number of the first page, number of pages) that were handed out and not
  yet given back.  Callers may write to memory at any time, and give back only runs they
  hold.
\<close>

inductive palloc_reach :: "pmem \<Rightarrow> (nat \<times> nat) list \<Rightarrow> bool" where
  init: "palloc_init m ram_pages limit = Some st \<Longrightarrow> 258 \<le> unat ram_pages \<Longrightarrow> unat ram_pages < 2 ^ 18
    \<Longrightarrow> 0 < limit \<Longrightarrow> palloc_reach st []"
| get: "palloc_reach st R \<Longrightarrow> palloc_get_multiple flags n st = Some (pages, st') \<Longrightarrow> pages \<noteq> 0
    \<Longrightarrow> palloc_reach st' ((unat (pg_no pages), n) # R)"
| get_null: "palloc_reach st R \<Longrightarrow> palloc_get_multiple flags n st = Some (0, st') \<Longrightarrow> palloc_reach st' R"
| free: "palloc_reach st R \<Longrightarrow> (a, n) \<in> set R \<Longrightarrow> palloc_free_multiple (page_at a) n st = Some st'
    \<Longrightarrow> palloc_reach st' (remove1 (a, n) R)"
| poke: "palloc_reach st R \<Longrightarrow> palloc_reach (st\<lparr>ram := m\<rparr>) R"

lemma used_in_one_pool:
  assumes "palloc_ok st" and "span (a, n) \<subseteq> used_pages st"
  shows "\<exists>flags. span (a, n) \<subseteq> pool_used (pool_of flags st)"
proof (cases "span (a, n) \<subseteq> pool_used (user_pool st)")
  case True
  then show ?thesis
    by (intro exI [of _ PAL_USER]) (simp add: pool_of_def PAL_USER_def)
next
  case False
  let ?gap = "first_page (kernel_pool st) + bit_cnt (used_map (kernel_pool st))"
  have k: "pool_used (kernel_pool st) \<subseteq> {..< ?gap}" and u: "pool_used (user_pool st) \<subseteq> {?gap <..}"
    using assms(1) pool_used_bounds [of "kernel_pool st"] pool_used_bounds [of "user_pool st"]
    by (auto simp: palloc_ok_def)
  obtain x where x: "x \<in> span (a, n)" "x \<notin> pool_used (user_pool st)"
    using False by blast
  then have "x < ?gap" using assms(2) k by (auto simp: used_pages_def)
  moreover have "?gap \<notin> span (a, n)" using assms(2) k u by (auto simp: used_pages_def)
  ultimately have "span (a, n) \<subseteq> {..< ?gap}"
    using x(1) by (auto simp: span_def)
  then have "span (a, n) \<subseteq> pool_used (kernel_pool st)"
    using assms(2) u by (fastforce simp: used_pages_def)
  then show ?thesis
    by (intro exI [of _ 0]) (simp add: pool_of_def)
qed

lemma palloc_free_run:
  assumes "palloc_ok st" and "span (a, n) \<subseteq> used_pages st" and "0 < n"
  shows "\<exists>st'. palloc_free_multiple (page_at a) n st = Some st' \<and> palloc_ok st'
    \<and> used_pages st' = used_pages st - span (a, n)"
  using used_in_one_pool [OF assms(1,2)] palloc_free_used [OF assms(1,3)] by blast

lemma palloc_get_cases:
  assumes "palloc_ok st" and "palloc_get_multiple flags n st = Some (pages, st')"
  obtains (null) "pages = 0" "st' = st"
  | (pages) a where "0 < n" "pages = page_at a" "pages \<noteq> 0" "a + n \<le> 2 ^ 20" "palloc_ok st'"
      "used_pages st \<inter> span (a, n) = {}" "used_pages st' = used_pages st \<union> span (a, n)"
proof (cases "n = 0")
  case True
  then show ?thesis using assms(2) null by (simp add: palloc_get_multiple_def Let_def)
next
  case False
  show ?thesis
  proof (cases "palloc_room flags n st")
    case True
    then show ?thesis
      using palloc_get_room [OF assms(1), of n flags] assms(2) False pages by (metis not_gr_zero option.inject prod.inject)
  next
    case no: False
    then show ?thesis
      using palloc_get_full [OF assms(1), of n flags] assms(2) False null by (auto split: if_splits)
  qed
qed

lemma palloc_reach_inv:
  assumes "palloc_reach st R"
  shows "palloc_ok st \<and> tiles (used_pages st) R \<and> (\<forall>r \<in> set R. 0 < snd r)"
  using assms
proof induction
  case (init m ram_pages limit st)
  then show ?case using palloc_init_ok [of ram_pages limit m] by simp
next
  case (get st R flags n pages st')
  then show ?case
    by (elim palloc_get_cases [of st flags n pages st', rotated]) (auto intro: tiles_add)
next
  case (get_null st R flags n st')
  then show ?case
    by (elim palloc_get_cases [of st flags n 0 st', rotated]) auto
next
  case (free st R a n st')
  then have "0 < n" "span (a, n) \<subseteq> used_pages st"
    by (auto dest: tiles_member)
  then show ?case
    using free palloc_free_run [of st a n] tiles_remove [of "used_pages st" R "(a, n)"]
    by (auto dest: notin_set_remove1)
next
  case (poke st R m)
  then show ?case by simp
qed

lemma palloc_room_empty:
  assumes "palloc_ok st" and "used_pages st = {}" and "0 < n" and "n \<le> bit_cnt (used_map (kernel_pool st))"
  shows "palloc_room 0 n st"
proof -
  have "\<forall>k < bit_cnt (used_map (kernel_pool st)). \<not> bm_bits (used_map (kernel_pool st)) ! k"
    using assms(2) by (simp add: used_pages_def pool_used_def marked_def)
  then have "run_at (bm_bits (used_map (kernel_pool st))) 0 n False"
    using assms(4) by (simp add: run_at_def)
  then show ?thesis
    unfolding palloc_room_def using assms(3,4) by (intro exI [of _ 0]) (simp add: pool_of_def)
qed

lemma palloc_reach_example: "\<exists>st a. palloc_reach st [(a, 3)]"
proof -
  have cnt: "kernel_page_cnt 1024 1000 = 383"
    by (simp add: kernel_page_cnt_def Let_def bm_pages_def DIV_ROUND_UP_def bitmap_buf_size_small)
  obtain st where st: "palloc_init (\<lambda>_. 0) 1024 1000 = Some st" "palloc_ok st" "used_pages st = {}"
      "bit_cnt (used_map (kernel_pool st)) = 383"
    using palloc_init_ok [of 1024 1000 "\<lambda>_. 0"] cnt by auto
  then have "palloc_reach st []" by (intro palloc_reach.init) auto
  moreover obtain a st' where "palloc_get_multiple 0 3 st = Some (page_at a, st')" "page_at a \<noteq> 0"
    by (rule palloc_get_room [of st 3 0]) (use st palloc_room_empty [of st 3] in auto)
  ultimately show ?thesis by (blast intro: palloc_reach.get)
qed

section \<open>Properties\<close>

text \<open>
  C2: whatever the history of calls, the pages in use are exactly the runs that are handed
  out and not yet given back, no two of these runs share a page, and giving back any of them
  neither panics nor frees a page of another run.
\<close>

theorem palloc_runs_disjoint:
  assumes "palloc_reach st R"
  shows "used_pages st = \<Union> (span ` set R) \<and> sorted_wrt (\<lambda>r r'. span r \<inter> span r' = {}) R
    \<and> card (used_pages st) = sum_list (map snd R)
    \<and> (\<forall>(a, n) \<in> set R. \<exists>st'. palloc_free_multiple (page_at a) n st = Some st'
         \<and> used_pages st' = used_pages st - span (a, n))"
proof -
  have ok: "palloc_ok st" and tiles: "tiles (used_pages st) R" and pos: "\<forall>r \<in> set R. 0 < snd r"
    using palloc_reach_inv [OF assms] by auto
  have "\<exists>st'. palloc_free_multiple (page_at a) n st = Some st' \<and> used_pages st' = used_pages st - span (a, n)"
    if "(a, n) \<in> set R" for a n
    using palloc_free_run [OF ok tiles_member [OF tiles that]] pos that by fastforce
  then show ?thesis
    using tiles tiles_card [OF tiles] by (auto simp: tiles_def)
qed

theorem palloc_runs_disjoint_witness:
  "\<exists>st a. palloc_reach st [(a, 3)] \<and> card (used_pages st) = 3
    \<and> (\<exists>st'. palloc_free_multiple (page_at a) 3 st = Some st' \<and> used_pages st' = {})"
proof -
  obtain st a where "palloc_reach st [(a, 3)]" using palloc_reach_example by blast
  with palloc_runs_disjoint [OF this] show ?thesis
    by (intro exI [of _ st] exI [of _ a]) (auto simp: span_def)
qed

text \<open>
  C28: a request for pages.  If the chosen pool has a long enough run of free pages, the
  result is a page-aligned kernel address, its pages were free and are now in use, no other
  page changes its status, and the memory is zeroed exactly there if so asked.  Otherwise
  the kernel panics if \<open>PAL_ASSERT\<close> is given, and returns a null pointer and changes nothing
  if it is not.
\<close>

theorem palloc_get_multiple_correct:
  assumes "palloc_ok st" and "0 < n"
  shows "if palloc_room flags n st
    then \<exists>a st'. palloc_get_multiple flags n st = Some (page_at a, st') \<and> palloc_ok st'
      \<and> PHYS_BASE \<le> page_at a \<and> a + n \<le> 2 ^ 20 \<and> used_pages st \<inter> span (a, n) = {}
      \<and> used_pages st' = used_pages st \<union> span (a, n)
      \<and> ram st' = (if flags AND PAL_ZERO \<noteq> 0 then set_bytes (ram st) (page_at a) 0 (PGSIZE * n) else ram st)
    else palloc_get_multiple flags n st = (if flags AND PAL_ASSERT \<noteq> 0 then None else Some (0, st))"
proof (cases "palloc_room flags n st")
  case True
  then obtain a st' where "palloc_get_multiple flags n st = Some (page_at a, st')" "palloc_ok st'"
      "PHYS_BASE \<le> page_at a" "a + n \<le> 2 ^ 20" "used_pages st \<inter> span (a, n) = {}"
      "used_pages st' = used_pages st \<union> span (a, n)"
      "ram st' = (if flags AND PAL_ZERO \<noteq> 0 then set_bytes (ram st) (page_at a) 0 (PGSIZE * n) else ram st)"
    by (rule palloc_get_room [OF assms])
  then show ?thesis
    by (simp only: True if_True) blast
next
  case False
  then show ?thesis
    using palloc_get_full [OF assms] by simp
qed

definition example_pmem :: pmem where
  "example_pmem = \<lparr>kernel_pool = \<lparr>used_map = \<lparr>bit_cnt = 4, bits = [5]\<rparr>, base = 0xc0100000\<rparr>,
     user_pool = \<lparr>used_map = \<lparr>bit_cnt = 4, bits = [5]\<rparr>, base = 0xc0200000\<rparr>, ram = (\<lambda>_. 0)\<rparr>"

lemma example_pmem_ok: "palloc_ok example_pmem"
  using bm_rep_example
  by (simp add: example_pmem_def palloc_ok_def pool_rep_def bm_rep_def pg_ofs_0_iff PHYS_BASE_def
      unat_pg_no first_page_def)

lemma example_pmem_room: "palloc_room flags 1 example_pmem"
  using bm_rep_example
  by (auto simp: palloc_room_def pool_of_def example_pmem_def bm_rep_def run_at_def intro!: exI [of _ 1])

theorem palloc_get_multiple_correct_witness:
  "\<exists>a st'. palloc_get_multiple 0 1 example_pmem = Some (page_at a, st')
    \<and> used_pages st' = used_pages example_pmem \<union> span (a, 1)"
proof -
  show ?thesis
    using example_pmem_room [of 0] palloc_get_multiple_correct [OF example_pmem_ok, of 1 0] by auto
qed

end
