(* ===== verification/Pagedir.thy ===== *)
theory Pagedir
  imports Palloc
begin

text \<open>
  userprog/pagedir.c: page directories and page tables in memory.  A directory is a page of
  1024 entries; the table for an address is reached through \<open>pd_no\<close>, the entry in it through
  \<open>pt_no\<close>.  The state \<open>vm\<close> has the page allocator with the memory, the kernel's own
  directory \<open>init_page_dir\<close>, the size of the machine, the register \<open>cr3\<close>, and the translation
  lookaside buffer, which loading \<open>cr3\<close> empties.
\<close>

record vm =
  pm :: pmem
  init_page_dir :: u32
  init_ram_pages :: u32
  cr3 :: u32
  tlb :: "u32 \<Rightarrow> u32 option"

abbreviation vram :: "vm \<Rightarrow> kmem" where
  "vram s \<equiv> ram (pm s)"

definition set_word :: "u32 \<Rightarrow> u32 \<Rightarrow> vm \<Rightarrow> vm" where
  "set_word a v s = s\<lparr>pm := (pm s)\<lparr>ram := st32 (vram s) a v\<rparr>\<rparr>"

definition pagedir_create :: "vm \<Rightarrow> (u32 \<times> vm) option" where
  "pagedir_create s = do {
     (pd, p) \<leftarrow> palloc_get_page 0 (pm s);
     if pd \<noteq> 0 then Some (pd, s\<lparr>pm := p\<lparr>ram := copy_bytes (ram p) pd (init_page_dir s) PGSIZE\<rparr>\<rparr>)
     else Some (pd, s\<lparr>pm := p\<rparr>)
   }"

definition lookup_page :: "u32 \<Rightarrow> u32 \<Rightarrow> bool \<Rightarrow> vm \<Rightarrow> (u32 \<times> vm) option" where
  "lookup_page pd vaddr create s = do {
     ASSERT (pd \<noteq> 0);
     ASSERT (\<not> create \<or> is_user_vaddr vaddr);
     let pde = pd + 4 * pd_no vaddr;
     if ld32 (vram s) pde = 0 then
       if create then do {
         (pt, p) \<leftarrow> palloc_get_page PAL_ZERO (pm s);
         if pt = 0 then Some (0, s\<lparr>pm := p\<rparr>)
         else do {
           e \<leftarrow> pde_create pt;
           let s' = set_word pde e (s\<lparr>pm := p\<rparr>);
           pt' \<leftarrow> pde_get_pt (ld32 (vram s') pde);
           Some (pt' + 4 * pt_no vaddr, s')
         }
       } else Some (0, s)
     else do {
       pt \<leftarrow> pde_get_pt (ld32 (vram s) pde);
       Some (pt + 4 * pt_no vaddr, s)
     }
   }"

definition pagedir_set_page :: "u32 \<Rightarrow> u32 \<Rightarrow> u32 \<Rightarrow> bool \<Rightarrow> vm \<Rightarrow> (bool \<times> vm) option" where
  "pagedir_set_page pd upage kpage writable s = do {
     ASSERT (pg_ofs upage = 0);
     ASSERT (pg_ofs kpage = 0);
     ASSERT (is_user_vaddr upage);
     pa \<leftarrow> vtop kpage;
     ASSERT (drop_bit PTSHIFT pa < init_ram_pages s);
     ASSERT (pd \<noteq> init_page_dir s);
     (pte, s') \<leftarrow> lookup_page pd upage True s;
     if pte \<noteq> 0 then do {
       ASSERT (ld32 (vram s') pte AND PTE_P = 0);
       e \<leftarrow> pte_create_user kpage writable;
       Some (True, set_word pte e s')
     } else Some (False, s')
   }"

definition pagedir_get_page :: "u32 \<Rightarrow> u32 \<Rightarrow> vm \<Rightarrow> (u32 \<times> vm) option" where
  "pagedir_get_page pd uaddr s = do {
     ASSERT (is_user_vaddr uaddr);
     (pte, s') \<leftarrow> lookup_page pd uaddr False s;
     if pte \<noteq> 0 \<and> ld32 (vram s') pte AND PTE_P \<noteq> 0 then do {
       page \<leftarrow> pte_get_page (ld32 (vram s') pte);
       Some (page + pg_ofs uaddr, s')
     } else Some (0, s')
   }"

definition active_pd :: "vm \<Rightarrow> u32 option" where
  "active_pd s = ptov (cr3 s)"

definition pagedir_activate :: "u32 \<Rightarrow> vm \<Rightarrow> vm option" where
  "pagedir_activate pd s = do {
     pa \<leftarrow> vtop (if pd = 0 then init_page_dir s else pd);
     Some (s\<lparr>cr3 := pa, tlb := (\<lambda>_. None)\<rparr>)
   }"

definition invalidate_pagedir :: "u32 \<Rightarrow> vm \<Rightarrow> vm option" where
  "invalidate_pagedir pd s = do {
     a \<leftarrow> active_pd s;
     if a = pd then pagedir_activate pd s else Some s
   }"

definition pagedir_clear_page :: "u32 \<Rightarrow> u32 \<Rightarrow> vm \<Rightarrow> vm option" where
  "pagedir_clear_page pd upage s = do {
     ASSERT (pg_ofs upage = 0);
     ASSERT (is_user_vaddr upage);
     (pte, s') \<leftarrow> lookup_page pd upage False s;
     if pte \<noteq> 0 \<and> ld32 (vram s') pte AND PTE_P \<noteq> 0
     then invalidate_pagedir pd (set_word pte (ld32 (vram s') pte AND NOT PTE_P) s')
     else Some s'
   }"

definition pagedir_is_dirty :: "u32 \<Rightarrow> u32 \<Rightarrow> vm \<Rightarrow> bool option" where
  "pagedir_is_dirty pd vpage s = do {
     (pte, s') \<leftarrow> lookup_page pd vpage False s;
     Some (pte \<noteq> 0 \<and> ld32 (vram s') pte AND PTE_D \<noteq> 0)
   }"

definition pagedir_set_dirty :: "u32 \<Rightarrow> u32 \<Rightarrow> bool \<Rightarrow> vm \<Rightarrow> vm option" where
  "pagedir_set_dirty pd vpage dirty s = do {
     (pte, s') \<leftarrow> lookup_page pd vpage False s;
     if pte \<noteq> 0 then
       if dirty then Some (set_word pte (ld32 (vram s') pte OR PTE_D) s')
       else invalidate_pagedir pd (set_word pte (ld32 (vram s') pte AND NOT PTE_D) s')
     else Some s'
   }"

definition pagedir_is_accessed :: "u32 \<Rightarrow> u32 \<Rightarrow> vm \<Rightarrow> bool option" where
  "pagedir_is_accessed pd vpage s = do {
     (pte, s') \<leftarrow> lookup_page pd vpage False s;
     Some (pte \<noteq> 0 \<and> ld32 (vram s') pte AND PTE_A \<noteq> 0)
   }"

definition pagedir_set_accessed :: "u32 \<Rightarrow> u32 \<Rightarrow> bool \<Rightarrow> vm \<Rightarrow> vm option" where
  "pagedir_set_accessed pd vpage accessed s = do {
     (pte, s') \<leftarrow> lookup_page pd vpage False s;
     if pte \<noteq> 0 then
       if accessed then Some (set_word pte (ld32 (vram s') pte OR PTE_A) s')
       else invalidate_pagedir pd (set_word pte (ld32 (vram s') pte AND NOT PTE_A) s')
     else Some s'
   }"

text \<open>
  \<open>pagedir_destroy\<close>, with the frame table of vm/frame.c as a second state: for each present
  entry the page is freed and \<open>free_frame\<close> is called with the same (kernel) address.
\<close>

fun destroy_ptes :: "(u32 \<Rightarrow> 'f \<Rightarrow> 'f option) \<Rightarrow> nat \<Rightarrow> u32 \<Rightarrow> vm \<Rightarrow> 'f \<Rightarrow> (vm \<times> 'f) option" where
  "destroy_ptes free_frame 0 pte s f = Some (s, f)"
| "destroy_ptes free_frame (Suc n) pte s f =
     (if ld32 (vram s) pte AND PTE_P \<noteq> 0 then do {
        page \<leftarrow> pte_get_page (ld32 (vram s) pte);
        p \<leftarrow> palloc_free_page page (pm s);
        let s' = s\<lparr>pm := p\<rparr>;
        page' \<leftarrow> pte_get_page (ld32 (vram s') pte);
        f' \<leftarrow> free_frame page' f;
        destroy_ptes free_frame n (pte + 4) s' f'
      } else destroy_ptes free_frame n (pte + 4) s f)"

fun destroy_pdes :: "(u32 \<Rightarrow> 'f \<Rightarrow> 'f option) \<Rightarrow> nat \<Rightarrow> u32 \<Rightarrow> vm \<Rightarrow> 'f \<Rightarrow> (vm \<times> 'f) option" where
  "destroy_pdes free_frame 0 pde s f = Some (s, f)"
| "destroy_pdes free_frame (Suc n) pde s f =
     (if ld32 (vram s) pde AND PTE_P \<noteq> 0 then do {
        pt \<leftarrow> pde_get_pt (ld32 (vram s) pde);
        (s', f') \<leftarrow> destroy_ptes free_frame (PGSIZE div 4) pt s f;
        p \<leftarrow> palloc_free_page pt (pm s');
        destroy_pdes free_frame n (pde + 4) (s'\<lparr>pm := p\<rparr>) f'
      } else destroy_pdes free_frame n (pde + 4) s f)"

definition pagedir_destroy :: "(u32 \<Rightarrow> 'f \<Rightarrow> 'f option) \<Rightarrow> u32 \<Rightarrow> vm \<Rightarrow> 'f \<Rightarrow> (vm \<times> 'f) option" where
  "pagedir_destroy free_frame pd s f =
     (if pd = 0 then Some (s, f)
      else do {
        ASSERT (pd \<noteq> init_page_dir s);
        (s', f') \<leftarrow> destroy_pdes free_frame (unat (pd_no PHYS_BASE)) pd s f;
        p \<leftarrow> palloc_free_page pd (pm s');
        Some (s'\<lparr>pm := p\<rparr>, f')
      })"

section \<open>Words in pages\<close>

lemma page_number: "pg_ofs p = 0 \<Longrightarrow> \<exists>q < 2 ^ 20. unat p = 4096 * q"
  using mult_div_mod_eq [of 4096 "unat p"] unsigned_less [of p, where ?'a = nat]
  by (intro exI [of _ "unat p div 4096"]) (simp add: pg_ofs_0_iff)

lemma unat_in_page:
  assumes "pg_ofs p = 0" and "unat k < 4096"
  shows "unat (p + k) = unat p + unat k"
proof -
  obtain q where "q < 2 ^ 20" "unat p = 4096 * q" using page_number [OF assms(1)] by blast
  with assms(2) show ?thesis
    by (intro unat_add_lem [THEN iffD1]) simp
qed

lemma pg_no_in_page: "pg_ofs p = 0 \<Longrightarrow> unat k < 4096 \<Longrightarrow> pg_no (p + k) = pg_no p"
  using page_number [of p] by (auto simp: word_unat_eq_iff unat_pg_no unat_in_page)

lemma unat_times_4: "unat (i :: u32) < 1024 \<Longrightarrow> unat (4 * i) = 4 * unat i"
  by (subst unat_mult_lem [THEN iffD1]) auto

lemma unat_entry: "pg_ofs p = 0 \<Longrightarrow> unat i < 1024 \<Longrightarrow> unat (p + 4 * i) = unat p + 4 * unat i"
  by (simp add: unat_in_page unat_times_4)

lemma entry_aligned: "pg_ofs p = 0 \<Longrightarrow> unat i < 1024 \<Longrightarrow> unat (p + 4 * i) mod 4 = 0"
  using page_number [of p] by (auto simp: unat_entry)

lemma entry_page: "pg_ofs p = 0 \<Longrightarrow> unat i < 1024 \<Longrightarrow> pg_no (p + 4 * i) = pg_no p"
  by (simp add: pg_no_in_page unat_times_4)

lemma page_eq_iff: "pg_ofs p = 0 \<Longrightarrow> pg_ofs q = 0 \<Longrightarrow> p = q \<longleftrightarrow> pg_no p = pg_no q"
  using aligned_page_at by metis

lemma entry_eq_iff:
  assumes "pg_ofs p = 0" and "pg_ofs q = 0" and "unat i < 1024" and "unat j < 1024"
  shows "p + 4 * i = q + 4 * j \<longleftrightarrow> p = q \<and> i = j"
proof
  assume eq: "p + 4 * i = q + 4 * j"
  have "p = q"
    using arg_cong [OF eq, of pg_no] assms by (simp add: entry_page page_eq_iff)
  moreover have "unat i = unat j"
    using arg_cong [OF eq, of unat] assms calculation by (simp add: unat_entry)
  ultimately show "p = q \<and> i = j" by (simp add: word_unat_eq_iff)
qed simp

lemma in_page_iff:
  assumes "pg_ofs p = 0"
  shows "in_range p 4096 x \<longleftrightarrow> pg_no x = pg_no p"
proof -
  obtain q where q: "q < 2 ^ 20" "unat p = 4096 * q" using page_number [OF assms] by blast
  have "unat x div 4096 = q \<longleftrightarrow> 4096 * q \<le> unat x \<and> unat x < 4096 * q + 4096"
    by (auto simp: div_nat_eqI mult.commute) 
  then show ?thesis
    using q by (auto simp: in_range_def unat_sub_if' word_unat_eq_iff unat_pg_no)
qed

lemma entry_byte_page:
  assumes "pg_ofs p = 0" and "unat i < 1024" and "k < 4"
  shows "pg_no (p + 4 * i + of_nat k) = pg_no p"
proof -
  have "unat (of_nat k :: u32) = k" using assms(3) by (simp add: unat_of_nat)
  then have "unat (4 * i + of_nat k) = 4 * unat i + k"
    using assms by (subst unat_add_lem [THEN iffD1]) (auto simp: unat_times_4)
  then show ?thesis
    using pg_no_in_page [OF assms(1), of "4 * i + of_nat k"] assms by (simp add: add.assoc)
qed

lemma ld32_zero_page:
  assumes "pg_ofs p = 0" and "unat i < 1024"
  shows "ld32 (set_bytes m p 0 4096) (p + 4 * i) = 0"
  by (rule ld32_set_zero) (use assms in \<open>simp add: in_page_iff entry_byte_page\<close>)

lemma ld32_other_page:
  assumes "pg_ofs p = 0" and "pg_ofs q = 0" and "p \<noteq> q" and "unat i < 1024"
  shows "ld32 (set_bytes m p v 4096) (q + 4 * i) = ld32 m (q + 4 * i)"
  by (rule ld32_cong) (use assms in \<open>auto simp: set_bytes_def in_page_iff entry_byte_page page_eq_iff\<close>)

lemma ld32_st32_entry:
  assumes "pg_ofs p = 0" and "pg_ofs q = 0" and "unat i < 1024" and "unat j < 1024"
  shows "ld32 (st32 m (p + 4 * i) v) (q + 4 * j) = (if p = q \<and> i = j then v else ld32 m (q + 4 * j))"
  using assms ld32_st32_other [of "p + 4 * i" "q + 4 * j"] by (auto simp: entry_aligned entry_eq_iff)

lemma pd_no_less: "unat (pd_no va) < 1024"
  using unsigned_less [of va, where ?'a = nat] by (simp add: unat_pd_no)

lemma pt_no_less: "unat (pt_no va) < 1024"
  by (simp add: unat_pt_no)

section \<open>The mapping a directory stands for\<close>

text \<open>
  \<open>pt_of s pd i\<close>: the page table entry \<open>i\<close> of the directory points to.  \<open>pte_word\<close>: the page
  table entry of an address, \<open>0\<close> where there is no table.  \<open>mapping\<close>: the frame of each mapped
  user page.  In a well-formed state the directory and its tables are distinct allocated
  pages, and each present entry holds a physical address.
\<close>

definition pt_of :: "vm \<Rightarrow> u32 \<Rightarrow> u32 \<Rightarrow> u32 option" where
  "pt_of s pd i = (let e = ld32 (vram s) (pd + 4 * i) in if e = 0 then None else pde_get_pt e)"

definition pte_word :: "vm \<Rightarrow> u32 \<Rightarrow> u32 \<Rightarrow> u32" where
  "pte_word s pd va = (case pt_of s pd (pd_no va) of None \<Rightarrow> 0 | Some pt \<Rightarrow> ld32 (vram s) (pt + 4 * pt_no va))"

definition user_page :: "u32 \<Rightarrow> bool" where
  "user_page va \<longleftrightarrow> pg_ofs va = 0 \<and> is_user_vaddr va"

definition present_page :: "u32 \<Rightarrow> u32 option" where
  "present_page e = (if e AND PTE_P \<noteq> 0 then pte_get_page e else None)"

definition mapping :: "u32 \<Rightarrow> vm \<Rightarrow> u32 \<Rightarrow> u32 option" where
  "mapping pd s va = (if user_page va then present_page (pte_word s pd va) else None)"

definition table_page :: "vm \<Rightarrow> u32 \<Rightarrow> bool" where
  "table_page s p \<longleftrightarrow> pg_ofs p = 0 \<and> is_kernel_vaddr p \<and> unat (pg_no p) \<in> used_pages (pm s)"

definition entry_ok :: "u32 \<Rightarrow> bool" where
  "entry_ok e \<longleftrightarrow> e AND PTE_P \<noteq> 0 \<longrightarrow> pte_get_page e \<noteq> None"

definition vm_ok :: "u32 \<Rightarrow> vm \<Rightarrow> bool" where
  "vm_ok pd s \<longleftrightarrow> palloc_ok (pm s) \<and> table_page s pd \<and> pd \<noteq> init_page_dir s \<and> cr3 s < PHYS_BASE
     \<and> (\<forall>i < 768. ld32 (vram s) (pd + 4 * i) \<noteq> 0
          \<longrightarrow> (\<exists>pt. pt_of s pd i = Some pt \<and> table_page s pt \<and> pt \<noteq> pd))
     \<and> (\<forall>i < 768. \<forall>j < 768. i \<noteq> j \<longrightarrow> pt_of s pd i \<noteq> None \<longrightarrow> pt_of s pd i \<noteq> pt_of s pd j)
     \<and> (\<forall>va. is_user_vaddr va \<longrightarrow> entry_ok (pte_word s pd va))"

lemma vm_ok_palloc: "vm_ok pd s \<Longrightarrow> palloc_ok (pm s)"
  and vm_ok_pd: "vm_ok pd s \<Longrightarrow> table_page s pd"
  and vm_ok_init: "vm_ok pd s \<Longrightarrow> pd \<noteq> init_page_dir s"
  and vm_ok_entry: "vm_ok pd s \<Longrightarrow> is_user_vaddr va \<Longrightarrow> entry_ok (pte_word s pd va)"
  by (simp_all add: vm_ok_def)

lemma user_pd_less: "is_user_vaddr va \<Longrightarrow> pd_no va < 768"
  by (simp add: user_pd_no word_less_nat_alt)

lemma less_768: "(i :: u32) < 768 \<Longrightarrow> unat i < 1024"
  by (simp add: word_less_nat_alt)

lemma vm_ok_pt:
  assumes "vm_ok pd s" and "i < 768"
  shows "pt_of s pd i = None \<longleftrightarrow> ld32 (vram s) (pd + 4 * i) = 0"
    and "pt_of s pd i = Some pt \<Longrightarrow> table_page s pt \<and> pt \<noteq> pd"
    and "j < 768 \<Longrightarrow> pt_of s pd i = Some pt \<Longrightarrow> pt_of s pd j = Some pt \<Longrightarrow> i = j"
proof -
  show "pt_of s pd i = None \<longleftrightarrow> ld32 (vram s) (pd + 4 * i) = 0"
    and "pt_of s pd i = Some pt \<Longrightarrow> table_page s pt \<and> pt \<noteq> pd"
    using assms by (auto simp: vm_ok_def pt_of_def Let_def split: if_splits)
  have inj: "\<forall>i < 768. \<forall>j < 768. i \<noteq> j \<longrightarrow> pt_of s pd i \<noteq> None \<longrightarrow> pt_of s pd i \<noteq> pt_of s pd j"
    using assms(1) unfolding vm_ok_def by blast
  show "i = j" if "j < 768" "pt_of s pd i = Some pt" "pt_of s pd j = Some pt"
    using inj assms(2) that by (metis option.distinct(1))
qed

lemma table_page_nonnull: "table_page s p \<Longrightarrow> unat i < 1024 \<Longrightarrow> p + 4 * i \<noteq> 0"
  using unat_entry [of p i]
  by (auto simp: table_page_def is_kernel_vaddr_def word_le_nat_alt)

lemma table_page_offset: "table_page s p \<Longrightarrow> pg_ofs p = 0"
  by (simp add: table_page_def)

text \<open>\<open>lookup_page\<close> without creation is a pure search.\<close>

definition pte_addr :: "vm \<Rightarrow> u32 \<Rightarrow> u32 \<Rightarrow> u32" where
  "pte_addr s pd va = (case pt_of s pd (pd_no va) of None \<Rightarrow> 0 | Some pt \<Rightarrow> pt + 4 * pt_no va)"

lemma lookup_page_find:
  assumes "vm_ok pd s" and "is_user_vaddr va"
  shows "lookup_page pd va False s = Some (pte_addr s pd va, s)"
proof -
  have "pd \<noteq> 0"
    using table_page_nonnull [OF vm_ok_pd [OF assms(1)], of 0] by simp
  then show ?thesis
    using vm_ok_pt(1) [OF assms(1) user_pd_less [OF assms(2)]]
    by (cases "pt_of s pd (pd_no va)")
      (auto simp: lookup_page_def pte_addr_def pt_of_def Let_def split: if_splits)
qed

lemma pte_addr_cases:
  assumes "vm_ok pd s" and "is_user_vaddr va"
  obtains (none) "pt_of s pd (pd_no va) = None" "pte_addr s pd va = 0" "pte_word s pd va = 0"
  | (table) pt where "pt_of s pd (pd_no va) = Some pt" "table_page s pt" "pt \<noteq> pd"
      "pte_addr s pd va = pt + 4 * pt_no va" "pte_addr s pd va \<noteq> 0"
      "pte_word s pd va = ld32 (vram s) (pte_addr s pd va)"
proof (cases "pt_of s pd (pd_no va)")
  case None
  then show ?thesis using none by (simp add: pte_addr_def pte_word_def)
next
  case (Some pt)
  then show ?thesis
    using vm_ok_pt(2) [OF assms(1) user_pd_less [OF assms(2)] Some] table_page_nonnull [of s pt "pt_no va"]
      pt_no_less [of va] table
    by (simp add: pte_addr_def pte_word_def)
qed

text \<open>Writing an entry of one of the tables.\<close>

lemma set_word_simps [simp]:
  "init_page_dir (set_word a v s) = init_page_dir s" "cr3 (set_word a v s) = cr3 s"
  "palloc_ok (pm (set_word a v s)) = palloc_ok (pm s)" "used_pages (pm (set_word a v s)) = used_pages (pm s)"
  "table_page (set_word a v s) p = table_page s p" "vram (set_word a v s) = st32 (vram s) a v"
  by (simp_all add: set_word_def table_page_def)

lemma write_pte:
  assumes ok: "vm_ok pd s" and va: "is_user_vaddr va" and pt: "pt_of s pd (pd_no va) = Some pt"
    and s': "s' = set_word (pt + 4 * pt_no va) e s"
  shows "i < 768 \<Longrightarrow> pt_of s' pd i = pt_of s pd i"
    and "is_user_vaddr vb \<Longrightarrow>
      pte_word s' pd vb = (if pd_no vb = pd_no va \<and> pt_no vb = pt_no va then e else pte_word s pd vb)"
proof -
  have pt': "table_page s pt" "pt \<noteq> pd" and al: "pg_ofs pd = 0" "pg_ofs pt = 0"
    using vm_ok_pt(2) [OF ok user_pd_less [OF va] pt] vm_ok_pd [OF ok] by (auto simp: table_page_def)
  show pts: "pt_of s' pd i = pt_of s pd i" if "i < 768" for i
    using al pt'(2) less_768 [OF that] pt_no_less [of va]
    by (simp add: pt_of_def s' ld32_st32_entry)
  show "pte_word s' pd vb = (if pd_no vb = pd_no va \<and> pt_no vb = pt_no va then e else pte_word s pd vb)"
    if vb: "is_user_vaddr vb"
  proof (cases "pt_of s pd (pd_no vb)")
    case None
    then show ?thesis using pts [OF user_pd_less [OF vb]] pt by (auto simp: pte_word_def)
  next
    case (Some qt)
    have "qt = pt \<longleftrightarrow> pd_no vb = pd_no va"
      using vm_ok_pt(3) [OF ok user_pd_less [OF vb] user_pd_less [OF va]] Some pt by auto
    moreover have "pg_ofs qt = 0"
      using vm_ok_pt(2) [OF ok user_pd_less [OF vb] Some] by (simp add: table_page_def)
    ultimately show ?thesis
      using Some pts [OF user_pd_less [OF vb]] al pt_no_less [of va] pt_no_less [of vb]
      by (auto simp: pte_word_def s' ld32_st32_entry)
  qed
qed

lemma vm_okI:
  assumes "vm_ok pd s" and "palloc_ok (pm s')" and "init_page_dir s' = init_page_dir s" and "cr3 s' < PHYS_BASE"
    and "\<And>p. table_page s p \<Longrightarrow> table_page s' p"
    and "\<And>i. i < 768 \<Longrightarrow> ld32 (vram s') (pd + 4 * i) \<noteq> 0 \<Longrightarrow> \<exists>pt. pt_of s' pd i = Some pt \<and> table_page s' pt \<and> pt \<noteq> pd"
    and "\<And>i j pt. i < 768 \<Longrightarrow> j < 768 \<Longrightarrow> pt_of s' pd i = Some pt \<Longrightarrow> pt_of s' pd j = Some pt \<Longrightarrow> i = j"
    and "\<And>va. is_user_vaddr va \<Longrightarrow> entry_ok (pte_word s' pd va)"
  shows "vm_ok pd s'"
  using assms unfolding vm_ok_def by (metis option.exhaust)

lemma write_pte_ok:
  assumes ok: "vm_ok pd s" and va: "is_user_vaddr va" and pt: "pt_of s pd (pd_no va) = Some pt"
    and s': "s' = set_word (pt + 4 * pt_no va) e s" and e: "entry_ok e"
  shows "vm_ok pd s'"
proof (rule vm_okI [OF ok])
  note w = write_pte [OF ok va pt s']
  have pd: "pg_ofs pd = 0" "pg_ofs pt = 0" "pt \<noteq> pd"
    using vm_ok_pt(2) [OF ok user_pd_less [OF va] pt] vm_ok_pd [OF ok] by (auto simp: table_page_def)
  show "entry_ok (pte_word s' pd vb)" if "is_user_vaddr vb" for vb
    using w(2) [OF that] vm_ok_entry [OF ok that] e by simp
  show "i = j" if "i < 768" "j < 768" "pt_of s' pd i = Some qt" "pt_of s' pd j = Some qt" for i j qt
    using that w(1) vm_ok_pt(3) [OF ok] by metis
  show "\<exists>qt. pt_of s' pd i = Some qt \<and> table_page s' qt \<and> qt \<noteq> pd"
    if i: "i < 768" "ld32 (vram s') (pd + 4 * i) \<noteq> 0" for i
  proof -
    have "ld32 (vram s) (pd + 4 * i) \<noteq> 0"
      using i(2) pd less_768 [OF i(1)] pt_no_less [of va] by (simp add: s' ld32_st32_entry)
    then obtain qt where "pt_of s pd i = Some qt"
      using vm_ok_pt(1) [OF ok i(1)] by auto
    then show ?thesis
      using vm_ok_pt(2) [OF ok i(1)] w(1) [OF i(1)] by (simp add: s')
  qed
qed (use ok in \<open>simp_all add: vm_ok_def s'\<close>)

text \<open>Adding an empty table: no mapping changes.\<close>

lemma fresh_table:
  assumes ok: "vm_ok pd s" and get: "palloc_get_page PAL_ZERO (pm s) = Some (pt, p)" and pt: "pt \<noteq> 0"
  shows "pg_ofs pt = 0" and "is_kernel_vaddr pt" and "palloc_ok p" and "ram p = set_bytes (vram s) pt 0 4096"
    and "used_pages p = insert (unat (pg_no pt)) (used_pages (pm s))" and "table_page s q \<Longrightarrow> pt \<noteq> q"
proof -
  have room: "palloc_room PAL_ZERO 1 (pm s)"
  proof (rule ccontr)
    assume "\<not> palloc_room PAL_ZERO 1 (pm s)"
    then show False
      using palloc_get_full [OF vm_ok_palloc [OF ok], of 1 PAL_ZERO] get pt
      by (auto simp: palloc_get_page_def split: if_splits)
  qed
  obtain a where a: "pt = page_at a" "a < 2 ^ 20" "palloc_ok p" "a \<notin> used_pages (pm s)"
      "used_pages p = insert a (used_pages (pm s))" "ram p = set_bytes (vram s) pt 0 4096" "PHYS_BASE \<le> pt"
    by (rule palloc_get_room [OF vm_ok_palloc [OF ok] _ room])
      (use get in \<open>auto simp: palloc_get_page_def span_def PAL_ZERO_def\<close>)
  then show "pg_ofs pt = 0" "is_kernel_vaddr pt" "palloc_ok p" "ram p = set_bytes (vram s) pt 0 4096"
      "used_pages p = insert (unat (pg_no pt)) (used_pages (pm s))" "table_page s q \<Longrightarrow> pt \<noteq> q"
    by (auto simp: is_kernel_vaddr_def table_page_def)
qed

lemma new_table_entries:
  assumes ok: "vm_ok pd s" and va: "is_user_vaddr va" and none: "pt_of s pd (pd_no va) = None"
    and pt: "pg_ofs pt = 0" and fresh: "\<forall>q. table_page s q \<longrightarrow> pt \<noteq> q"
    and e: "e \<noteq> 0" "pde_get_pt e = Some pt"
    and mem: "vram s' = st32 (set_bytes (vram s) pt 0 4096) (pd + 4 * pd_no va) e"
  shows "i < 768 \<Longrightarrow> ld32 (vram s') (pd + 4 * i) = (if i = pd_no va then e else ld32 (vram s) (pd + 4 * i))"
    and "i < 768 \<Longrightarrow> pt_of s' pd i = (if i = pd_no va then Some pt else pt_of s pd i)"
    and "is_user_vaddr vb \<Longrightarrow> pte_word s' pd vb = pte_word s pd vb"
proof -
  have pd: "pg_ofs pd = 0" "pt \<noteq> pd"
    using vm_ok_pd [OF ok] fresh by (auto simp: table_page_def)
  show pde: "ld32 (vram s') (pd + 4 * i) = (if i = pd_no va then e else ld32 (vram s) (pd + 4 * i))"
    if "i < 768" for i
    using less_768 [OF that] pd_no_less [of va] pd pt by (simp add: mem ld32_st32_entry ld32_other_page)
  show pts: "pt_of s' pd i = (if i = pd_no va then Some pt else pt_of s pd i)" if "i < 768" for i
    using pde [OF that] e by (simp add: pt_of_def)
  show "pte_word s' pd vb = pte_word s pd vb" if "is_user_vaddr vb"
  proof (cases "pt_of s pd (pd_no vb)")
    case None
    then show ?thesis
      using pts [OF user_pd_less [OF that]] pt pd pt_no_less [of vb] pd_no_less [of va]
      by (auto simp: pte_word_def mem ld32_st32_entry ld32_zero_page)
  next
    case (Some qt)
    then have "table_page s qt" "qt \<noteq> pd"
      using vm_ok_pt(2) [OF ok user_pd_less [OF that]] by auto
    then show ?thesis
      using Some none pts [OF user_pd_less [OF that]] pd pt fresh pt_no_less [of vb] pd_no_less [of va]
      by (auto simp: pte_word_def mem ld32_st32_entry ld32_other_page table_page_def)
  qed
qed

lemma new_table:
  assumes ok: "vm_ok pd s" and va: "is_user_vaddr va" and none: "pt_of s pd (pd_no va) = None"
    and get: "palloc_get_page PAL_ZERO (pm s) = Some (pt, p)" and pt: "pt \<noteq> 0"
  obtains e s' where "pde_create pt = Some e" and "s' = set_word (pd + 4 * pd_no va) e (s\<lparr>pm := p\<rparr>)"
    and "pt_of s' pd (pd_no va) = Some pt" and "pde_get_pt (ld32 (vram s') (pd + 4 * pd_no va)) = Some pt"
    and "\<And>vb. is_user_vaddr vb \<Longrightarrow> pte_word s' pd vb = pte_word s pd vb" and "vm_ok pd s'"
proof -
  note f = fresh_table [OF ok get pt]
  obtain e where e: "pde_create pt = Some e" "e \<noteq> 0" "pde_get_pt e = Some pt"
    using pde_roundtrip [OF f(1,2)] by blast
  define s' where "s' = set_word (pd + 4 * pd_no va) e (s\<lparr>pm := p\<rparr>)"
  have mem: "vram s' = st32 (set_bytes (vram s) pt 0 4096) (pd + 4 * pd_no va) e"
    by (simp add: s'_def f(4))
  have fresh: "\<forall>q. table_page s q \<longrightarrow> pt \<noteq> q" using f(6) by blast
  note n = new_table_entries [OF ok va none f(1) fresh e(2,3) mem]
  have tp: "table_page s' q" if "table_page s q \<or> q = pt" for q
    using that f(1,2,5) by (auto simp: table_page_def s'_def)
  have "vm_ok pd s'"
  proof (rule vm_okI [OF ok])
    show "\<exists>qt. pt_of s' pd i = Some qt \<and> table_page s' qt \<and> qt \<noteq> pd"
      if "i < 768" "ld32 (vram s') (pd + 4 * i) \<noteq> 0" for i
      using that n(1,2) [OF that(1)] vm_ok_pt(1,2) [OF ok that(1)] tp f(6) [OF vm_ok_pd [OF ok]]
      by (cases "i = pd_no va") auto
    show "i = j" if "i < 768" "j < 768" "pt_of s' pd i = Some qt" "pt_of s' pd j = Some qt" for i j qt
      using that(3,4) n(2) [OF that(1)] n(2) [OF that(2)] vm_ok_pt(3) [OF ok that(1,2)]
        vm_ok_pt(2) [OF ok that(1)] vm_ok_pt(2) [OF ok that(2)] f(6)
      by (auto split: if_splits)
    show "entry_ok (pte_word s' pd vb)" if "is_user_vaddr vb" for vb
      using n(3) [OF that] vm_ok_entry [OF ok that] by simp
  qed (use ok f(3) tp in \<open>auto simp: vm_ok_def s'_def\<close>)
  then show ?thesis
    using that [OF e(1) s'_def _ _ n(3)] n(1,2) [OF user_pd_less [OF va]] e by simp
qed

lemma lookup_page_create:
  assumes ok: "vm_ok pd s" and va: "is_user_vaddr va"
  shows "\<exists>s'. lookup_page pd va True s = Some (pte_addr s' pd va, s') \<and> vm_ok pd s'
    \<and> (\<forall>vb. is_user_vaddr vb \<longrightarrow> pte_word s' pd vb = pte_word s pd vb)
    \<and> (pte_addr s' pd va \<noteq> 0 \<longleftrightarrow> pt_of s pd (pd_no va) \<noteq> None \<or> palloc_room PAL_ZERO 1 (pm s))"
proof (cases "pt_of s pd (pd_no va)")
  case (Some pt)
  have "lookup_page pd va True s = lookup_page pd va False s"
    using Some va by (auto simp: lookup_page_def pt_of_def Let_def split: if_splits)
  then show ?thesis
    using lookup_page_find [OF ok va] ok Some pte_addr_cases [OF ok va] by (metis option.distinct(1))
next
  case None
  have pd: "pd \<noteq> 0" and pde: "ld32 (vram s) (pd + 4 * pd_no va) = 0"
    using table_page_nonnull [OF vm_ok_pd [OF ok], of 0] vm_ok_pt(1) [OF ok user_pd_less [OF va]] None by auto
  show ?thesis
  proof (cases "palloc_room PAL_ZERO 1 (pm s)")
    case True
    obtain pt p where get: "palloc_get_page PAL_ZERO (pm s) = Some (pt, p)" "pt \<noteq> 0"
      by (rule palloc_get_room [OF vm_ok_palloc [OF ok] _ True]) (auto simp: palloc_get_page_def)
    obtain e s' where n: "pde_create pt = Some e" "s' = set_word (pd + 4 * pd_no va) e (s\<lparr>pm := p\<rparr>)"
        "pt_of s' pd (pd_no va) = Some pt" "pde_get_pt (ld32 (vram s') (pd + 4 * pd_no va)) = Some pt"
        "\<And>vb. is_user_vaddr vb \<Longrightarrow> pte_word s' pd vb = pte_word s pd vb" "vm_ok pd s'"
      by (rule new_table [OF ok va None get]) blast
    have "lookup_page pd va True s = Some (pt + 4 * pt_no va, s')"
      using pd pde va get n(1,4) by (simp add: lookup_page_def Let_def n(2))
    moreover have "pte_addr s' pd va = pt + 4 * pt_no va" "pte_addr s' pd va \<noteq> 0"
      using n(3) pte_addr_cases [OF n(6) va] by (auto simp: pte_addr_def)
    ultimately show ?thesis
      using n(5,6) True by auto
  next
    case False
    then have "palloc_get_page PAL_ZERO (pm s) = Some (0, pm s)"
      using palloc_get_full [OF vm_ok_palloc [OF ok] _ False]
      by (simp add: palloc_get_page_def PAL_ZERO_def PAL_ASSERT_def)
    then have "lookup_page pd va True s = Some (0, s)"
      using pd pde va by (simp add: lookup_page_def Let_def)
    then show ?thesis
      using ok False None by (auto simp: pte_addr_def)
  qed
qed

section \<open>Flags\<close>

lemma not_present_ok: "e AND PTE_P = 0 \<Longrightarrow> entry_ok e"
  by (simp add: entry_ok_def)

lemma present_page_flag:
  assumes "f AND PTE_ADDR = 0" and "f AND PTE_P = 0"
  shows "present_page (e OR f) = present_page e" and "present_page (e AND NOT f) = present_page e"
    and "entry_ok (e OR f) = entry_ok e" and "entry_ok (e AND NOT f) = entry_ok e"
proof -
  have and_not: "(e AND NOT f) AND g = e AND g" if "f AND g = 0" for g
  proof (rule bit_word_eqI)
    fix n
    have "\<not> (bit f n \<and> bit g n)" using that by (metis bit_and_iff bit_0_eq bot_apply bot_bool_def)
    then show "bit ((e AND NOT f) AND g) n = bit (e AND g) n"
      by (auto simp: bit_and_iff bit_not_iff possible_bit_def dest: bit_imp_le_length)
  qed
  have or: "(e OR f) AND g = e AND g" if "f AND g = 0" for g
    using that by (simp add: bit.conj_disj_distrib2)
  show "present_page (e OR f) = present_page e" "present_page (e AND NOT f) = present_page e"
      "entry_ok (e OR f) = entry_ok e" "entry_ok (e AND NOT f) = entry_ok e"
    using and_not [OF assms(1)] and_not [OF assms(2)] or [OF assms(1)] or [OF assms(2)]
    by (simp_all add: present_page_def entry_ok_def pte_get_page_def)
qed

lemma clear_present: "(e AND NOT PTE_P) AND PTE_P = 0"
  by (simp add: and.assoc)

lemma pm_cong:
  assumes "pm s' = pm s"
  shows "pt_of s' pd i = pt_of s pd i" and "pte_word s' pd va = pte_word s pd va"
    and "mapping pd s' va = mapping pd s va" and "table_page s' p = table_page s p"
  using assms by (simp_all add: pt_of_def pte_word_def mapping_def table_page_def cong: option.case_cong)

lemma invalidate_ok:
  assumes "vm_ok pd s"
  shows "\<exists>s'. invalidate_pagedir pd s = Some s' \<and> vm_ok pd s' \<and> pm s' = pm s
    \<and> (active_pd s = Some pd \<longrightarrow> tlb s' = (\<lambda>_. None))"
proof -
  have "is_kernel_vaddr pd" "cr3 s < PHYS_BASE"
    using assms by (auto simp: vm_ok_def table_page_def)
  moreover from this have "pd \<noteq> 0" by (auto simp: is_kernel_vaddr_def PHYS_BASE_def)
  moreover have "vm_ok pd (s\<lparr>cr3 := pa, tlb := t\<rparr>)" if "pa < PHYS_BASE" for pa t
    using assms that by (simp add: vm_ok_def pm_cong [of "s\<lparr>cr3 := pa, tlb := t\<rparr>" s])
  moreover have "pd - PHYS_BASE < PHYS_BASE"
    using \<open>is_kernel_vaddr pd\<close> unsigned_less [of pd, where ?'a = nat]
    by (simp add: is_kernel_vaddr_def word_less_nat_alt word_le_nat_alt unat_sub)
  ultimately show ?thesis
    using assms by (auto simp: invalidate_pagedir_def active_pd_def pagedir_activate_def ptov_def vtop_def)
qed

section \<open>The contract of an address space\<close>

text \<open>
  What process loading and paging rely on.  \<open>maps s\<close> is the partial function from user
  pages to frames that state \<open>s\<close> stands for.
\<close>

locale address_space =
  fixes valid :: "'s \<Rightarrow> bool"
    and maps :: "'s \<Rightarrow> u32 \<Rightarrow> u32 option"
    and frame_ok :: "u32 \<Rightarrow> 's \<Rightarrow> bool"
    and get_op :: "u32 \<Rightarrow> 's \<Rightarrow> (u32 \<times> 's) option"
    and set_op :: "u32 \<Rightarrow> u32 \<Rightarrow> bool \<Rightarrow> 's \<Rightarrow> (bool \<times> 's) option"
    and clear_op :: "u32 \<Rightarrow> 's \<Rightarrow> 's option"
  assumes get_law: "valid s \<Longrightarrow> is_user_vaddr va
      \<Longrightarrow> get_op va s = Some (case maps s (pg_round_down va) of None \<Rightarrow> 0 | Some k \<Rightarrow> k + pg_ofs va, s)"
    and set_law: "valid s \<Longrightarrow> user_page u \<Longrightarrow> frame_ok k s \<Longrightarrow> maps s u = None
      \<Longrightarrow> \<exists>b s'. set_op u k w s = Some (b, s') \<and> valid s'
            \<and> maps s' = (if b then (maps s)(u \<mapsto> k) else maps s)"
    and set_twice: "valid s \<Longrightarrow> user_page u \<Longrightarrow> maps s u \<noteq> None \<Longrightarrow> set_op u k w s = None"
    and clear_law: "valid s \<Longrightarrow> user_page u
      \<Longrightarrow> \<exists>s'. clear_op u s = Some s' \<and> valid s' \<and> maps s' = (maps s)(u := None)"
begin

lemma get_after_set:
  assumes "valid s" and "user_page u" and "frame_ok k s" and "maps s u = None" and "set_op u k w s = Some (True, s')"
    and "is_user_vaddr va"
  shows "get_op va s' = Some (if pg_round_down va = u then k + pg_ofs va
    else case maps s (pg_round_down va) of None \<Rightarrow> 0 | Some k' \<Rightarrow> k' + pg_ofs va, s')"
proof -
  have "valid s'" "maps s' = (maps s)(u \<mapsto> k)"
    using set_law [OF assms(1-4), of w] assms(5) by auto
  then show ?thesis using get_law [OF _ assms(6)] by simp
qed

lemma get_after_clear:
  assumes "valid s" and "user_page u" and "clear_op u s = Some s'" and "is_user_vaddr va"
  shows "get_op va s' = Some (if pg_round_down va = u then 0
    else case maps s (pg_round_down va) of None \<Rightarrow> 0 | Some k' \<Rightarrow> k' + pg_ofs va, s')"
proof -
  have "valid s'" "maps s' = (maps s)(u := None)"
    using clear_law [OF assms(1,2)] assms(3) by auto
  then show ?thesis using get_law [OF _ assms(4)] by simp
qed

lemma clear_after_set:
  assumes "valid s" and "user_page u" and "frame_ok k s" and "maps s u = None" and "set_op u k w s = Some (b, s')"
  shows "\<exists>s''. clear_op u s' = Some s'' \<and> valid s'' \<and> maps s'' = maps s"
proof -
  have "valid s'" and m: "maps s' = (if b then (maps s)(u \<mapsto> k) else maps s)"
    using set_law [OF assms(1-4), of w] assms(5) by auto
  moreover have "(maps s')(u := None) = maps s"
    using assms(4) by (auto simp: m)
  ultimately show ?thesis
    using clear_law [OF _ assms(2), of s'] by metis
qed

end

section \<open>Page directories refine the contract\<close>

definition frame_page :: "u32 \<Rightarrow> vm \<Rightarrow> bool" where
  "frame_page k s \<longleftrightarrow> pg_ofs k = 0 \<and> is_kernel_vaddr k \<and> drop_bit PTSHIFT (k - PHYS_BASE) < init_ram_pages s"

lemma user_page_down: "is_user_vaddr va \<Longrightarrow> user_page (pg_round_down va)"
  by (simp add: user_page_def pg_round_down_user)

lemma fields_down [simp]: "pd_no (pg_round_down va) = pd_no va" "pt_no (pg_round_down va) = pt_no va"
proof -
  have "unat va div 4096 * 4096 div 4194304 = unat va div 4096 div 1024"
    using div_mult2_eq [of "unat va div 4096 * 4096" 4096 1024] by simp
  moreover have "unat va div 4194304 = unat va div 4096 div 1024"
    using div_mult2_eq [of "unat va" 4096 1024] by simp
  ultimately show "pd_no (pg_round_down va) = pd_no va"
    by (simp add: word_unat_eq_iff unat_pd_no unat_pg_round_down)
  show "pt_no (pg_round_down va) = pt_no va"
    by (simp add: word_unat_eq_iff unat_pt_no unat_pg_round_down)
qed

lemma pte_word_down: "pte_word s pd (pg_round_down va) = pte_word s pd va"
  by (simp add: pte_word_def cong: option.case_cong)

lemma pagedir_get_law:
  assumes "vm_ok pd s" and "is_user_vaddr va"
  shows "pagedir_get_page pd va s
    = Some (case mapping pd s (pg_round_down va) of None \<Rightarrow> 0 | Some k \<Rightarrow> k + pg_ofs va, s)"
proof -
  have m: "mapping pd s (pg_round_down va) = present_page (pte_word s pd va)"
    using user_page_down [OF assms(2)] by (simp add: mapping_def pte_word_down)
  show ?thesis
  proof (cases rule: pte_addr_cases [OF assms, case_names none table])
    case none
    then show ?thesis
      using assms lookup_page_find [OF assms] by (simp add: pagedir_get_page_def m present_page_def)
  next
    case (table pt)
    then show ?thesis
      using assms lookup_page_find [OF assms] vm_ok_entry [OF assms]
      by (auto simp: pagedir_get_page_def m present_page_def entry_ok_def)
  qed
qed

lemma mapping_absent:
  assumes "vm_ok pd s" and "user_page u" and "mapping pd s u = None"
  shows "pte_word s pd u AND PTE_P = 0"
  using assms vm_ok_entry [OF assms(1), of u]
  by (auto simp: mapping_def present_page_def user_page_def entry_ok_def split: if_splits)

lemma mapping_write_pte:
  assumes "vm_ok pd s" and "user_page u" and "pt_of s pd (pd_no u) = Some pt"
  shows "mapping pd (set_word (pt + 4 * pt_no u) e s) = (mapping pd s)(u := present_page e)"
proof
  fix vb
  have u: "is_user_vaddr u" using assms(2) by (simp add: user_page_def)
  show "mapping pd (set_word (pt + 4 * pt_no u) e s) vb = ((mapping pd s)(u := present_page e)) vb"
  proof (cases "user_page vb")
    case True
    then have "pd_no vb = pd_no u \<and> pt_no vb = pt_no u \<longleftrightarrow> vb = u"
      using assms(2) page_eqI [of vb u] by (auto simp: user_page_def)
    then show ?thesis
      using write_pte(2) [OF assms(1) u assms(3) refl, of vb e] True by (simp add: mapping_def user_page_def)
  next
    case False
    then show ?thesis using assms(2) by (auto simp: mapping_def)
  qed
qed

lemma pagedir_set_law:
  assumes "vm_ok pd s" and "user_page u" and "frame_page k s" and "mapping pd s u = None"
  shows "\<exists>b s'. pagedir_set_page pd u k w s = Some (b, s') \<and> vm_ok pd s'
    \<and> mapping pd s' = (if b then (mapping pd s)(u \<mapsto> k) else mapping pd s)
    \<and> (b \<longleftrightarrow> pt_of s pd (pd_no u) \<noteq> None \<or> palloc_room PAL_ZERO 1 (pm s))"
proof -
  have u: "is_user_vaddr u" "pg_ofs u = 0" and k: "pg_ofs k = 0" "is_kernel_vaddr k"
    using assms(2,3) by (auto simp: user_page_def frame_page_def)
  obtain s1 where s1: "lookup_page pd u True s = Some (pte_addr s1 pd u, s1)" "vm_ok pd s1"
      "\<forall>vb. is_user_vaddr vb \<longrightarrow> pte_word s1 pd vb = pte_word s pd vb"
      "pte_addr s1 pd u \<noteq> 0 \<longleftrightarrow> pt_of s pd (pd_no u) \<noteq> None \<or> palloc_room PAL_ZERO 1 (pm s)"
    using lookup_page_create [OF assms(1) u(1)] by blast
  have m1: "mapping pd s1 = mapping pd s"
    using s1(3) by (intro ext) (simp add: mapping_def user_page_def)
  have pre: "pagedir_set_page pd u k w s = (if pte_addr s1 pd u \<noteq> 0 then do {
       ASSERT (ld32 (vram s1) (pte_addr s1 pd u) AND PTE_P = 0);
       e \<leftarrow> pte_create_user k w;
       Some (True, set_word (pte_addr s1 pd u) e s1)
     } else Some (False, s1))"
    using assms(3) u k s1(1) vm_ok_init [OF assms(1)]
    by (simp add: pagedir_set_page_def vtop_def frame_page_def)
  show ?thesis
  proof (cases rule: pte_addr_cases [OF s1(2) u(1), case_names none table])
    case none
    then show ?thesis using pre s1(2,4) m1 by auto
  next
    case (table pt)
    obtain e where e: "pte_create_user k w = Some e" "pte_get_page e = Some k" "e AND PTE_P \<noteq> 0"
      using pte_user_roundtrip [OF k] by blast
    have "pte_word s1 pd u AND PTE_P = 0"
      using mapping_absent [OF assms(1,2,4)] s1(3) u(1) by simp
    then have "pagedir_set_page pd u k w s = Some (True, set_word (pte_addr s1 pd u) e s1)"
      using pre table(5,6) e(1) by simp
    moreover have "vm_ok pd (set_word (pte_addr s1 pd u) e s1)"
      using write_pte_ok [OF s1(2) u(1) table(1)] table(4) e by (simp add: entry_ok_def)
    moreover have "mapping pd (set_word (pte_addr s1 pd u) e s1) = (mapping pd s)(u \<mapsto> k)"
      using mapping_write_pte [OF s1(2) assms(2) table(1)] table(4) m1 e by (simp add: present_page_def)
    ultimately show ?thesis using table(5) s1(4) by auto
  qed
qed

lemma pagedir_set_twice:
  assumes "vm_ok pd s" and "user_page u" and "mapping pd s u \<noteq> None"
  shows "pagedir_set_page pd u k w s = None"
proof -
  have u: "is_user_vaddr u" using assms(2) by (simp add: user_page_def)
  obtain s1 where s1: "lookup_page pd u True s = Some (pte_addr s1 pd u, s1)" "vm_ok pd s1"
      "pte_word s1 pd u = pte_word s pd u"
    using lookup_page_create [OF assms(1) u] u by blast
  have P: "pte_word s1 pd u AND PTE_P \<noteq> 0"
    using assms(2,3) s1(3) by (auto simp: mapping_def present_page_def split: if_splits)
  then have "pte_addr s1 pd u \<noteq> 0" "pte_word s1 pd u = ld32 (vram s1) (pte_addr s1 pd u)"
    by (cases rule: pte_addr_cases [OF s1(2) u]; auto)+
  then show ?thesis
    using s1(1) P by (cases "vtop k") (auto simp: pagedir_set_page_def ASSERT_def)
qed

lemma pagedir_clear_law:
  assumes "vm_ok pd s" and "user_page u"
  shows "\<exists>s'. pagedir_clear_page pd u s = Some s' \<and> vm_ok pd s' \<and> mapping pd s' = (mapping pd s)(u := None)
    \<and> (mapping pd s u \<noteq> None \<longrightarrow> active_pd s = Some pd \<longrightarrow> tlb s' = (\<lambda>_. None))"
proof -
  have u: "is_user_vaddr u" "pg_ofs u = 0" using assms(2) by (auto simp: user_page_def)
  have pre: "pagedir_clear_page pd u s = (if pte_addr s pd u \<noteq> 0 \<and> ld32 (vram s) (pte_addr s pd u) AND PTE_P \<noteq> 0
      then invalidate_pagedir pd (set_word (pte_addr s pd u) (ld32 (vram s) (pte_addr s pd u) AND NOT PTE_P) s)
      else Some s)"
    using u lookup_page_find [OF assms(1) u(1)] by (simp add: pagedir_clear_page_def)
  show ?thesis
  proof (cases "pte_word s pd u AND PTE_P = 0")
    case True
    then have "pagedir_clear_page pd u s = Some s" "mapping pd s u = None"
      by (cases rule: pte_addr_cases [OF assms(1) u(1)]; auto simp: pre mapping_def present_page_def)+
    then show ?thesis using assms(1) by auto
  next
    case False
    then obtain pt where pt: "pt_of s pd (pd_no u) = Some pt" "pte_addr s pd u = pt + 4 * pt_no u"
        "pte_addr s pd u \<noteq> 0" "pte_word s pd u = ld32 (vram s) (pte_addr s pd u)"
      by (cases rule: pte_addr_cases [OF assms(1) u(1)]) auto
    let ?s = "set_word (pt + 4 * pt_no u) (pte_word s pd u AND NOT PTE_P) s"
    have "vm_ok pd ?s"
      using write_pte_ok [OF assms(1) u(1) pt(1) refl] by (simp add: not_present_ok clear_present)
    then obtain s' where s': "invalidate_pagedir pd ?s = Some s'" "vm_ok pd s'" "pm s' = pm ?s"
        "active_pd ?s = Some pd \<longrightarrow> tlb s' = (\<lambda>_. None)"
      using invalidate_ok by blast
    have "mapping pd s' = (mapping pd s)(u := None)"
      using mapping_write_pte [OF assms(1,2) pt(1), of "pte_word s pd u AND NOT PTE_P"] pm_cong(3) [OF s'(3)]
      by (auto simp: present_page_def clear_present)
    then show ?thesis
      using pre False pt s' by (auto simp: active_pd_def)
  qed
qed

interpretation pd: address_space "vm_ok pd" "mapping pd" frame_page "pagedir_get_page pd" "pagedir_set_page pd"
  "pagedir_clear_page pd" for pd
proof unfold_locales
  fix s u k w
  assume "vm_ok pd s" "user_page u" "frame_page k s" "mapping pd s u = None"
  then show "\<exists>b s'. pagedir_set_page pd u k w s = Some (b, s') \<and> vm_ok pd s'
      \<and> mapping pd s' = (if b then (mapping pd s)(u \<mapsto> k) else mapping pd s)"
    using pagedir_set_law by blast
next
  fix s u
  assume "vm_ok pd s" "user_page u"
  then show "\<exists>s'. pagedir_clear_page pd u s = Some s' \<and> vm_ok pd s' \<and> mapping pd s' = (mapping pd s)(u := None)"
    using pagedir_clear_law by blast
qed (simp_all add: pagedir_get_law pagedir_set_twice)

section \<open>Dirty and accessed bits\<close>

text \<open>Both setters write the entry with one flag changed; the mapping stays.\<close>

lemma write_flag:
  assumes "vm_ok pd s" and "user_page u" and "pt_of s pd (pd_no u) = Some pt"
    and "present_page e = present_page (pte_word s pd u)" and "entry_ok e = entry_ok (pte_word s pd u)"
    and "s' = set_word (pte_addr s pd u) e s"
  shows "vm_ok pd s'" and "mapping pd s' = mapping pd s"
    and "user_page v \<Longrightarrow> pte_word s' pd v = (if v = u then e else pte_word s pd v)"
proof -
  have u: "is_user_vaddr u" using assms(2) by (simp add: user_page_def)
  have addr: "pte_addr s pd u = pt + 4 * pt_no u" using assms(3) by (simp add: pte_addr_def)
  show "vm_ok pd s'"
    using write_pte_ok [OF assms(1) u assms(3)] vm_ok_entry [OF assms(1) u] assms(5,6) addr by simp
  show "mapping pd s' = mapping pd s"
    using mapping_write_pte [OF assms(1-3), of e] assms(2,4,6) addr by (auto simp: mapping_def)
  show "pte_word s' pd v = (if v = u then e else pte_word s pd v)" if "user_page v"
    using write_pte(2) [OF assms(1) u assms(3), of s' e v] assms(2,6) addr that page_eqI [of v u]
    by (auto simp: user_page_def)
qed

lemma flag_bits: "PTE_D AND PTE_ADDR = 0" "PTE_D AND PTE_P = 0" "PTE_A AND PTE_ADDR = 0" "PTE_A AND PTE_P = 0"
  by (simp_all add: pte_consts)

lemma test_flag: "(e OR f) AND f \<noteq> 0 \<longleftrightarrow> f \<noteq> (0 :: u32)" "(e AND NOT f) AND f = (0 :: u32)"
  by (simp_all add: bit.conj_disj_distrib2 and.assoc)

definition set_flag :: "u32 \<Rightarrow> bool \<Rightarrow> u32 \<Rightarrow> u32" where
  "set_flag f b e = (if b then e OR f else e AND NOT f)"

lemma set_flag_law:
  assumes "vm_ok pd s" and "user_page u" and "pt_of s pd (pd_no u) \<noteq> None"
    and "f AND PTE_ADDR = 0" and "f AND PTE_P = 0"
    and "s1 = set_word (pte_addr s pd u) (set_flag f b (ld32 (vram s) (pte_addr s pd u))) s"
  shows "\<exists>s'. (if b then Some s1 else invalidate_pagedir pd s1) = Some s' \<and> vm_ok pd s' \<and> mapping pd s' = mapping pd s
    \<and> (\<forall>v. user_page v \<longrightarrow> pte_word s' pd v = (if v = u then set_flag f b (pte_word s pd u) else pte_word s pd v))
    \<and> (\<not> b \<longrightarrow> active_pd s = Some pd \<longrightarrow> tlb s' = (\<lambda>_. None))"
proof -
  obtain pt where pt: "pt_of s pd (pd_no u) = Some pt" using assms(3) by blast
  have "ld32 (vram s) (pte_addr s pd u) = pte_word s pd u" using pt by (simp add: pte_addr_def pte_word_def)
  then have s1: "s1 = set_word (pte_addr s pd u) (set_flag f b (pte_word s pd u)) s" by (simp add: assms(6))
  have fl: "present_page (set_flag f b e) = present_page e" "entry_ok (set_flag f b e) = entry_ok e" for e
    using present_page_flag [OF assms(4,5)] by (simp_all add: set_flag_def)
  note w = write_flag [OF assms(1,2) pt fl s1]
  obtain s2 where s2: "invalidate_pagedir pd s1 = Some s2" "vm_ok pd s2" "pm s2 = pm s1"
      "active_pd s1 = Some pd \<longrightarrow> tlb s2 = (\<lambda>_. None)"
    using invalidate_ok [OF w(1)] by blast
  have "active_pd s1 = active_pd s" by (simp add: s1 active_pd_def)
  then show ?thesis
    using w s2 pm_cong(2) [OF s2(3)] by (cases b) (auto simp: pm_cong(3) [OF s2(3)] fun_eq_iff)
qed

lemma pagedir_set_dirty_eq:
  assumes "vm_ok pd s" and "user_page u" and "pt_of s pd (pd_no u) \<noteq> None"
    and "s1 = set_word (pte_addr s pd u) (set_flag PTE_D b (ld32 (vram s) (pte_addr s pd u))) s"
  shows "pagedir_set_dirty pd u b s = (if b then Some s1 else invalidate_pagedir pd s1)"
  using assms(2-4) lookup_page_find [OF assms(1), of u]
  by (cases rule: pte_addr_cases [OF assms(1), of u])
    (auto simp: pagedir_set_dirty_def user_page_def set_flag_def)

lemma pagedir_set_accessed_eq:
  assumes "vm_ok pd s" and "user_page u" and "pt_of s pd (pd_no u) \<noteq> None"
    and "s1 = set_word (pte_addr s pd u) (set_flag PTE_A b (ld32 (vram s) (pte_addr s pd u))) s"
  shows "pagedir_set_accessed pd u b s = (if b then Some s1 else invalidate_pagedir pd s1)"
  using assms(2-4) lookup_page_find [OF assms(1), of u]
  by (cases rule: pte_addr_cases [OF assms(1), of u])
    (auto simp: pagedir_set_accessed_def user_page_def set_flag_def)

lemma pagedir_is_dirty_eq:
  assumes "vm_ok pd s" and "user_page u"
  shows "pagedir_is_dirty pd u s = Some (pte_word s pd u AND PTE_D \<noteq> 0)"
  using assms(2) lookup_page_find [OF assms(1), of u]
  by (cases rule: pte_addr_cases [OF assms(1), of u]) (auto simp: pagedir_is_dirty_def user_page_def)

lemma pagedir_is_accessed_eq:
  assumes "vm_ok pd s" and "user_page u"
  shows "pagedir_is_accessed pd u s = Some (pte_word s pd u AND PTE_A \<noteq> 0)"
  using assms(2) lookup_page_find [OF assms(1), of u]
  by (cases rule: pte_addr_cases [OF assms(1), of u]) (auto simp: pagedir_is_accessed_def user_page_def)

section \<open>Properties\<close>

definition example_vm :: vm where
  "example_vm = \<lparr>pm = example_pmem, init_page_dir = 0xc0101000, init_ram_pages = 1024, cr3 = 0x100000, tlb = (\<lambda>_. None)\<rparr>"

lemma example_vm_pt: "pt_of example_vm 0xc0100000 i = None"
  by (simp add: pt_of_def example_vm_def example_pmem_def ld32_def)

lemma example_vm_ok: "vm_ok 0xc0100000 example_vm"
proof -
  have "0xc0100 \<in> used_pages example_pmem"
    using bm_rep_example
    by (auto simp: used_pages_def pool_used_def example_pmem_def first_page_def unat_pg_no bm_rep_def marked_def
        intro!: image_eqI [of _ _ 0])
  then have "table_page example_vm 0xc0100000"
    by (simp add: table_page_def example_vm_def pg_ofs_0_iff is_kernel_vaddr_def PHYS_BASE_def unat_pg_no)
  moreover have "ld32 (vram example_vm) a = 0" for a
    by (simp add: example_vm_def example_pmem_def ld32_def)
  ultimately show ?thesis
    using example_pmem_ok example_vm_pt
    by (simp add: vm_ok_def pte_word_def entry_ok_def) (simp add: example_vm_def PHYS_BASE_def)
qed

lemma example_vm_unmapped: "mapping 0xc0100000 example_vm u = None"
  by (simp add: mapping_def pte_word_def example_vm_pt present_page_def)

lemma example_vm_pages: "user_page 0x08048000" "frame_page 0xc0200000 example_vm"
  by (simp_all add: user_page_def frame_page_def pg_ofs_0_iff is_user_vaddr_def is_kernel_vaddr_def PHYS_BASE_def
      example_vm_def PTSHIFT_def PGBITS_def drop_bit_eq_div)

text \<open>
  C1: mapping a page.  A user page that is not mapped can be mapped to any page of RAM.  The
  call fails only if a page table is needed and no page is free for it, and then no
  translation changes; otherwise each address in the page translates to the same offset in
  the frame, and the translation of every other user address is unchanged.
\<close>

theorem pagedir_set_then_get:
  assumes "vm_ok pd s" and "user_page u" and "frame_page k s" and "mapping pd s u = None"
  shows "\<exists>b s'. pagedir_set_page pd u k w s = Some (b, s') \<and> vm_ok pd s'
    \<and> (b \<longleftrightarrow> pt_of s pd (pd_no u) \<noteq> None \<or> palloc_room PAL_ZERO 1 (pm s))
    \<and> (\<forall>va. is_user_vaddr va \<longrightarrow> map_option fst (pagedir_get_page pd va s')
         = (if b \<and> pg_round_down va = u then Some (k + pg_ofs va) else map_option fst (pagedir_get_page pd va s)))"
proof -
  obtain b s' where s': "pagedir_set_page pd u k w s = Some (b, s')" "vm_ok pd s'"
      "mapping pd s' = (if b then (mapping pd s)(u \<mapsto> k) else mapping pd s)"
      "b \<longleftrightarrow> pt_of s pd (pd_no u) \<noteq> None \<or> palloc_room PAL_ZERO 1 (pm s)"
    using pagedir_set_law [OF assms] by blast
  have "map_option fst (pagedir_get_page pd va s')
      = (if b \<and> pg_round_down va = u then Some (k + pg_ofs va) else map_option fst (pagedir_get_page pd va s))"
    if "is_user_vaddr va" for va
    using pd.get_law [OF s'(2) that] pd.get_law [OF assms(1) that] s'(3) by auto
  then show ?thesis using s' by blast
qed

theorem pagedir_set_then_get_witness:
  "\<exists>b s'. pagedir_set_page 0xc0100000 0x08048000 0xc0200000 True example_vm = Some (b, s') \<and> vm_ok 0xc0100000 s'
    \<and> (b \<longleftrightarrow> pt_of example_vm 0xc0100000 (pd_no 0x08048000) \<noteq> None \<or> palloc_room PAL_ZERO 1 (pm example_vm))
    \<and> (\<forall>va. is_user_vaddr va \<longrightarrow> map_option fst (pagedir_get_page 0xc0100000 va s')
         = (if b \<and> pg_round_down va = 0x08048000 then Some (0xc0200000 + pg_ofs va)
            else map_option fst (pagedir_get_page 0xc0100000 va example_vm)))"
  by (rule pagedir_set_then_get [OF example_vm_ok example_vm_pages example_vm_unmapped])

text \<open>
  C29: unmapping a page.  Clearing always succeeds; afterwards no address of the page
  translates, every other user address translates as before, and if the page was mapped in
  the active directory the translation lookaside buffer holds no stale entry.
\<close>

theorem pagedir_clear_then_get:
  assumes "vm_ok pd s" and "user_page u"
  shows "\<exists>s'. pagedir_clear_page pd u s = Some s' \<and> vm_ok pd s'
    \<and> (mapping pd s u \<noteq> None \<longrightarrow> active_pd s = Some pd \<longrightarrow> tlb s' = (\<lambda>_. None))
    \<and> (\<forall>va. is_user_vaddr va \<longrightarrow> map_option fst (pagedir_get_page pd va s')
         = (if pg_round_down va = u then Some 0 else map_option fst (pagedir_get_page pd va s)))"
proof -
  obtain s' where s': "pagedir_clear_page pd u s = Some s'" "vm_ok pd s'"
      "mapping pd s u \<noteq> None \<longrightarrow> active_pd s = Some pd \<longrightarrow> tlb s' = (\<lambda>_. None)"
    using pagedir_clear_law [OF assms] by blast
  have "map_option fst (pagedir_get_page pd va s')
      = (if pg_round_down va = u then Some 0 else map_option fst (pagedir_get_page pd va s))"
    if "is_user_vaddr va" for va
    using pd.get_after_clear [OF assms s'(1) that] pd.get_law [OF assms(1) that] by auto
  then show ?thesis using s' by blast
qed

theorem pagedir_clear_then_get_witness:
  "\<exists>s'. pagedir_clear_page 0xc0100000 0x08048000 example_vm = Some s' \<and> vm_ok 0xc0100000 s'
    \<and> (mapping 0xc0100000 example_vm 0x08048000 \<noteq> None \<longrightarrow> active_pd example_vm = Some 0xc0100000 \<longrightarrow> tlb s' = (\<lambda>_. None))
    \<and> (\<forall>va. is_user_vaddr va \<longrightarrow> map_option fst (pagedir_get_page 0xc0100000 va s')
         = (if pg_round_down va = 0x08048000 then Some 0
            else map_option fst (pagedir_get_page 0xc0100000 va example_vm)))"
  by (rule pagedir_clear_then_get [OF example_vm_ok example_vm_pages(1)])

text \<open>
  C30: the dirty bit.  Setting or clearing it for a page that has a page table is seen by the
  next test of that page, and changes neither the dirty bit of another page, nor the
  accessed bit of any page, nor any translation; clearing it in the active directory empties
  the translation lookaside buffer.
\<close>

theorem pagedir_set_dirty_correct:
  assumes "vm_ok pd s" and "user_page u" and "pt_of s pd (pd_no u) \<noteq> None"
  shows "\<exists>s'. pagedir_set_dirty pd u d s = Some s' \<and> vm_ok pd s' \<and> mapping pd s' = mapping pd s
    \<and> (\<forall>v. user_page v \<longrightarrow> pagedir_is_dirty pd v s' = (if v = u then Some d else pagedir_is_dirty pd v s)
         \<and> pagedir_is_accessed pd v s' = pagedir_is_accessed pd v s)
    \<and> (\<not> d \<longrightarrow> active_pd s = Some pd \<longrightarrow> tlb s' = (\<lambda>_. None))"
proof -
  obtain s' where s': "pagedir_set_dirty pd u d s = Some s'" "vm_ok pd s'" "mapping pd s' = mapping pd s"
      "\<forall>v. user_page v \<longrightarrow> pte_word s' pd v = (if v = u then set_flag PTE_D d (pte_word s pd u) else pte_word s pd v)"
      "\<not> d \<longrightarrow> active_pd s = Some pd \<longrightarrow> tlb s' = (\<lambda>_. None)"
    using set_flag_law [OF assms flag_bits(1,2) refl, of d] pagedir_set_dirty_eq [OF assms refl, of d] by auto
  have "set_flag PTE_D d e AND PTE_D \<noteq> 0 \<longleftrightarrow> d" "set_flag PTE_D d e AND PTE_A = e AND PTE_A" for e
    using test_flag [of e PTE_D]
    by (auto simp: set_flag_def bit.conj_disj_distrib2 pte_consts and.assoc)
  then show ?thesis
    using s' assms(1) by (auto simp: pagedir_is_dirty_eq pagedir_is_accessed_eq)
qed

theorem pagedir_set_dirty_correct_witness:
  "\<exists>s1 s'. pagedir_set_page 0xc0100000 0x08048000 0xc0200000 True example_vm = Some (True, s1)
    \<and> pagedir_set_dirty 0xc0100000 0x08048000 True s1 = Some s'
    \<and> pagedir_is_dirty 0xc0100000 0x08048000 s' = Some True"
proof -
  obtain s1 where s1: "pagedir_set_page 0xc0100000 0x08048000 0xc0200000 True example_vm = Some (True, s1)"
      "vm_ok 0xc0100000 s1" "mapping 0xc0100000 s1 0x08048000 = Some 0xc0200000"
    using pagedir_set_law [OF example_vm_ok example_vm_pages example_vm_unmapped, of True] example_pmem_room [of PAL_ZERO]
    by (auto simp: example_vm_def)
  from s1(3) have "pt_of s1 0xc0100000 (pd_no 0x08048000) \<noteq> None"
    by (auto simp: mapping_def pte_word_def present_page_def split: if_splits option.splits)
  from pagedir_set_dirty_correct [OF s1(2) example_vm_pages(1) this, of True] s1(1) example_vm_pages(1)
  show ?thesis by auto
qed

end
