(* ===== verification/Block.thy ===== *)
theory Block
  imports Prelude
begin

text \<open>
  devices/block.c and the partition driver of devices/partition.c.  A device is a value of
  type \<open>block\<close>: its number, name, type, size in sectors, and driver.  A partition's driver
  data (\<open>struct partition\<close>) holds the underlying device and the first sector; the disk behind
  \<open>ide_operations\<close> is an array of sectors, the effect of devices/ide.c's register protocol.
  The mutable parts, that is the list of devices, the roles, the contents of the disks, and
  the statistics, are the state \<open>blockdev\<close>.  Messages to the console are left out.
\<close>

datatype block_type =
  BLOCK_KERNEL | BLOCK_FILESYS | BLOCK_SCRATCH | BLOCK_SWAP | BLOCK_RAW | BLOCK_FOREIGN

definition BLOCK_ROLE_CNT :: nat where "BLOCK_ROLE_CNT = 4"
definition BLOCK_CNT :: nat where "BLOCK_CNT = 6"
definition BLOCK_SECTOR_SIZE :: nat where "BLOCK_SECTOR_SIZE = 512"

fun block_type_no :: "block_type \<Rightarrow> nat" where
  "block_type_no BLOCK_KERNEL = 0"
| "block_type_no BLOCK_FILESYS = 1"
| "block_type_no BLOCK_SCRATCH = 2"
| "block_type_no BLOCK_SWAP = 3"
| "block_type_no BLOCK_RAW = 4"
| "block_type_no BLOCK_FOREIGN = 5"

datatype block = Block (blk_id: nat) (blk_name: string) (blk_type: block_type) (blk_size: u32) (blk_ops: block_ops)
  and block_ops = ide_operations nat | partition_operations block u32

type_synonym sector = "u8 list"

record blockdev =
  all_blocks :: "block list"
  block_by_role :: "block option list"
  disks :: "nat \<Rightarrow> u32 \<Rightarrow> sector"
  read_cnt :: "nat \<Rightarrow> u64"
  write_cnt :: "nat \<Rightarrow> u64"

definition block_type_name :: "block_type \<Rightarrow> string" where
  "block_type_name ty = [''kernel'', ''filesys'', ''scratch'', ''swap'', ''raw'', ''foreign''] ! block_type_no ty"

definition block_get_role :: "block_type \<Rightarrow> blockdev \<Rightarrow> block option option" where
  "block_get_role role bd = do {
     ASSERT (block_type_no role < BLOCK_ROLE_CNT);
     rd (block_by_role bd) (block_type_no role)
   }"

definition block_set_role :: "block_type \<Rightarrow> block option \<Rightarrow> blockdev \<Rightarrow> blockdev option" where
  "block_set_role role b bd = do {
     ASSERT (block_type_no role < BLOCK_ROLE_CNT);
     roles \<leftarrow> wr (block_by_role bd) (block_type_no role) b;
     Some (bd\<lparr>block_by_role := roles\<rparr>)
   }"

text \<open>\<open>block_first\<close> and \<open>block_next\<close>: the devices in the order of registration.\<close>

definition block_first :: "blockdev \<Rightarrow> block option" where
  "block_first bd = (case all_blocks bd of [] \<Rightarrow> None | b # _ \<Rightarrow> Some b)"

fun next_after :: "block list \<Rightarrow> nat \<Rightarrow> block option" where
  "next_after [] i = None"
| "next_after (b # bs) i =
     (if blk_id b = i then (case bs of [] \<Rightarrow> None | b' # _ \<Rightarrow> Some b') else next_after bs i)"

definition block_next :: "block \<Rightarrow> blockdev \<Rightarrow> block option" where
  "block_next b bd = next_after (all_blocks bd) (blk_id b)"

definition block_get_by_name :: "string \<Rightarrow> blockdev \<Rightarrow> block option" where
  "block_get_by_name name bd = List.find (\<lambda>b. name = blk_name b) (all_blocks bd)"

text \<open>
  Reading and writing.  \<open>block_read\<close> and \<open>block_write\<close> check the sector (\<open>check_sector\<close>
  panics), call the driver and count; the partition driver adds the start sector, with
  32-bit wrap-around, and calls the underlying device.
\<close>

definition check_sector :: "u32 \<Rightarrow> u32 \<Rightarrow> unit option" where
  "check_sector blk_sz sector = (if sector \<ge> blk_sz then None else Some ())"

primrec block_read :: "block \<Rightarrow> u32 \<Rightarrow> blockdev \<Rightarrow> (sector \<times> blockdev) option"
  and partition_read :: "block_ops \<Rightarrow> u32 \<Rightarrow> blockdev \<Rightarrow> (sector \<times> blockdev) option" where
  "block_read (Block i name ty sz ops) sector = (\<lambda>bd. do {
     check_sector sz sector;
     (buffer, bd') \<leftarrow> partition_read ops sector bd;
     Some (buffer, bd'\<lparr>read_cnt := (read_cnt bd')(i := read_cnt bd' i + 1)\<rparr>)
   })"
| "partition_read (ide_operations n) sector = (\<lambda>bd. Some (disks bd n sector, bd))"
| "partition_read (partition_operations b start) sector = block_read b (start + sector)"

primrec block_write :: "block \<Rightarrow> u32 \<Rightarrow> sector \<Rightarrow> blockdev \<Rightarrow> blockdev option"
  and partition_write :: "block_ops \<Rightarrow> u32 \<Rightarrow> sector \<Rightarrow> blockdev \<Rightarrow> blockdev option" where
  "block_write (Block i name ty sz ops) sector buffer = (\<lambda>bd. do {
     check_sector sz sector;
     ASSERT (ty \<noteq> BLOCK_FOREIGN);
     bd' \<leftarrow> partition_write ops sector buffer bd;
     Some (bd'\<lparr>write_cnt := (write_cnt bd')(i := write_cnt bd' i + 1)\<rparr>)
   })"
| "partition_write (ide_operations n) sector buffer =
     (\<lambda>bd. Some (bd\<lparr>disks := (disks bd)(n := (disks bd n)(sector := buffer))\<rparr>))"
| "partition_write (partition_operations b start) sector buffer = block_write b (start + sector) buffer"

text \<open>\<open>block_print_stats\<close> returns what it prints: the devices with their counters.\<close>

fun stats_loop :: "nat \<Rightarrow> nat \<Rightarrow> blockdev \<Rightarrow> (string \<times> block_type \<times> u64 \<times> u64) list option" where
  "stats_loop i 0 bd = Some []"
| "stats_loop i (Suc n) bd = do {
     b \<leftarrow> rd (block_by_role bd) i;
     rest \<leftarrow> stats_loop (Suc i) n bd;
     Some (case b of None \<Rightarrow> rest
           | Some b \<Rightarrow> (blk_name b, blk_type b, read_cnt bd (blk_id b), write_cnt bd (blk_id b)) # rest)
   }"

definition block_print_stats :: "blockdev \<Rightarrow> (string \<times> block_type \<times> u64 \<times> u64) list option" where
  "block_print_stats bd = stats_loop 0 BLOCK_CNT bd"

text \<open>
  Registration: \<open>strlcpy\<close> keeps 15 characters of the name.  A new device gets the next
  number.  The request for memory is an argument.
\<close>

definition block_register ::
    "bool \<Rightarrow> string \<Rightarrow> block_type \<Rightarrow> u32 \<Rightarrow> block_ops \<Rightarrow> blockdev \<Rightarrow> (block \<times> blockdev) option" where
  "block_register malloc_ok name ty sz ops bd =
     (if \<not> malloc_ok then None
      else let i = length (all_blocks bd); b = Block i (take 15 name) ty sz ops
           in Some (b, bd\<lparr>all_blocks := all_blocks bd @ [b],
                         read_cnt := (read_cnt bd)(i := 0), write_cnt := (write_cnt bd)(i := 0)\<rparr>))"

section \<open>The contract of a device\<close>

text \<open>
  What swap and the file system rely on: sectors below the size can be read and written,
  a write changes one sector, and a read returns the contents.
\<close>

locale sector_device =
  fixes valid :: "'b \<Rightarrow> bool"
    and size_of :: "'b \<Rightarrow> u32"
    and contents :: "'b \<Rightarrow> 's \<Rightarrow> u32 \<Rightarrow> sector"
    and read_op :: "'b \<Rightarrow> u32 \<Rightarrow> 's \<Rightarrow> (sector \<times> 's) option"
    and write_op :: "'b \<Rightarrow> u32 \<Rightarrow> sector \<Rightarrow> 's \<Rightarrow> 's option"
  assumes read_law: "valid b \<Longrightarrow> s < size_of b
      \<Longrightarrow> \<exists>st'. read_op b s st = Some (contents b st s, st') \<and> contents b st' = contents b st"
    and write_law: "valid b \<Longrightarrow> s < size_of b
      \<Longrightarrow> \<exists>st'. write_op b s d st = Some st' \<and> contents b st' = (contents b st)(s := d)"
    and read_outside: "\<not> s < size_of b \<Longrightarrow> read_op b s st = None"
    and write_outside: "\<not> s < size_of b \<Longrightarrow> write_op b s d st = None"
begin

lemma read_after_write:
  assumes "valid b" and "s < size_of b" and "t < size_of b" and "write_op b s d st = Some st'"
  shows "\<exists>st''. read_op b t st' = Some (if t = s then d else contents b st t, st'')"
  using write_law [OF assms(1,2), of d st] read_law [OF assms(1,3), of st'] assms(4) by auto

lemma read_total: "valid b \<Longrightarrow> (\<exists>r. read_op b s st = Some r) \<longleftrightarrow> s < size_of b"
  using read_law read_outside by (metis not_None_eq)

lemma write_total: "valid b \<Longrightarrow> (\<exists>st'. write_op b s d st = Some st') \<longleftrightarrow> s < size_of b"
  using write_law write_outside by (metis not_None_eq)

end

section \<open>Devices refine the contract\<close>

text \<open>
  \<open>valid_block\<close>: no level is a foreign device, and each partition lies within its device.
  \<open>disk_sector\<close> is the disk and the sector on it that a sector of a device comes to lie at.
\<close>

primrec valid_block :: "block \<Rightarrow> bool" and valid_ops :: "block_ops \<Rightarrow> u32 \<Rightarrow> bool" where
  "valid_block (Block i name ty sz ops) \<longleftrightarrow> ty \<noteq> BLOCK_FOREIGN \<and> valid_ops ops sz"
| "valid_ops (ide_operations n) sz \<longleftrightarrow> True"
| "valid_ops (partition_operations b start) sz \<longleftrightarrow>
     unat start + unat sz \<le> unat (blk_size b) \<and> valid_block b"

primrec disk_sector :: "block \<Rightarrow> u32 \<Rightarrow> nat \<times> u32" and ops_sector :: "block_ops \<Rightarrow> u32 \<Rightarrow> nat \<times> u32" where
  "disk_sector (Block i name ty sz ops) = ops_sector ops"
| "ops_sector (ide_operations n) = (\<lambda>s. (n, s))"
| "ops_sector (partition_operations b start) = (\<lambda>s. disk_sector b (start + s))"

definition dev_sector :: "block \<Rightarrow> blockdev \<Rightarrow> u32 \<Rightarrow> sector" where
  "dev_sector b bd s = (case disk_sector b s of (n, t) \<Rightarrow> disks bd n t)"

lemma start_plus_less:
  assumes "unat start + unat sz \<le> unat (psz :: u32)" and "s < sz"
  shows "start + s < psz"
proof -
  have "unat start + unat s < unat psz"
    using assms by (simp add: word_less_nat_alt)
  moreover from this have "unat (start + s) = unat start + unat s"
    using unsigned_less [of psz, where ?'a = nat] by (subst unat_add_lem [THEN iffD1]) auto
  ultimately show ?thesis by (simp add: word_less_nat_alt)
qed

lemma read_at_disk:
  fixes ops :: block_ops
  shows "valid_block b \<Longrightarrow> s < blk_size b
      \<Longrightarrow> \<exists>bd'. block_read b s bd = Some (dev_sector b bd s, bd') \<and> disks bd' = disks bd"
    and "valid_ops ops sz \<Longrightarrow> s < sz
      \<Longrightarrow> \<exists>bd'. partition_read ops s bd = Some (case ops_sector ops s of (n, t) \<Rightarrow> disks bd n t, bd')
            \<and> disks bd' = disks bd"
proof (induction b and ops arbitrary: s bd and s bd sz)
  case (Block i name ty sz ops)
  then obtain bd' where "partition_read ops s bd = Some (case ops_sector ops s of (n, t) \<Rightarrow> disks bd n t, bd')"
      "disks bd' = disks bd"
    by (metis block.sel(4) valid_block.simps)
  with Block.prems show ?case
    by (simp add: check_sector_def dev_sector_def)
next
  case (partition_operations b start)
  then show ?case
    using start_plus_less [of start sz "blk_size b" s] by (simp add: dev_sector_def)
qed auto

definition put_sector :: "nat \<times> u32 \<Rightarrow> sector \<Rightarrow> blockdev \<Rightarrow> (nat \<Rightarrow> u32 \<Rightarrow> sector)" where
  "put_sector p d bd = (case p of (n, t) \<Rightarrow> (disks bd)(n := (disks bd n)(t := d)))"

lemma write_at_disk:
  fixes ops :: block_ops
  shows "valid_block b \<Longrightarrow> s < blk_size b
      \<Longrightarrow> \<exists>bd'. block_write b s d bd = Some bd' \<and> disks bd' = put_sector (disk_sector b s) d bd"
    and "valid_ops ops sz \<Longrightarrow> s < sz
      \<Longrightarrow> \<exists>bd'. partition_write ops s d bd = Some bd' \<and> disks bd' = put_sector (ops_sector ops s) d bd"
proof (induction b and ops arbitrary: s bd and s bd sz)
  case (Block i name ty sz ops)
  then obtain bd' where "partition_write ops s d bd = Some bd'" "disks bd' = put_sector (ops_sector ops s) d bd"
    by (metis block.sel(4) valid_block.simps)
  with Block.prems show ?case
    by (simp add: check_sector_def)
next
  case (partition_operations b start)
  then show ?case
    using start_plus_less [of start sz "blk_size b" s] by simp
qed (auto simp: put_sector_def)

text \<open>Distinct sectors of one device lie at distinct places.\<close>

lemma disk_sector_inj:
  fixes ops :: block_ops
  shows "disk_sector b s = disk_sector b t \<Longrightarrow> s = t"
    and "ops_sector ops s = ops_sector ops t \<Longrightarrow> s = t"
  by (induction b and ops arbitrary: s t and s t) (auto dest: add_left_imp_eq)

lemma dev_sector_disks: "disks bd' = disks bd \<Longrightarrow> dev_sector b bd' = dev_sector b bd"
  by (rule ext) (simp add: dev_sector_def)

lemma dev_sector_put:
  assumes "disks bd' = put_sector (disk_sector b s) d bd"
  shows "dev_sector b bd' = (dev_sector b bd)(s := d)"
proof
  fix t
  show "dev_sector b bd' t = ((dev_sector b bd)(s := d)) t"
    using disk_sector_inj(1) [of b t s] assms
    by (cases "disk_sector b s"; cases "disk_sector b t") (auto simp: dev_sector_def put_sector_def)
qed

lemma block_read_outside: "\<not> s < blk_size b \<Longrightarrow> block_read b s bd = None"
  by (cases b) (simp add: check_sector_def not_less)

lemma block_write_outside: "\<not> s < blk_size b \<Longrightarrow> block_write b s d bd = None"
  by (cases b) (simp add: check_sector_def not_less)

interpretation blk: sector_device valid_block blk_size dev_sector block_read block_write
proof unfold_locales
  fix b s bd and d :: sector
  assume "valid_block b" "s < blk_size b"
  then show "\<exists>st'. block_read b s bd = Some (dev_sector b bd s, st') \<and> dev_sector b st' = dev_sector b bd"
    using read_at_disk(1) [of b s bd] by (auto dest: dev_sector_disks)
  show "\<exists>st'. block_write b s d bd = Some st' \<and> dev_sector b st' = (dev_sector b bd)(s := d)"
    using write_at_disk(1) [OF \<open>valid_block b\<close> \<open>s < blk_size b\<close>, of d bd] by (auto dest: dev_sector_put)
qed (rule block_read_outside block_write_outside; assumption)+

lemma BLOCK_SECTOR_SIZE_eq [simp]: "BLOCK_SECTOR_SIZE = 512"
  by (simp add: BLOCK_SECTOR_SIZE_def)

section \<open>Statistics\<close>

text \<open>
  The table of roles has \<open>BLOCK_ROLE_CNT\<close> entries, but the loop runs over \<open>BLOCK_CNT\<close> block
  types, so it always reads past the end of the table.
\<close>

lemma stats_loop_past_end: "length (block_by_role bd) < i + n \<Longrightarrow> i \<le> length (block_by_role bd) \<Longrightarrow> stats_loop i n bd = None"
  by (induction n arbitrary: i) (auto simp: rd_def)

section \<open>Properties\<close>


definition example_partition :: block where
  "example_partition = Block 1 ''hda1'' BLOCK_SWAP 16
     (partition_operations (Block 0 ''hda'' BLOCK_RAW 64 (ide_operations 0)) 32)"

definition example_blockdev :: blockdev where
  "example_blockdev = \<lparr>all_blocks = [], block_by_role = [None, None, None, None],
     disks = (\<lambda>_ _. replicate 512 0), read_cnt = (\<lambda>_. 0), write_cnt = (\<lambda>_. 0)\<rparr>"


text \<open>
  C38: printing the statistics reads past the end of the table of roles, whatever the
  state: the loop bound is the number of block types, not the number of roles.
\<close>

theorem block_print_stats_out_of_bounds:
  "length (block_by_role bd) = BLOCK_ROLE_CNT \<Longrightarrow> block_print_stats bd = None"
  by (simp add: block_print_stats_def stats_loop_past_end BLOCK_ROLE_CNT_def BLOCK_CNT_def)

theorem block_print_stats_out_of_bounds_witness: "block_print_stats example_blockdev = None"
  by (rule block_print_stats_out_of_bounds) (simp add: example_blockdev_def BLOCK_ROLE_CNT_def)

end
