(* ===== verification/Swap.thy ===== *)
theory Swap
  imports Bitmap Block Kmem
begin

text \<open>
  vm/swap.c: a page is kept in eight consecutive sectors of the swap device, found with
  first fit in the bitmap \<open>swap_table\<close> that has a bit per sector.  \<open>swap_sema\<close> only orders
  concurrent callers and is left out: each operation is one call.  The state is the table,
  the device, and the block layer.
\<close>

record swap =
  swap_table :: bitmap
  swap_device :: block
  swap_bd :: blockdev

text \<open>
  \<open>swap_init\<close>: the requests for memory are arguments; the result is \<open>Some None\<close> for
  \<open>false\<close>.  Without a swap device the code reads through a null pointer, and it does not
  check that the semaphore was allocated.
\<close>

definition swap_init :: "bool \<Rightarrow> u32 list option \<Rightarrow> bool \<Rightarrow> blockdev \<Rightarrow> swap option option" where
  "swap_init mb mbits msema bd = do {
     role \<leftarrow> block_get_role BLOCK_SWAP bd;
     dev \<leftarrow> role;
     t \<leftarrow> bitmap_create mb mbits (unat (blk_size dev));
     (case t of
        None \<Rightarrow> Some None
      | Some tbl \<Rightarrow> do {
          ASSERT msema;
          Some (Some \<lparr>swap_table = tbl, swap_device = dev, swap_bd = bd\<rparr>)
        })
   }"

fun swap_write_loop :: "nat \<Rightarrow> block \<Rightarrow> nat \<Rightarrow> u32 \<Rightarrow> kmem \<Rightarrow> blockdev \<Rightarrow> blockdev option" where
  "swap_write_loop 0 dev index frame_addr m bd = Some bd"
| "swap_write_loop (Suc n) dev index frame_addr m bd = do {
     bd' \<leftarrow> block_write dev (of_nat index) (get_bytes m frame_addr BLOCK_SECTOR_SIZE) bd;
     swap_write_loop n dev (index + 1) (frame_addr + of_nat BLOCK_SECTOR_SIZE) m bd'
   }"

definition swap_write :: "u32 \<Rightarrow> kmem \<Rightarrow> swap \<Rightarrow> (nat \<times> swap) option" where
  "swap_write frame_addr m sw = do {
     (index, tbl) \<leftarrow> bitmap_scan_and_flip (swap_table sw) 0 8 False;
     let sw' = sw\<lparr>swap_table := tbl\<rparr>;
     if index \<noteq> BITMAP_ERROR then do {
       bd \<leftarrow> swap_write_loop 8 (swap_device sw) index frame_addr m (swap_bd sw);
       Some (index, sw'\<lparr>swap_bd := bd\<rparr>)
     } else Some (index, sw')
   }"

fun swap_read_loop :: "nat \<Rightarrow> block \<Rightarrow> nat \<Rightarrow> u32 \<Rightarrow> kmem \<Rightarrow> blockdev \<Rightarrow> (kmem \<times> blockdev) option" where
  "swap_read_loop 0 dev sector frame_addr m bd = Some (m, bd)"
| "swap_read_loop (Suc n) dev sector frame_addr m bd = do {
     (buffer, bd') \<leftarrow> block_read dev (of_nat sector) bd;
     swap_read_loop n dev (sector + 1) (frame_addr + of_nat BLOCK_SECTOR_SIZE) (put_bytes m frame_addr buffer) bd'
   }"

definition swap_read :: "nat \<Rightarrow> u32 \<Rightarrow> kmem \<Rightarrow> swap \<Rightarrow> (kmem \<times> swap) option" where
  "swap_read sector frame_addr m sw = do {
     tbl \<leftarrow> bitmap_mark (swap_table sw) sector;
     (m', bd) \<leftarrow> swap_read_loop 8 (swap_device sw) sector frame_addr m (swap_bd sw);
     Some (m', sw\<lparr>swap_table := tbl, swap_bd := bd\<rparr>)
   }"

definition swap_remove :: "nat \<Rightarrow> swap \<Rightarrow> swap option" where
  "swap_remove sector sw = do {
     tbl \<leftarrow> bitmap_reset (swap_table sw) sector;
     Some (sw\<lparr>swap_table := tbl\<rparr>)
   }"

section \<open>Transfers\<close>

text \<open>\<open>slot dev bd i n\<close>: \<open>n\<close> sectors from sector \<open>i\<close>.\<close>

definition slot :: "block \<Rightarrow> blockdev \<Rightarrow> nat \<Rightarrow> nat \<Rightarrow> sector list" where
  "slot dev bd i n = map (\<lambda>k. dev_sector dev bd (of_nat k)) [i..<i + n]"

definition full_sectors :: "sector list \<Rightarrow> bool" where
  "full_sectors ss \<longleftrightarrow> (\<forall>d \<in> set ss. length d = 512)"

lemma slot_0 [simp]: "slot dev bd i 0 = []"
  by (simp add: slot_def)

lemma slot_Suc: "slot dev bd i (Suc n) = dev_sector dev bd (of_nat i) # slot dev bd (Suc i) n"
  by (simp add: slot_def upt_conv_Cons del: upt_Suc)

lemma slot_cong:
  assumes "\<And>k. i \<le> k \<Longrightarrow> k < i + n \<Longrightarrow> dev_sector dev bd (of_nat k) = dev_sector dev bd' (of_nat k)"
  shows "slot dev bd i n = slot dev bd' i n"
  using assms by (simp add: slot_def)

lemma length_concat_full: "full_sectors ss \<Longrightarrow> length (concat ss) = length ss * 512"
  by (induction ss) (auto simp: full_sectors_def)

lemma length_slot [simp]: "length (slot dev bd i n) = n"
  by (simp add: slot_def)

lemma of_nat_sector: "k < unat (blk_size dev) \<Longrightarrow> (of_nat k :: u32) < blk_size dev \<and> unat (of_nat k :: u32) = k"
  using unsigned_less [of "blk_size dev", where ?'a = nat]
  by (simp add: word_less_nat_alt unat_of_nat)

lemma swap_write_loop_ok:
  assumes "valid_block dev" and "i + n \<le> unat (blk_size dev)"
  shows "\<exists>bd'. swap_write_loop n dev i a m bd = Some bd' \<and> concat (slot dev bd' i n) = get_bytes m a (n * 512)
    \<and> full_sectors (slot dev bd' i n) \<and> (\<forall>s. unat s < i \<or> i + n \<le> unat s \<longrightarrow> dev_sector dev bd' s = dev_sector dev bd s)"
  using assms(2)
proof (induction n arbitrary: i a bd)
  case (Suc n)
  then have i: "(of_nat i :: u32) < blk_size dev" "unat (of_nat i :: u32) = i"
    using of_nat_sector [of i dev] by auto
  obtain bd1 where bd1: "block_write dev (of_nat i) (get_bytes m a 512) bd = Some bd1"
      "dev_sector dev bd1 = (dev_sector dev bd)(of_nat i := get_bytes m a 512)"
    using blk.write_law [OF assms(1) i(1)] by blast
  obtain bd' where bd': "swap_write_loop n dev (i + 1) (a + 512) m bd1 = Some bd'"
      "concat (slot dev bd' (i + 1) n) = get_bytes m (a + 512) (n * 512)" "full_sectors (slot dev bd' (i + 1) n)"
      "\<And>s. unat s < i + 1 \<or> i + 1 + n \<le> unat s \<Longrightarrow> dev_sector dev bd' s = dev_sector dev bd1 s"
    using Suc.IH [of "i + 1" "a + 512" bd1] Suc.prems by auto
  have "dev_sector dev bd' (of_nat i) = get_bytes m a 512"
    using bd'(4) [of "of_nat i"] i(2) bd1(2) by simp
  then have "concat (slot dev bd' i (Suc n)) = get_bytes m a (Suc n * 512) \<and> full_sectors (slot dev bd' i (Suc n))"
    using bd'(2,3) get_bytes_append [of m a 512 "n * 512"] by (simp add: slot_Suc full_sectors_def)
  moreover have "dev_sector dev bd' s = dev_sector dev bd s" if "unat s < i \<or> i + Suc n \<le> unat s" for s
    using bd'(4) [of s] bd1(2) that i(2) by auto
  ultimately show ?case
    using bd1(1) bd'(1) by auto
qed (simp add: get_bytes_def full_sectors_def)

lemma swap_read_loop_ok:
  assumes "valid_block dev" and "i + n \<le> unat (blk_size dev)" and "n * 512 \<le> 2 ^ 32"
    and "full_sectors (slot dev bd i n)"
  shows "\<exists>bd'. swap_read_loop n dev i a m bd = Some (put_bytes m a (concat (slot dev bd i n)), bd')
    \<and> dev_sector dev bd' = dev_sector dev bd"
  using assms(2-4)
proof (induction n arbitrary: i a m bd)
  case (Suc n)
  have i: "(of_nat i :: u32) < blk_size dev"
    using Suc.prems(1) of_nat_sector [of i dev] by auto
  obtain bd1 where bd1: "block_read dev (of_nat i) bd = Some (dev_sector dev bd (of_nat i), bd1)"
      "dev_sector dev bd1 = dev_sector dev bd"
    using blk.read_law [OF assms(1) i] by blast
  have len: "length (dev_sector dev bd (of_nat i)) = 512"
    using Suc.prems(3) by (simp add: slot_Suc full_sectors_def)
  have slot1: "slot dev bd1 = slot dev bd"
    by (intro ext) (simp add: slot_def bd1(2))
  obtain bd' where bd': "swap_read_loop n dev (i + 1) (a + 512) (put_bytes m a (dev_sector dev bd (of_nat i))) bd1
      = Some (put_bytes (put_bytes m a (dev_sector dev bd (of_nat i))) (a + 512) (concat (slot dev bd (i + 1) n)), bd')"
      "dev_sector dev bd' = dev_sector dev bd"
    using Suc.IH [of "i + 1" bd1 "a + 512" "put_bytes m a (dev_sector dev bd (of_nat i))"] Suc.prems bd1(2) slot1
    by (auto simp: slot_Suc full_sectors_def)
  have "put_bytes (put_bytes m a (dev_sector dev bd (of_nat i))) (a + 512) (concat (slot dev bd (i + 1) n))
      = put_bytes m a (concat (slot dev bd i (Suc n)))"
    using put_bytes_append [of "dev_sector dev bd (of_nat i)" "concat (slot dev bd (i + 1) n)" m a] len Suc.prems(2)
      length_concat_full [of "slot dev bd (i + 1) n"] Suc.prems(3)
    by (simp add: slot_Suc full_sectors_def)
  with bd1 bd' show ?case by auto
qed (simp add: put_bytes_def in_range_def)

lemma swap_read_loop_keeps:
  assumes "valid_block dev"
  shows "swap_read_loop n dev i a m bd = Some (m', bd') \<Longrightarrow> dev_sector dev bd' = dev_sector dev bd"
proof (induction n arbitrary: i a m bd)
  case (Suc n)
  then obtain buf bd1 where bd1: "block_read dev (of_nat i) bd = Some (buf, bd1)"
      "swap_read_loop n dev (i + 1) (a + 512) (put_bytes m a buf) bd1 = Some (m', bd')"
    by (auto simp: bind_eq_Some_iff)
  moreover have "of_nat i < blk_size dev"
    using bd1(1) block_read_outside by fastforce
  ultimately have "dev_sector dev bd1 = dev_sector dev bd"
    using blk.read_law [OF assms, of "of_nat i" bd] by auto
  with Suc.IH [OF bd1(2)] show ?case by simp
qed simp

section \<open>Histories of calls\<close>

definition swap_ok :: "swap \<Rightarrow> bool" where
  "swap_ok sw \<longleftrightarrow> valid_block (swap_device sw) \<and> bm_rep (swap_table sw) (bm_bits (swap_table sw))
     \<and> bit_cnt (swap_table sw) = unat (blk_size (swap_device sw))"

definition in_use :: "swap \<Rightarrow> nat \<Rightarrow> bool" where
  "in_use sw i \<longleftrightarrow> run_at (bm_bits (swap_table sw)) i 8 True"

definition page_in_slot :: "swap \<Rightarrow> nat \<Rightarrow> sector list" where
  "page_in_slot sw i = slot (swap_device sw) (swap_bd sw) i 8"

datatype swap_op = Swap_out u32 kmem | Swap_in nat u32 kmem | Swap_drop nat

fun swap_step :: "swap_op \<Rightarrow> swap \<Rightarrow> swap option" where
  "swap_step (Swap_out a m) sw = map_option snd (swap_write a m sw)"
| "swap_step (Swap_in i a m) sw = map_option snd (swap_read i a m sw)"
| "swap_step (Swap_drop i) sw = swap_remove i sw"

fun swap_run :: "swap_op list \<Rightarrow> swap \<Rightarrow> swap option" where
  "swap_run [] sw = Some sw"
| "swap_run (op # ops) sw = do { sw' \<leftarrow> swap_step op sw; swap_run ops sw' }"

fun leaves :: "nat \<Rightarrow> swap_op \<Rightarrow> bool" where
  "leaves i (Swap_drop j) \<longleftrightarrow> j < i \<or> i + 8 \<le> j"
| "leaves i op \<longleftrightarrow> True"

lemma swap_ok_rep: "swap_ok sw \<Longrightarrow> bm_rep tbl ys \<Longrightarrow> length ys = bit_cnt (swap_table sw)
    \<Longrightarrow> swap_ok (sw\<lparr>swap_table := tbl, swap_bd := bd\<rparr>)"
  by (auto simp: swap_ok_def bm_rep_def)

text \<open>Writing a page out.\<close>

lemma swap_write_ok:
  assumes "swap_ok sw" and "swap_write a m sw = Some (i, sw')" and "i \<noteq> BITMAP_ERROR"
  shows "swap_ok sw'" and "swap_device sw' = swap_device sw" and "concat (page_in_slot sw' i) = get_bytes m a 4096"
    and "run_at (bm_bits (swap_table sw)) i 8 False"
    and "bm_bits (swap_table sw') = fill (bm_bits (swap_table sw)) i 8 True"
    and "\<forall>s. unat s < i \<or> i + 8 \<le> unat s
       \<longrightarrow> dev_sector (swap_device sw) (swap_bd sw') s = dev_sector (swap_device sw) (swap_bd sw) s"
    and "full_sectors (page_in_slot sw' i)"
proof -
  let ?xs = "bm_bits (swap_table sw)"
  have rep: "bm_rep (swap_table sw) ?xs" and dev: "valid_block (swap_device sw)"
    using assms(1) by (auto simp: swap_ok_def)
  obtain tbl bd where tbl: "bitmap_scan_and_flip (swap_table sw) 0 8 False = Some (i, tbl)"
      and bd: "swap_write_loop 8 (swap_device sw) i a m (swap_bd sw) = Some bd"
      and sw': "sw' = sw\<lparr>swap_table := tbl, swap_bd := bd\<rparr>"
    using assms(2,3) by (auto simp: swap_write_def bind_eq_Some_iff Let_def split: if_splits)
  note run = bm.alloc_sound [OF rep tbl assms(3)]
  show "run_at ?xs i 8 False" by (rule run(1))
  show "swap_ok sw'"
    unfolding sw' using assms(1) run(2) by (rule swap_ok_rep) simp
  show "swap_device sw' = swap_device sw" by (simp add: sw')
  show "bm_bits (swap_table sw') = fill ?xs i 8 True"
    using run(2) by (simp add: sw' bm_rep_def)
  have "i + 8 \<le> unat (blk_size (swap_device sw))"
    using run(1) assms(1) by (simp add: run_at_def swap_ok_def)
  from swap_write_loop_ok [OF dev this, of a m "swap_bd sw"] bd
  show "concat (page_in_slot sw' i) = get_bytes m a 4096" "full_sectors (page_in_slot sw' i)"
    and "\<forall>s. unat s < i \<or> i + 8 \<le> unat s
       \<longrightarrow> dev_sector (swap_device sw) (swap_bd sw') s = dev_sector (swap_device sw) (swap_bd sw) s"
    by (auto simp: sw' page_in_slot_def)
qed

lemma swap_write_full:
  assumes "swap_ok sw" and "swap_write a m sw = Some (BITMAP_ERROR, sw')"
  shows "sw' = sw"
proof -
  have rep: "bm_rep (swap_table sw) (bm_bits (swap_table sw))"
    using assms(1) by (simp add: swap_ok_def)
  obtain tbl where "bitmap_scan_and_flip (swap_table sw) 0 8 False = Some (BITMAP_ERROR, tbl)"
      and "sw' = sw\<lparr>swap_table := tbl\<rparr>"
    using assms(2) by (auto simp: swap_write_def bind_eq_Some_iff Let_def split: if_splits)
  then show ?thesis
    by (cases rule: bm.alloc_total [OF rep, of 8]) auto
qed

text \<open>A slot in use keeps its page while other slots are written, read and dropped.\<close>

lemma runs_apart:
  assumes "run_at xs i 8 True" and "run_at xs j 8 False"
  shows "i + 8 \<le> j \<or> j + 8 \<le> i"
proof (rule ccontr)
  assume "\<not> (i + 8 \<le> j \<or> j + 8 \<le> i)"
  then show False
    using run_at_nth [OF assms(1), of "max i j"] run_at_nth [OF assms(2), of "max i j"]
    by (cases "i \<le> j") (auto simp: max_def)
qed

lemma slot_unat_cong:
  assumes "i + 8 \<le> unat (blk_size dev)"
    and "\<forall>s. i \<le> unat s \<and> unat s < i + 8 \<longrightarrow> dev_sector dev bd' s = dev_sector dev bd s"
  shows "slot dev bd' i 8 = slot dev bd i 8"
proof (rule slot_cong)
  fix k assume "i \<le> k" "k < i + 8"
  moreover from this have "unat (of_nat k :: u32) = k"
    using assms(1) of_nat_sector [of k dev] by simp
  ultimately show "dev_sector dev bd' (of_nat k) = dev_sector dev bd (of_nat k)"
    using assms(2) by simp
qed

lemma run_at_update: "run_at xs i n v \<Longrightarrow> j < i \<or> i + n \<le> j \<or> w = v \<Longrightarrow> run_at (xs[j := w]) i n v"
  by (cases "j < length xs") (auto simp: run_at_def nth_list_update)

lemma swap_step_keeps:
  assumes "swap_ok sw" and "swap_step op sw = Some sw'" and "leaves i op" and "in_use sw i"
  shows "swap_ok sw' \<and> swap_device sw' = swap_device sw \<and> in_use sw' i \<and> page_in_slot sw' i = page_in_slot sw i"
proof (cases op)
  case (Swap_out a m)
  then obtain j where j: "swap_write a m sw = Some (j, sw')" using assms(2) by auto
  show ?thesis
  proof (cases "j = BITMAP_ERROR")
    case True
    then show ?thesis using swap_write_full [OF assms(1)] j assms by auto
  next
    case False
    note w = swap_write_ok [OF assms(1) j False]
    have apart: "i + 8 \<le> j \<or> j + 8 \<le> i"
      using runs_apart w(4) assms(4) by (auto simp: in_use_def)
    have "i + 8 \<le> unat (blk_size (swap_device sw))"
      using assms(1,4) by (simp add: in_use_def run_at_def swap_ok_def)
    then have "page_in_slot sw' i = page_in_slot sw i"
      unfolding page_in_slot_def w(2) by (rule slot_unat_cong) (use w(6) apart in auto)
    moreover have "in_use sw' i"
      using assms(4) apart by (auto simp: in_use_def w(5) run_at_def)
    ultimately show ?thesis using w(1,2) by simp
  qed
next
  case (Swap_in j a m)
  then obtain tbl m' bd where "bitmap_mark (swap_table sw) j = Some tbl"
      "swap_read_loop 8 (swap_device sw) j a m (swap_bd sw) = Some (m', bd)"
      "sw' = sw\<lparr>swap_table := tbl, swap_bd := bd\<rparr>"
    using assms(2) by (auto simp: swap_read_def bind_eq_Some_iff)
  moreover from this have "bm_rep tbl ((bm_bits (swap_table sw))[j := True])"
    using assms(1) by (auto simp: swap_ok_def intro: bitmap_mark_sound)
  moreover have "dev_sector (swap_device sw) bd = dev_sector (swap_device sw) (swap_bd sw)"
    using calculation(2) assms(1) by (intro swap_read_loop_keeps) (auto simp: swap_ok_def)
  ultimately show ?thesis
    using assms(1,4) run_at_update [of "bm_bits (swap_table sw)" i 8 True j True]
    by (auto simp: in_use_def page_in_slot_def slot_def bm_rep_def intro: swap_ok_rep)
next
  case (Swap_drop j)
  then obtain tbl where "bitmap_reset (swap_table sw) j = Some tbl" "sw' = sw\<lparr>swap_table := tbl\<rparr>"
    using assms(2) by (auto simp: swap_remove_def bind_eq_Some_iff)
  moreover from this have "bm_rep tbl ((bm_bits (swap_table sw))[j := False])"
    using assms(1) by (auto simp: swap_ok_def intro: bitmap_reset_sound)
  ultimately show ?thesis
    using assms(1,3,4) Swap_drop run_at_update [of "bm_bits (swap_table sw)" i 8 True j False]
      swap_ok_rep [OF assms(1), of tbl _ "swap_bd sw"]
    by (auto simp: in_use_def page_in_slot_def bm_rep_def)
qed

lemma swap_run_keeps:
  assumes "swap_ok sw" and "swap_run ops sw = Some sw'" and "\<forall>op \<in> set ops. leaves i op" and "in_use sw i"
  shows "swap_ok sw' \<and> swap_device sw' = swap_device sw \<and> in_use sw' i \<and> page_in_slot sw' i = page_in_slot sw i"
  using assms
proof (induction ops arbitrary: sw)
  case (Cons op ops)
  then obtain sw1 where sw1: "swap_step op sw = Some sw1" "swap_run ops sw1 = Some sw'"
    by (auto simp: bind_eq_Some_iff)
  with Cons.prems swap_step_keeps [OF Cons.prems(1) sw1(1), of i] Cons.IH [of sw1] show ?case by simp
qed simp

lemma swap_read_ok:
  assumes "swap_ok sw" and "in_use sw i"
    and "full_sectors (page_in_slot sw i)"
  shows "\<exists>sw'. swap_read i a m sw = Some (put_bytes m a (concat (page_in_slot sw i)), sw')"
proof -
  have dev: "valid_block (swap_device sw)" and rep: "bm_rep (swap_table sw) (bm_bits (swap_table sw))"
      and i: "i + 8 \<le> unat (blk_size (swap_device sw))" "i < bit_cnt (swap_table sw)"
    using assms(1,2) by (auto simp: swap_ok_def in_use_def run_at_def)
  obtain tbl where "bitmap_mark (swap_table sw) i = Some tbl"
    using bitmap_mark_rep [OF rep, of i] i(2) by auto
  then show ?thesis
    using swap_read_loop_ok [OF dev i(1) _ assms(3) [unfolded page_in_slot_def], of a m]
    by (auto simp: swap_read_def page_in_slot_def)
qed

lemma swap_write_total:
  assumes "swap_ok sw" and "\<exists>i. run_at (bm_bits (swap_table sw)) i 8 False"
  shows "\<exists>i sw'. swap_write a m sw = Some (i, sw') \<and> i \<noteq> BITMAP_ERROR"
proof -
  have dev: "valid_block (swap_device sw)" and rep: "bm_rep (swap_table sw) (bm_bits (swap_table sw))"
    using assms(1) by (auto simp: swap_ok_def)
  obtain i tbl where i: "bitmap_scan_and_flip (swap_table sw) 0 8 False = Some (i, tbl)" "i \<noteq> BITMAP_ERROR"
      "run_at (bm_bits (swap_table sw)) i 8 False"
    using bm.alloc_total [OF rep, of 8] assms(2) by metis
  then have "i + 8 \<le> unat (blk_size (swap_device sw))"
    using assms(1) by (simp add: run_at_def swap_ok_def)
  then show ?thesis
    using swap_write_loop_ok [OF dev, of i 8 a m "swap_bd sw"] i by (auto simp: swap_write_def)
qed

text \<open>A page written out is in its slot until a sector of the slot is removed.\<close>

lemma swap_saved:
  assumes "swap_ok sw" and "swap_write a m sw = Some (i, sw1)" and "i \<noteq> BITMAP_ERROR"
    and "swap_run ops sw1 = Some sw2" and "\<forall>op \<in> set ops. leaves i op"
  shows "swap_ok sw2" and "in_use sw2 i" and "full_sectors (page_in_slot sw2 i)"
    and "concat (page_in_slot sw2 i) = get_bytes m a 4096" and "i < 2 ^ 32"
proof -
  note w = swap_write_ok [OF assms(1-3)]
  have "in_use sw1 i"
    using w(4) by (simp add: in_use_def w(5) run_at_fill run_at_def)
  then have "swap_ok sw2" "in_use sw2 i" "page_in_slot sw2 i = page_in_slot sw1 i"
    using swap_run_keeps [OF w(1) assms(4,5)] by auto
  then show "swap_ok sw2" "in_use sw2 i" "full_sectors (page_in_slot sw2 i)" "concat (page_in_slot sw2 i) = get_bytes m a 4096"
    using w(3,7) by simp_all
  have "i + 8 \<le> unat (blk_size (swap_device sw))" using w(4) assms(1) by (simp add: run_at_def swap_ok_def)
  then show "i < 2 ^ 32" using unsigned_less [of "blk_size (swap_device sw)", where ?'a = nat] by simp
qed

section \<open>Properties\<close>

definition example_swap :: swap where
  "example_swap = \<lparr>swap_table = \<lparr>bit_cnt = 16, bits = [0]\<rparr>, swap_device = example_partition,
     swap_bd = example_blockdev\<rparr>"

lemma example_swap_ok: "swap_ok example_swap"
  by (simp add: swap_ok_def example_swap_def example_partition_def bm_rep_def bm_ok_def)

lemma example_swap_run: "\<exists>i. run_at (bm_bits (swap_table example_swap)) i 8 False"
  by (rule exI [of _ 0]) (simp add: run_at_def example_swap_def bm_bits_def)

lemma example_swap_write: "\<exists>i sw'. swap_write a m example_swap = Some (i, sw') \<and> i \<noteq> BITMAP_ERROR"
  by (rule swap_write_total [OF example_swap_ok example_swap_run])

text \<open>
  C3: a page that was written to swap can be read back, byte for byte, into any frame, after
  any sequence of other swap-outs, swap-ins and removals that does not remove a sector of
  its slot.
\<close>

theorem swap_roundtrip:
  assumes "swap_ok sw" and "swap_write a m sw = Some (i, sw1)" and "i \<noteq> BITMAP_ERROR"
    and "swap_run ops sw1 = Some sw2" and "\<forall>op \<in> set ops. leaves i op"
  shows "\<exists>m2 sw3. swap_read i b m1 sw2 = Some (m2, sw3) \<and> get_bytes m2 b PGSIZE = get_bytes m a PGSIZE"
proof -
  note k = swap_saved [OF assms]
  have "length (concat (page_in_slot sw2 i)) = 4096"
    by (simp only: k(4)) simp
  moreover obtain sw3 where "swap_read i b m1 sw2 = Some (put_bytes m1 b (concat (page_in_slot sw2 i)), sw3)"
    using swap_read_ok [OF k(1-3), of b m1] by auto
  ultimately show ?thesis
    using get_put_bytes [of "concat (page_in_slot sw2 i)" m1 b] k(4) by auto
qed

theorem swap_roundtrip_witness:
  "\<exists>i sw1. swap_write 0xc0100000 ucast example_swap = Some (i, sw1) \<and>
    (\<exists>m2 sw3. swap_read i 0xc0200000 (\<lambda>_. 0) sw1 = Some (m2, sw3)
       \<and> get_bytes m2 0xc0200000 PGSIZE = get_bytes ucast 0xc0100000 PGSIZE)"
proof -
  obtain i sw1 where w: "swap_write 0xc0100000 ucast example_swap = Some (i, sw1)" "i \<noteq> BITMAP_ERROR"
    using example_swap_write by blast
  from swap_roundtrip [OF example_swap_ok w, of "[]" sw1] w(1) show ?thesis by auto
qed

text \<open>
  C37: removing a page from swap frees only the first of its eight sectors; the other seven
  stay marked in the table.  (The comment of \<open>swap_remove\<close> has it run when a process ends.)
\<close>

theorem swap_remove_leaks:
  assumes "swap_ok sw" and "swap_write a m sw = Some (i, sw1)" and "i \<noteq> BITMAP_ERROR"
    and "swap_remove i sw1 = Some sw2"
  shows "bm_bits (swap_table sw2) = fill (bm_bits (swap_table sw)) (i + 1) 7 True"
proof -
  note w = swap_write_ok [OF assms(1-3)]
  obtain tbl where "bitmap_reset (swap_table sw1) i = Some tbl" "sw2 = sw1\<lparr>swap_table := tbl\<rparr>"
    using assms(4) by (auto simp: swap_remove_def bind_eq_Some_iff)
  then have "bm_bits (swap_table sw2) = (fill (bm_bits (swap_table sw)) i 8 True)[i := False]"
    using bitmap_reset_sound [of "swap_table sw1" _ i tbl] w(1) by (simp add: swap_ok_def bm_rep_def w(5))
  also have "\<dots> = fill (bm_bits (swap_table sw)) (i + 1) 7 True"
    using w(4) run_at_nth [OF w(4), of i] by (intro nth_equalityI) (auto simp: nth_list_update run_at_def)
  finally show ?thesis .
qed

theorem swap_remove_leaks_witness:
  "\<exists>i sw1 sw2. swap_write 0xc0100000 ucast example_swap = Some (i, sw1) \<and> swap_remove i sw1 = Some sw2
    \<and> bm_bits (swap_table sw2) = fill (bm_bits (swap_table example_swap)) (i + 1) 7 True"
proof -
  obtain i sw1 where w: "swap_write 0xc0100000 ucast example_swap = Some (i, sw1)" "i \<noteq> BITMAP_ERROR"
    using example_swap_write by blast
  note ok = swap_write_ok [OF example_swap_ok w]
  have "i < length (bm_bits (swap_table sw1))"
    using ok(4) by (simp add: ok(5) run_at_def del: length_bm_bits)
  then obtain sw2 where "swap_remove i sw1 = Some sw2"
    using ok(1) bitmap_reset_rep [of "swap_table sw1"] by (force simp: swap_remove_def swap_ok_def)
  with swap_remove_leaks [OF example_swap_ok w] w(1) show ?thesis by blast
qed

end
