(* ===== verification/Suppage.thy ===== *)
theory Suppage
  imports Hash Pagedir Swap
begin

text \<open>
  vm/page.c: the supplemental page table of a process.  An entry (\<open>struct spte\<close>) is an
  object in memory; \<open>spt\<close> has the entries by address and a table is a hash table of
  addresses, keyed by the virtual address of the entry.  Results of \<open>malloc\<close> are arguments:
  \<open>new\<close> is the address of a new entry (\<open>0\<close> when there is no memory) and \<open>mem\<close> says whether
  the hash table can get new buckets.  Paging in (\<open>load_page\<close>) works on the memory and page
  directory of theory Pagedir, the swap space of theory Swap and the block layer it shares
  with the file system.
\<close>

record spte =
  sp_writable :: bool
  sp_location :: u8
  sp_sector :: u32
  sp_read_bytes :: u32
  sp_vaddr :: u32

type_synonym spt = "nat \<Rightarrow> spte"

definition FILE_SYS :: u8 where "FILE_SYS = 3"
definition SWAP_SYS :: u8 where "SWAP_SYS = 2"
definition MEM_SYS :: u8 where "MEM_SYS = 1"
definition ZERO_SYS :: u8 where "ZERO_SYS = 0"

section \<open>The table\<close>

definition spte_hash :: "spt \<Rightarrow> nat \<Rightarrow> u32" where
  "spte_hash st e = hash_bytes (le_bytes (sp_vaddr (st e)))"

definition less_than :: "spt \<Rightarrow> nat \<Rightarrow> nat \<Rightarrow> bool" where
  "less_than st a b \<longleftrightarrow> sp_vaddr (st a) < sp_vaddr (st b)"

definition supdir_create :: "nat list list \<Rightarrow> bool \<Rightarrow> nat hash" where
  "supdir_create junk mem = fst (hash_init junk mem)"

text \<open>The search uses an entry on the stack, here at address \<open>0\<close>, of which only \<open>vaddr\<close> is set.\<close>

definition lookup_sup_page :: "spt \<Rightarrow> nat hash \<Rightarrow> u32 \<Rightarrow> nat option option" where
  "lookup_sup_page st table vaddr =
     (let st' = st(0 := (st 0)\<lparr>sp_vaddr := vaddr\<rparr>) in hash_find (spte_hash st') (less_than st') table 0)"

definition supdir_set_page ::
    "nat \<Rightarrow> bool \<Rightarrow> spt \<Rightarrow> nat hash \<Rightarrow> u32 \<Rightarrow> u32 \<Rightarrow> u32 \<Rightarrow> u8 \<Rightarrow> bool \<Rightarrow> (bool \<times> spt \<times> nat hash) option" where
  "supdir_set_page new mem st table vaddr sector read_bytes location writable = do {
     found \<leftarrow> lookup_sup_page st table vaddr;
     let entry = (case found of Some e \<Rightarrow> e | None \<Rightarrow> new);
     if entry = 0 then Some (False, st, table)
     else do {
       let st = st(entry := \<lparr>sp_writable = writable, sp_location = location, sp_sector = sector,
                             sp_read_bytes = read_bytes, sp_vaddr = vaddr\<rparr>);
       (_, table) \<leftarrow> hash_replace (spte_hash st) (less_than st) mem table entry;
       Some (True, st, table)
     }
   }"

definition supdir_set_swap :: "spt \<Rightarrow> nat hash \<Rightarrow> u32 \<Rightarrow> u32 \<Rightarrow> (bool \<times> spt) option" where
  "supdir_set_swap st table vaddr swap_sector = do {
     found \<leftarrow> lookup_sup_page st table vaddr;
     (case found of
        Some e \<Rightarrow> Some (True, st(e := (st e)\<lparr>sp_location := SWAP_SYS, sp_sector := swap_sector, sp_read_bytes := of_nat PGSIZE\<rparr>))
      | None \<Rightarrow> Some (False, st))
   }"

text \<open>The entry is freed: its address comes back in the result.\<close>

definition supdir_clear_page :: "bool \<Rightarrow> spt \<Rightarrow> nat hash \<Rightarrow> u32 \<Rightarrow> (nat option \<times> nat hash) option" where
  "supdir_clear_page mem st table upage = do {
     ASSERT (pg_ofs upage = 0);
     ASSERT (is_user_vaddr upage);
     found \<leftarrow> lookup_sup_page st table upage;
     (case found of
        Some e \<Rightarrow> do {
          (_, table) \<leftarrow> hash_delete (spte_hash st) (less_than st) mem table e;
          Some (Some e, table)
        }
      | None \<Rightarrow> Some (None, table))
   }"

text \<open>
  \<open>supdir_destroy\<close> gives back the swap sectors of the pages that are not present, then the
  buckets; the entries themselves are not freed.
\<close>

partial_function (option) destroy_loop ::
  "u32 \<Rightarrow> spt \<Rightarrow> nat hash \<Rightarrow> nat hash_iterator \<Rightarrow> nat position \<Rightarrow> vm \<Rightarrow> swap \<Rightarrow> (vm \<times> swap) option" where
  "destroy_loop pd st table it e s sw =
     (case e of
        Elem a \<Rightarrow> do {
          (pte, s) \<leftarrow> lookup_page pd (sp_vaddr (st a)) False s;
          sw \<leftarrow> (if pte \<noteq> 0 \<and> \<not> (ld32 (vram s) pte AND PTE_P \<noteq> 0) \<and> sp_location (st a) = SWAP_SYS
                 then swap_remove (unat (sp_sector (st a))) sw else Some sw);
          (e, it) \<leftarrow> hash_next table it;
          destroy_loop pd st table it e s sw
        }
      | _ \<Rightarrow> Some (s, sw))"

definition supdir_destroy :: "u32 \<Rightarrow> spt \<Rightarrow> nat hash option \<Rightarrow> vm \<Rightarrow> swap \<Rightarrow> (vm \<times> swap) option" where
  "supdir_destroy pd st table s sw =
     (case table of
        None \<Rightarrow> Some (s, sw)
      | Some table \<Rightarrow> do {
          (e, it) \<leftarrow> hash_next table (hash_first table);
          destroy_loop pd st table it e s sw
        })"

section \<open>Paging in\<close>

text \<open>
  The loop that reads a page from the file system device, with \<open>read_bytes\<close> as the
  \<open>int32_t\<close> it is; the result has the address after the bytes read.
\<close>

function load_file_loop :: "block \<Rightarrow> u32 \<Rightarrow> u32 \<Rightarrow> int \<Rightarrow> kmem \<Rightarrow> blockdev \<Rightarrow> (u32 \<times> kmem \<times> blockdev) option" where
  "load_file_loop dev sector frame read_bytes m bd =
     (if read_bytes > 0 then do {
        (buffer, bd) \<leftarrow> block_read dev sector bd;
        load_file_loop dev (sector + 1)
          (if read_bytes \<ge> int BLOCK_SECTOR_SIZE then frame + of_nat BLOCK_SECTOR_SIZE else frame + of_int read_bytes)
          (read_bytes - int BLOCK_SECTOR_SIZE) (put_bytes m frame buffer) bd
      } else Some (frame, m, bd))"
  by auto

termination
  by (relation "measure (\<lambda>(dev, sector, frame, read_bytes, m, bd). nat read_bytes)") (auto simp: BLOCK_SECTOR_SIZE_def)

declare load_file_loop.simps [simp del]

text \<open>\<open>load_page\<close> in two parts: filling the frame from the place the entry names, then mapping it.\<close>

definition fetch_page :: "block \<Rightarrow> spte \<Rightarrow> u32 \<Rightarrow> kmem \<Rightarrow> swap \<Rightarrow> (kmem \<times> swap) option" where
  "fetch_page fs_device entry frame m sw = do {
     let zero_bytes = of_nat PGSIZE - sp_read_bytes entry;
     (frame', m, sw) \<leftarrow>
       (if sp_location entry = FILE_SYS then do {
          (frame', m, bd) \<leftarrow> load_file_loop fs_device (sp_sector entry) frame (sint (sp_read_bytes entry)) m (swap_bd sw);
          Some (frame', m, sw\<lparr>swap_bd := bd\<rparr>)
        }
        else if sp_location entry = SWAP_SYS then do {
          (m, sw) \<leftarrow> swap_read (unat (sp_sector entry)) frame m sw;
          Some (frame, m, sw)
        }
        else Some (frame, m, sw));
     Some (if zero_bytes > 0 then set_bytes m frame' 0 (unat zero_bytes) else m, sw)
   }"

definition load_page ::
    "block \<Rightarrow> u32 \<Rightarrow> spt \<Rightarrow> nat hash \<Rightarrow> u32 \<Rightarrow> u32 \<Rightarrow> vm \<Rightarrow> swap \<Rightarrow> (bool \<times> vm \<times> swap) option" where
  "load_page fs_device pd st supdir vpage frame s sw = do {
     found \<leftarrow> lookup_sup_page st supdir vpage;
     (case found of
        None \<Rightarrow> Some (False, s, sw)
      | Some e \<Rightarrow> do {
          (m, sw) \<leftarrow> fetch_page fs_device (st e) frame (vram s) sw;
          (_, s) \<leftarrow> pagedir_set_page pd vpage frame (sp_writable (st e)) (s\<lparr>pm := (pm s)\<lparr>ram := m\<rparr>\<rparr>);
          Some (True, s, sw)
        })
   }"

section \<open>The table as a map from pages to entries\<close>

abbreviation spt_key :: "spt \<Rightarrow> nat \<Rightarrow> u32" where
  "spt_key st e \<equiv> sp_vaddr (st e)"

interpretation spt: hash_keys "spte_hash st" "less_than st" "spt_key st" for st
  by unfold_locales (auto simp: spte_hash_def less_than_def)

definition sup_ok :: "spt \<Rightarrow> nat hash \<Rightarrow> bool" where
  "sup_ok st table \<longleftrightarrow> hash_ok (spte_hash st) (spt_key st) table \<and> 0 \<notin> set (elems table)"

definition sup_map :: "spt \<Rightarrow> nat hash \<Rightarrow> u32 \<Rightarrow> spte option" where
  "sup_map st table va = map_option st (contents (spt_key st) table va)"

lemma hash_ok_cong:
  assumes "\<And>e. e \<in> set (elems h) \<Longrightarrow> hf' e = hf e" and "\<And>e. e \<in> set (elems h) \<Longrightarrow> key' e = key e"
  shows "hash_ok hf' key' h = hash_ok hf key h" and "contents key' h = contents key h"
proof -
  have keys: "map key' (elems h) = map key (elems h)" using assms(2) by simp
  show "hash_ok hf' key' h = hash_ok hf key h"
    using placed_cong [of h hf' hf] assms(1) unfolding hash_ok_def keys by blast
  have "map (\<lambda>e. (key' e, e)) (elems h) = map (\<lambda>e. (key e, e)) (elems h)" using assms(2) by simp
  then show "contents key' h = contents key h" unfolding contents_def keyed_def by (rule arg_cong)
qed

lemma sup_cong:
  assumes "\<And>e. e \<in> set (elems table) \<Longrightarrow> sp_vaddr (st' e) = sp_vaddr (st e)"
  shows "sup_ok st' table = sup_ok st table" and "contents (spt_key st') table = contents (spt_key st) table"
  using hash_ok_cong [of table "spte_hash st'" "spte_hash st" "spt_key st'" "spt_key st"] assms
  by (simp_all add: sup_ok_def spte_hash_def)

lemma lookup_sup_page_ok:
  assumes "sup_ok st table"
  shows "lookup_sup_page st table va = Some (contents (spt_key st) table va)"
proof -
  let ?st = "st(0 := (st 0)\<lparr>sp_vaddr := va\<rparr>)"
  have "sp_vaddr (?st e) = sp_vaddr (st e)" if "e \<in> set (elems table)" for e
    using assms that by (auto simp: sup_ok_def)
  note cong = sup_cong [of table ?st st, OF this]
  show ?thesis
    using spt.hash_find_ok [of ?st table 0] cong assms by (simp add: lookup_sup_page_def sup_ok_def)
qed

lemma contents_elem: "sup_ok st table \<Longrightarrow> contents (spt_key st) table va = Some e \<longleftrightarrow> e \<in> set (elems table) \<and> sp_vaddr (st e) = va"
  by (simp add: sup_ok_def spt.old_elem)

lemma sup_nonnull: "sup_ok st table \<Longrightarrow> e \<in> set (elems table) \<Longrightarrow> e \<noteq> 0"
  by (rule notI) (simp add: sup_ok_def)

lemma supdir_set_page_ok:
  assumes "sup_ok st table" and "new \<notin> set (elems table)"
    and "v = \<lparr>sp_writable = w, sp_location = loc, sp_sector = sec, sp_read_bytes = rb, sp_vaddr = va\<rparr>"
  shows "\<exists>b st' table'. supdir_set_page new mem st table va sec rb loc w = Some (b, st', table') \<and> sup_ok st' table'
    \<and> sup_map st' table' = (if b then (sup_map st table)(va \<mapsto> v) else sup_map st table)
    \<and> (b \<longleftrightarrow> sup_map st table va \<noteq> None \<or> new \<noteq> 0)"
proof -
  define e where "e = (case contents (spt_key st) table va of Some e \<Rightarrow> e | None \<Rightarrow> new)"
  have e: "e \<in> set (elems table) \<longrightarrow> sp_vaddr (st e) = va" "e = 0 \<longleftrightarrow> contents (spt_key st) table va = None \<and> new = 0"
    using assms contents_elem [OF assms(1), of va e] sup_nonnull [OF assms(1)]
    by (cases "contents (spt_key st) table va"; force simp: e_def)+
  define st' where "st' = st(e := v)"
  have u: "st' e = v" "x \<noteq> e \<Longrightarrow> st' x = st x" "sp_vaddr v = va" for x by (simp_all add: st'_def assms(3))
  have "sp_vaddr (st' x) = sp_vaddr (st x)" if "x \<in> set (elems table)" for x
    using e(1) that u by (cases "x = e") simp_all
  note cong = sup_cong [of table st' st, OF this]
  obtain old table' where r: "hash_replace (spte_hash st') (less_than st') mem table e = Some (old, table')"
      "hash_ok (spte_hash st') (spt_key st') table'" "contents (spt_key st') table' = (contents (spt_key st) table)(va \<mapsto> e)"
    using spt.hash_replace_ok [of st' table mem e] cong assms(1) u by (auto simp: sup_ok_def)
  note run = supdir_set_page_def lookup_sup_page_ok [OF assms(1)] Let_def
  show ?thesis
  proof (cases "e = 0")
    case True
    then show ?thesis
      using assms(1) e(2) by (auto simp: run e_def sup_map_def)
  next
    case False
    have other: "x \<noteq> e" if "contents (spt_key st) table k = Some x" "k \<noteq> va" for k x
      using that e(1) contents_elem [OF assms(1), of k x] by auto
    have "sup_map st' table' k = ((sup_map st table)(va \<mapsto> v)) k" for k
      using other [of k] u by (cases "contents (spt_key st) table k"; cases "k = va") (simp_all add: sup_map_def r(3))
    then have "sup_map st' table' = (sup_map st table)(va \<mapsto> v)" by blast
    moreover have "x \<noteq> 0" if "x \<in> set (elems table')" for x
    proof -
      have "((contents (spt_key st) table)(va \<mapsto> e)) (spt_key st' x) = Some x"
        using that spt.old_elem [OF r(2), of "spt_key st' x" x] r(3) by simp
      then show ?thesis
        using False contents_elem [OF assms(1), of "spt_key st' x" x] sup_nonnull [OF assms(1), of x]
        by (cases "spt_key st' x = va") simp_all
    qed
    then have "sup_ok st' table'" using r(2) unfolding sup_ok_def by blast
    moreover have "supdir_set_page new mem st table va sec rb loc w = Some (True, st', table')"
      using r(1) False unfolding run bind.bind_lunit e_def [symmetric] assms(3) [symmetric] st'_def [symmetric] by simp
    ultimately show ?thesis
      using False e(2) by (auto simp: sup_map_def)
  qed
qed

lemma supdir_set_swap_ok:
  assumes "sup_ok st table"
  shows "\<exists>st'. supdir_set_swap st table va sec = Some (sup_map st table va \<noteq> None, st') \<and> sup_ok st' table
    \<and> sup_map st' table = (case sup_map st table va of None \<Rightarrow> sup_map st table
        | Some v \<Rightarrow> (sup_map st table)(va \<mapsto> v\<lparr>sp_location := SWAP_SYS, sp_sector := sec, sp_read_bytes := of_nat PGSIZE\<rparr>))"
proof (cases "contents (spt_key st) table va")
  case None
  then show ?thesis using assms by (simp add: supdir_set_swap_def lookup_sup_page_ok sup_map_def)
next
  case (Some e)
  define st' where "st' = st(e := (st e)\<lparr>sp_location := SWAP_SYS, sp_sector := sec, sp_read_bytes := of_nat PGSIZE\<rparr>)"
  have u: "st' e = (st e)\<lparr>sp_location := SWAP_SYS, sp_sector := sec, sp_read_bytes := of_nat PGSIZE\<rparr>"
      "x \<noteq> e \<Longrightarrow> st' x = st x" for x by (simp_all add: st'_def)
  have "sp_vaddr (st' x) = sp_vaddr (st x)" for x using u by (cases "x = e") simp_all
  note cong = sup_cong [of table st' st, OF this]
  have other: "x \<noteq> e" if "contents (spt_key st) table k = Some x" "k \<noteq> va" for k x
    using that Some contents_elem [OF assms(1), of va e] contents_elem [OF assms(1), of k x] by auto
  have "sup_map st' table k = ((sup_map st table)(va \<mapsto> st' e)) k" for k
    using other [of k] u Some
    by (cases "contents (spt_key st) table k"; cases "k = va") (simp_all add: sup_map_def cong(2))
  then have "sup_map st' table = (sup_map st table)(va \<mapsto> st' e)" by blast
  moreover have "supdir_set_swap st table va sec = Some (True, st')"
    using Some assms by (simp add: supdir_set_swap_def lookup_sup_page_ok st'_def)
  ultimately show ?thesis
    using Some assms cong(1) u(1) by (simp add: sup_map_def)
qed

lemma supdir_clear_page_ok:
  assumes "sup_ok st table" and "user_page va"
  shows "\<exists>table'. supdir_clear_page mem st table va = Some (contents (spt_key st) table va, table') \<and> sup_ok st table'
    \<and> sup_map st table' = (sup_map st table)(va := None)"
proof (cases "contents (spt_key st) table va")
  case None
  then have "sup_map st table = (sup_map st table)(va := None)" by (auto simp: sup_map_def)
  then show ?thesis
    using None assms by (auto simp: supdir_clear_page_def lookup_sup_page_ok user_page_def)
next
  case (Some e)
  then have "sp_vaddr (st e) = va" using contents_elem [OF assms(1), of va e] by simp
  then obtain old table' where r: "hash_delete (spte_hash st) (less_than st) mem table e = Some (old, table')"
      "hash_ok (spte_hash st) (spt_key st) table'" "contents (spt_key st) table' = (contents (spt_key st) table)(va := None)"
    using spt.hash_delete_ok [of st table mem e] assms(1) by (auto simp: sup_ok_def)
  have "x \<noteq> 0" if "x \<in> set (elems table')" for x
  proof -
    have "((contents (spt_key st) table)(va := None)) (spt_key st x) = Some x"
      using that spt.old_elem [OF r(2), of "spt_key st x" x] r(3) by simp
    then show ?thesis
      using contents_elem [OF assms(1), of "spt_key st x" x] sup_nonnull [OF assms(1), of x]
      by (cases "spt_key st x = va") simp_all
  qed
  then have "sup_ok st table'" using r(2) unfolding sup_ok_def by blast
  moreover have "sup_map st table' = (sup_map st table)(va := None)" by (auto simp: sup_map_def r(3))
  ultimately show ?thesis
    using Some assms r(1) by (auto simp: supdir_clear_page_def lookup_sup_page_ok user_page_def)
qed

lemma supdir_create_elems [simp]: "elems (supdir_create junk True) = []"
  by (simp add: supdir_create_def hash_init_def hash_clear_def clear_loop_concat elems_def)

lemma supdir_create_ok: "sup_ok st (supdir_create junk True)" "sup_map st (supdir_create junk True) = (\<lambda>_. None)"
proof -
  show "sup_ok st (supdir_create junk True)" "sup_map st (supdir_create junk True) = (\<lambda>_. None)"
    using hash_init_ok(2) [of True "spte_hash st" "spt_key st" junk] supdir_create_elems [of junk] by (simp_all add: sup_ok_def supdir_create_def sup_map_def fun_eq_iff)
qed

section \<open>What paging in leaves in the frame\<close>

lemma page_round_down: "pg_ofs va = 0 \<Longrightarrow> pg_round_down va = va"
  by (auto simp: word_unat_eq_iff unat_pg_round_down unat_pg_ofs)

text \<open>The loop reads the same sectors as the loop of \<open>swap_read\<close>.\<close>

lemma load_file_loop_swap:
  assumes "i + (n + 511) div 512 \<le> 2 ^ 32"
  shows "load_file_loop dev (of_nat i) a (int n) m bd
    = map_option (\<lambda>(m', bd'). (a + of_nat n, m', bd')) (swap_read_loop ((n + 511) div 512) dev i a m bd)"
  using assms
proof (induction n arbitrary: i a m bd rule: less_induct)
  case (less n)
  show ?case
  proof (cases "n = 0")
    case True
    then show ?thesis by (simp add: load_file_loop.simps)
  next
    case False
    note step = load_file_loop.simps [of dev "of_nat i" a "int n"]
    show ?thesis
    proof (cases "n < 512")
      case True
      then have "(n + 511) div 512 = 1" using \<open>n \<noteq> 0\<close> by (intro div_nat_eqI) auto
      then show ?thesis
        using True \<open>n \<noteq> 0\<close> by (simp add: step load_file_loop.simps [of _ _ _ "int n - 512"] split_def map_option_bind comp_def)
    next
      case False
      then obtain k where k: "n = k + 512" by (metis add.commute le_Suc_ex not_less)
      then have c: "(n + 511) div 512 = Suc ((k + 511) div 512)" by simp
      have "load_file_loop dev (of_nat i + 1) (a + 512) (int k) m' bd'
          = map_option (\<lambda>(m', bd'). (a + of_nat n, m', bd')) (swap_read_loop ((k + 511) div 512) dev (i + 1) (a + 512) m' bd')" for m' bd'
        using less.IH [of k "i + 1" "a + 512" m' bd'] less.prems k c by (simp add: ac_simps)
      moreover have "0 < int n" "512 \<le> int n" "int n - 512 = int k" using k by simp_all
      ultimately show ?thesis
        unfolding c step by (cases "block_read dev (of_nat i) bd") auto
    qed
  qed
qed

text \<open>
  A page that is in use and not one of the tables of the directory: writing to it changes no
  translation, and mapping pages does not write to it.
\<close>

definition data_page :: "u32 \<Rightarrow> vm \<Rightarrow> u32 \<Rightarrow> bool" where
  "data_page pd s q \<longleftrightarrow> table_page s q \<and> q \<noteq> pd \<and> (\<forall>i < 768. pt_of s pd i \<noteq> Some q)"

lemma ld32_same_page:
  assumes "pg_ofs p = 0" and "unat i < 1024" and "\<And>x. pg_no x = pg_no p \<Longrightarrow> m' x = m x"
  shows "ld32 m' (p + 4 * i) = ld32 m (p + 4 * i)"
  by (rule ld32_cong) (use assms in \<open>simp add: entry_byte_page\<close>)

lemma st32_other_page:
  assumes "pg_ofs p = 0" and "unat i < 1024" and "pg_no x \<noteq> pg_no p"
  shows "st32 m (p + 4 * i) v x = m x"
  using assms entry_byte_page [OF assms(1,2), of 0] entry_byte_page [OF assms(1,2), of 1]
    entry_byte_page [OF assms(1,2), of 2] entry_byte_page [OF assms(1,2), of 3]
  by (auto simp: st32_def)

lemma write_data_page:
  assumes ok: "vm_ok pd s" and q: "data_page pd s q" and m: "\<forall>x. pg_no x \<noteq> pg_no q \<longrightarrow> m x = vram s x"
    and s': "s' = s\<lparr>pm := (pm s)\<lparr>ram := m\<rparr>\<rparr>"
  shows "vm_ok pd s'" and "mapping pd s' = mapping pd s" and "data_page pd s' q" and "frame_page k s' = frame_page k s"
    and "i < 768 \<Longrightarrow> pt_of s' pd i = pt_of s pd i"
proof -
  have tp: "table_page s' p = table_page s p" for p by (simp add: s' table_page_def)
  have same: "ld32 (vram s') (p + 4 * i) = ld32 (vram s) (p + 4 * i)" if "table_page s p" "p \<noteq> q" "unat i < 1024" for p i
    using that q m page_eq_iff [of p q] by (intro ld32_same_page) (auto simp: s' data_page_def table_page_def)
  have pde: "ld32 (vram s') (pd + 4 * i) = ld32 (vram s) (pd + 4 * i)" if "i < 768" for i
    using same [OF vm_ok_pd [OF ok] _ less_768 [OF that]] q by (auto simp: data_page_def)
  have pt: "pt_of s' pd i = pt_of s pd i" if "i < 768" for i
    using pde [OF that] by (simp add: pt_of_def)
  have pte: "pte_word s' pd va = pte_word s pd va" if "is_user_vaddr va" for va
  proof (cases "pt_of s pd (pd_no va)")
    case (Some p)
    then have "table_page s p" "p \<noteq> q"
      using vm_ok_pt(2) [OF ok user_pd_less [OF that]] q user_pd_less [OF that] by (auto simp: data_page_def)
    then show ?thesis using Some pt [OF user_pd_less [OF that]] same [of p "pt_no va"] pt_no_less [of va] by (simp add: pte_word_def)
  qed (use pt [OF user_pd_less [OF that]] in \<open>simp add: pte_word_def\<close>)
  show "vm_ok pd s'"
  proof (rule vm_okI [OF ok])
    show "\<exists>p. pt_of s' pd i = Some p \<and> table_page s' p \<and> p \<noteq> pd" if "i < 768" "ld32 (vram s') (pd + 4 * i) \<noteq> 0" for i
      using that pde [OF that(1)] pt [OF that(1)] tp vm_ok_pt(1,2) [OF ok that(1)] by auto
    show "i = j" if "i < 768" "j < 768" "pt_of s' pd i = Some p" "pt_of s' pd j = Some p" for i j p
      using that pt vm_ok_pt(3) [OF ok that(1,2)] by auto
    show "entry_ok (pte_word s' pd va)" if "is_user_vaddr va" for va
      using pte [OF that] vm_ok_entry [OF ok that] by simp
  qed (use ok tp in \<open>auto simp: vm_ok_def s'\<close>)
  show "mapping pd s' = mapping pd s" using pte by (auto simp: mapping_def user_page_def fun_eq_iff)
  show "data_page pd s' q" using q pt tp by (auto simp: data_page_def)
  show "frame_page k s' = frame_page k s" by (simp add: frame_page_def s')
  show "i < 768 \<Longrightarrow> pt_of s' pd i = pt_of s pd i" by (rule pt)
qed

lemma lookup_create_memory:
  assumes ok: "vm_ok pd s" and va: "is_user_vaddr va" and q: "data_page pd s q" and run: "lookup_page pd va True s = Some (a, s1)"
  shows "pg_no x = pg_no q \<Longrightarrow> vram s1 x = vram s x" and "a \<noteq> 0 \<Longrightarrow> \<exists>pt. a = pt + 4 * pt_no va \<and> pg_ofs pt = 0 \<and> pt \<noteq> q"
proof -
  have pd: "pd \<noteq> 0" "pg_ofs pd = 0" "q \<noteq> pd" "pg_ofs q = 0"
    using table_page_nonnull [OF vm_ok_pd [OF ok], of 0] vm_ok_pd [OF ok] q by (auto simp: data_page_def table_page_def)
  have "(pg_no x = pg_no q \<longrightarrow> vram s1 x = vram s x) \<and> (a \<noteq> 0 \<longrightarrow> (\<exists>pt. a = pt + 4 * pt_no va \<and> pg_ofs pt = 0 \<and> pt \<noteq> q))"
  proof (cases "pt_of s pd (pd_no va)")
    case (Some pt)
    then have "ld32 (vram s) (pd + 4 * pd_no va) \<noteq> 0" "pde_get_pt (ld32 (vram s) (pd + 4 * pd_no va)) = Some pt"
      by (auto simp: pt_of_def Let_def split: if_splits)
    moreover have "pg_ofs pt = 0" "pt \<noteq> q"
      using Some vm_ok_pt(2) [OF ok user_pd_less [OF va]] q user_pd_less [OF va] by (auto simp: data_page_def table_page_def)
    ultimately show ?thesis using run va pd by (auto simp: lookup_page_def Let_def)
  next
    case None
    then have pde: "ld32 (vram s) (pd + 4 * pd_no va) = 0" using vm_ok_pt(1) [OF ok user_pd_less [OF va]] by simp
    then obtain pt p where get: "palloc_get_page PAL_ZERO (pm s) = Some (pt, p)"
      using run va pd by (auto simp: lookup_page_def Let_def bind_eq_Some_iff)
    show ?thesis
    proof (cases "pt = 0")
      case True
      then have "\<not> palloc_room PAL_ZERO 1 (pm s)"
        using get palloc_get_room [OF vm_ok_palloc [OF ok], of 1 PAL_ZERO] by (auto simp: palloc_get_page_def)
      then have "p = pm s"
        using palloc_get_full [OF vm_ok_palloc [OF ok], of 1 PAL_ZERO] get by (auto simp: palloc_get_page_def PAL_ZERO_def PAL_ASSERT_def)
      then show ?thesis using run va pd pde get True by (auto simp: lookup_page_def Let_def)
    next
      case False
      note f = fresh_table [OF ok get False]
      have n: "pt \<noteq> q" using f(6) q by (auto simp: data_page_def)
      obtain e where e: "pde_create pt = Some e" "pde_get_pt e = Some pt" using pde_roundtrip [OF f(1,2)] by blast
      then have "s1 = set_word (pd + 4 * pd_no va) e (s\<lparr>pm := p\<rparr>)" "a = pt + 4 * pt_no va"
        using run va pd pde get False by (auto simp: lookup_page_def Let_def)
      moreover have "pg_no q \<noteq> pg_no pd" "pg_no q \<noteq> pg_no pt" using pd n f(1) page_eq_iff by metis+
      ultimately show ?thesis
        using f(1,4) n pd pd_no_less [of va] st32_other_page [of pd "pd_no va" x] in_page_iff [OF f(1), of x]
        by (auto simp: set_bytes_def)
    qed
  qed
  then show "pg_no x = pg_no q \<Longrightarrow> vram s1 x = vram s x" "a \<noteq> 0 \<Longrightarrow> \<exists>pt. a = pt + 4 * pt_no va \<and> pg_ofs pt = 0 \<and> pt \<noteq> q"
    by blast+
qed

lemma set_page_keeps_data:
  assumes ok: "vm_ok pd s" and u: "user_page u" and q: "data_page pd s q" and run: "pagedir_set_page pd u k w s = Some (b, s')"
    and x: "pg_no x = pg_no q"
  shows "vram s' x = vram s x"
proof -
  obtain a s1 where l: "lookup_page pd u True s = Some (a, s1)"
      and r: "s' = s1 \<or> (a \<noteq> 0 \<and> (\<exists>e. s' = set_word a e s1))"
    using run by (auto simp: pagedir_set_page_def bind_eq_Some_iff split: if_splits)
  have va: "is_user_vaddr u" using u by (simp add: user_page_def)
  note m = lookup_create_memory [OF ok va q l]
  have "pg_ofs q = 0" using q by (simp add: data_page_def table_page_def)
  then show ?thesis
    using r m(1) [OF x] m(2) x pt_no_less [of u] page_eq_iff st32_other_page by (auto; metis)
qed

lemma unat_offset: "i \<le> 4096 \<Longrightarrow> n \<le> 4096 \<Longrightarrow> unat (of_nat i - of_nat n :: u32) = (if n \<le> i then i - n else 2 ^ 32 + i - n)"
  by (simp add: unat_sub_if' unat_of_nat) linarith

lemma page_bytes:
  assumes "n \<le> 4096" and "n \<le> length bs" and "length bs \<le> 4096"
  shows "get_bytes (set_bytes (put_bytes m a bs) (a + of_nat n) 0 (4096 - n)) a 4096 = take n bs @ replicate (4096 - n) 0"
    and "\<not> in_range a 4096 x \<Longrightarrow> set_bytes (put_bytes m a bs) (a + of_nat n) 0 (4096 - n) x = m x"
proof -
  show "get_bytes (set_bytes (put_bytes m a bs) (a + of_nat n) 0 (4096 - n)) a 4096 = take n bs @ replicate (4096 - n) 0"
    (is "?l = ?r")
  proof (rule nth_equalityI)
    show "?l ! i = ?r ! i" if "i < length ?l" for i
    proof -
      have i: "i < 4096" using that by simp
      have "unat (of_nat i - of_nat n :: u32) < 4096 - n \<longleftrightarrow> n \<le> i"
        using i assms(1) by (auto simp: unat_offset)
      moreover have "unat (of_nat i :: u32) = i" using i by (simp add: unat_of_nat)
      ultimately show ?thesis
        using i assms by (auto simp: nth_append set_bytes_def put_bytes_def in_range_def)
    qed
  qed (use assms in simp)
  assume "\<not> in_range a 4096 x"
  moreover have "in_range a 4096 x" if "in_range (a + of_nat n) (4096 - n) x"
  proof -
    have "unat (x - a - of_nat n) < 4096 - n" using that by (simp add: in_range_def diff_diff_add)
    moreover have "x - a = (x - a - of_nat n) + of_nat n" by simp
    moreover have "unat (of_nat n :: u32) = n" using assms(1) by (simp add: unat_of_nat)
    ultimately have "unat (x - a) \<le> unat (x - a - of_nat n) + n \<and> unat (x - a - of_nat n) < 4096 - n"
      using unat_word_ariths(1) [of "x - a - of_nat n" "of_nat n"] mod_less_eq_dividend by (metis (no_types, lifting))
    then have "unat (x - a) < 4096" using assms(1) by linarith
    then show ?thesis by (simp add: in_range_def)
  qed
  ultimately show "set_bytes (put_bytes m a bs) (a + of_nat n) 0 (4096 - n) x = m x"
    using assms(3) by (auto simp: set_bytes_def put_bytes_def in_range_def)
qed

text \<open>The bytes that belong in a page, by the place its entry names.\<close>

definition page_of_file :: "block \<Rightarrow> blockdev \<Rightarrow> spte \<Rightarrow> u8 list" where
  "page_of_file dev bd v =
     (let n = unat (sp_read_bytes v) in
      take n (concat (slot dev bd (unat (sp_sector v)) ((n + 511) div 512))) @ replicate (4096 - n) 0)"

definition file_entry_ok :: "block \<Rightarrow> blockdev \<Rightarrow> spte \<Rightarrow> bool" where
  "file_entry_ok dev bd v \<longleftrightarrow>
     (let c = (unat (sp_read_bytes v) + 511) div 512 in
      sp_location v = FILE_SYS \<and> unat (sp_read_bytes v) \<le> 4096 \<and> valid_block dev
      \<and> unat (sp_sector v) + c \<le> unat (blk_size dev) \<and> full_sectors (slot dev bd (unat (sp_sector v)) c))"

lemma small_read_bytes:
  assumes "unat (rb :: u32) \<le> 4096"
  shows "sint rb = int (unat rb)" and "unat (4096 - rb) = 4096 - unat rb" and "0 < 4096 - rb \<longleftrightarrow> unat rb \<noteq> 4096"
proof -
  have "uint rb = int (unat rb)" by (rule uint_nat)
  then have "- 2147483648 \<le> uint rb" "uint rb < 2147483648" using assms by linarith+
  then show "sint rb = int (unat rb)" by (simp add: sint_uint signed_take_bit_int_eq_self)
  show "unat (4096 - rb) = 4096 - unat rb" using assms by (simp add: unat_sub_if')
  then show "0 < 4096 - rb \<longleftrightarrow> unat rb \<noteq> 4096" using assms unfolding word_less_nat_alt by auto
qed

text \<open>The frame after loading from the file system, and after loading from swap.\<close>

lemma fetch_page_file:
  assumes "file_entry_ok dev (swap_bd sw) v"
  shows "\<exists>m' bd'. fetch_page dev v a m sw = Some (m', sw\<lparr>swap_bd := bd'\<rparr>) \<and> get_bytes m' a 4096 = page_of_file dev (swap_bd sw) v
    \<and> (\<forall>x. \<not> in_range a 4096 x \<longrightarrow> m' x = m x) \<and> dev_sector dev bd' = dev_sector dev (swap_bd sw)"
proof -
  define n i where "n = unat (sp_read_bytes v)" and "i = unat (sp_sector v)"
  let ?c = "(n + 511) div 512"
  let ?bs = "concat (slot dev (swap_bd sw) i ?c)"
  have ok: "sp_location v = FILE_SYS" "n \<le> 4096" "valid_block dev" "i + ?c \<le> unat (blk_size dev)" "full_sectors (slot dev (swap_bd sw) i ?c)"
    using assms by (auto simp: file_entry_ok_def Let_def n_def i_def)
  have c: "?c \<le> 8" using ok(2) by linarith
  have len: "length ?bs = ?c * 512" using length_concat_full [OF ok(5)] by simp
  have bounds: "n \<le> length ?bs" "length ?bs \<le> 4096" "?c * 512 \<le> 2 ^ 32" using c by (simp_all add: len)
  have "i + ?c \<le> 2 ^ 32" using ok(4) unsigned_less [of "blk_size dev", where ?'a = nat] by simp
  from load_file_loop_swap [OF this, of dev a m "swap_bd sw"] swap_read_loop_ok [OF ok(3,4) bounds(3) ok(5), of a m]
  obtain bd' where "load_file_loop dev (sp_sector v) a (int n) m (swap_bd sw) = Some (a + of_nat n, put_bytes m a ?bs, bd')"
      and bd': "dev_sector dev bd' = dev_sector dev (swap_bd sw)"
    by (auto simp: i_def)
  note run = this and rb = small_read_bytes [of "sp_read_bytes v", folded n_def, OF ok(2)]
  define m' where "m' = set_bytes (put_bytes m a ?bs) (a + of_nat n) 0 (4096 - n)"
  have "(if 4096 - sp_read_bytes v > 0 then set_bytes (put_bytes m a ?bs) (a + of_nat n) 0 (unat (4096 - sp_read_bytes v))
      else put_bytes m a ?bs) = m'"
    using rb(2,3) by (cases "n = 4096") (simp_all add: m'_def n_def set_bytes_def in_range_def)
  then have "fetch_page dev v a m sw = Some (m', sw\<lparr>swap_bd := bd'\<rparr>)"
    using run(1) rb(1) ok(1) by (simp add: fetch_page_def Let_def split: if_splits)
  moreover have "get_bytes m' a 4096 = page_of_file dev (swap_bd sw) v"
    using page_bytes(1) [OF ok(2) bounds(1,2), of m a] by (simp add: m'_def page_of_file_def Let_def n_def i_def)
  ultimately show ?thesis
    using page_bytes(2) [OF ok(2) bounds(1,2), of a _ m] bd' by (auto simp: m'_def)
qed

lemma fetch_page_swap:
  assumes "sp_location v = SWAP_SYS" and "unat (sp_read_bytes v) = 4096" and "swap_ok sw"
    and "in_use sw (unat (sp_sector v))" and "full_sectors (page_in_slot sw (unat (sp_sector v)))"
  shows "\<exists>m' sw'. fetch_page dev v a m sw = Some (m', sw') \<and> get_bytes m' a 4096 = concat (page_in_slot sw (unat (sp_sector v)))
    \<and> (\<forall>x. \<not> in_range a 4096 x \<longrightarrow> m' x = m x)"
proof -
  let ?bs = "concat (page_in_slot sw (unat (sp_sector v)))"
  have len: "length ?bs = 4096" using length_concat_full [OF assms(5)] by (simp add: page_in_slot_def)
  obtain sw' where "swap_read (unat (sp_sector v)) a m sw = Some (put_bytes m a ?bs, sw')"
    using swap_read_ok [OF assms(3-5)] by blast
  moreover have "\<not> 0 < of_nat PGSIZE - sp_read_bytes v"
    using small_read_bytes(3) [of "sp_read_bytes v"] assms(2) by simp
  ultimately have "fetch_page dev v a m sw = Some (put_bytes m a ?bs, sw')"
    using assms(1) by (simp add: fetch_page_def Let_def FILE_SYS_def SWAP_SYS_def)
  moreover have "get_bytes (put_bytes m a ?bs) a 4096 = ?bs"
    using get_put_bytes [of ?bs m a] len by simp
  ultimately show ?thesis using put_bytes_outside [of a ?bs] len by auto
qed

text \<open>Then the page is mapped, or, for lack of a page table, is not; the frame keeps its bytes.\<close>

lemma load_page_maps:
  assumes "sup_ok st table" and "contents (spt_key st) table va = Some e"
    and "fetch_page dev (st e) k (vram s) sw = Some (m, sw')" and "\<forall>x. \<not> in_range k 4096 x \<longrightarrow> m x = vram s x"
    and "vm_ok pd s" and "user_page va" and "frame_page k s" and "data_page pd s k" and "mapping pd s va = None"
  shows "\<exists>b s'. load_page dev pd st table va k s sw = Some (True, s', sw') \<and> vm_ok pd s'
    \<and> (b \<longleftrightarrow> pt_of s pd (pd_no va) \<noteq> None \<or> palloc_room PAL_ZERO 1 (pm s)) \<and> mapping pd s' = (if b then (mapping pd s)(va \<mapsto> k) else mapping pd s) \<and> get_bytes (vram s') k 4096 = get_bytes m k 4096"
proof -
  define s1 where "s1 = s\<lparr>pm := (pm s)\<lparr>ram := m\<rparr>\<rparr>"
  have k: "pg_ofs k = 0" using assms(7) by (simp add: frame_page_def)
  have "\<forall>x. pg_no x \<noteq> pg_no k \<longrightarrow> m x = vram s x" using assms(4) in_page_iff [OF k] by blast
  note w = write_data_page [OF assms(5,8) this s1_def]
  obtain b s' where s': "pagedir_set_page pd va k (sp_writable (st e)) s1 = Some (b, s')" "vm_ok pd s'"
      "mapping pd s' = (if b then (mapping pd s)(va \<mapsto> k) else mapping pd s)"
      "b \<longleftrightarrow> pt_of s1 pd (pd_no va) \<noteq> None \<or> palloc_room PAL_ZERO 1 (pm s1)"
    using pagedir_set_law [OF w(1) assms(6), of k "sp_writable (st e)"] w(2,4) assms(7,9) by auto
  have "is_user_vaddr va" using assms(6) by (simp add: user_page_def)
  then have b: "b \<longleftrightarrow> pt_of s pd (pd_no va) \<noteq> None \<or> palloc_room PAL_ZERO 1 (pm s)"
    using s'(4) w(5) [OF user_pd_less, of va] by (simp add: s1_def palloc_room_def pool_of_def)
  have "vram s' x = m x" if "in_range k 4096 x" for x
    using set_page_keeps_data [OF w(1) assms(6) w(3) s'(1)] that in_page_iff [OF k] by (simp add: s1_def)
  then have "get_bytes (vram s') k 4096 = get_bytes m k 4096"
    by (intro nth_equalityI) (auto simp: in_range_def unat_of_nat)
  moreover have "load_page dev pd st table va k s sw = Some (True, s', sw')"
    using s'(1) assms(2,3) by (simp add: load_page_def lookup_sup_page_ok [OF assms(1)] s1_def)
  ultimately show ?thesis using s'(2,3) b by blast
qed

lemma swapped_page_loads:
  assumes "sup_ok st table" and "sup_map st table va \<noteq> None"
    and "swap_ok sw" and "swap_write a m sw = Some (i, sw1)" and "i \<noteq> BITMAP_ERROR"
    and "supdir_set_swap st table va (of_nat i) = Some (b, st1)"
    and "swap_run ops sw1 = Some sw2" and "\<forall>op \<in> set ops. leaves i op"
    and "vm_ok pd s" and "user_page va" and "frame_page k s" and "data_page pd s k" and "mapping pd s va = None"
  shows "\<exists>s' sw'. load_page dev pd st1 table va k s sw2 = Some (True, s', sw') \<and> vm_ok pd s'
    \<and> get_bytes (vram s') k PGSIZE = get_bytes m a PGSIZE"
proof -
  note saved = swap_saved [OF assms(3-5,7,8)]
  obtain v where v: "sup_map st1 table va = Some (v\<lparr>sp_location := SWAP_SYS, sp_sector := of_nat i, sp_read_bytes := of_nat PGSIZE\<rparr>)"
      and ok1: "sup_ok st1 table"
    using supdir_set_swap_ok [OF assms(1), of va "of_nat i"] assms(2,6) by (auto split: option.splits)
  obtain e where e: "contents (spt_key st1) table va = Some e" "st1 e = v\<lparr>sp_location := SWAP_SYS, sp_sector := of_nat i, sp_read_bytes := of_nat PGSIZE\<rparr>"
    using v by (auto simp: sup_map_def)
  have i: "unat (of_nat i :: u32) = i" using saved(5) by (simp add: unat_of_nat)
  obtain m' sw' where m': "fetch_page dev (st1 e) k (vram s) sw2 = Some (m', sw')" "get_bytes m' k 4096 = concat (page_in_slot sw2 i)"
      "\<forall>x. \<not> in_range k 4096 x \<longrightarrow> m' x = vram s x"
    using fetch_page_swap [of "st1 e" sw2 dev k "vram s"] saved(1-3) i by (auto simp: e(2))
  from load_page_maps [OF ok1 e(1) m'(1,3) assms(9-13)] m'(2) saved(4) show ?thesis by auto
qed

section \<open>Properties\<close>

text \<open>
  C19: the supplemental page table is a map from pages to entries.  \<open>supdir_set_page\<close> fails only
  when it needs a new entry and there is no memory, and then changes nothing; otherwise a
  lookup of the page finds the new values and a lookup of any other page what it found
  before, whether or not the hash table could be resized.
\<close>

theorem supdir_set_then_lookup:
  assumes "sup_ok st table" and "new \<notin> set (elems table)"
  shows "\<exists>b st' table'. supdir_set_page new mem st table va sec rb loc w = Some (b, st', table') \<and> sup_ok st' table'
    \<and> (b \<longleftrightarrow> lookup_sup_page st table va \<noteq> Some None \<or> new \<noteq> 0)
    \<and> (\<forall>va'. map_option (map_option st') (lookup_sup_page st' table' va')
         = (if b \<and> va' = va then Some (Some \<lparr>sp_writable = w, sp_location = loc, sp_sector = sec, sp_read_bytes = rb, sp_vaddr = va\<rparr>)
            else map_option (map_option st) (lookup_sup_page st table va')))"
proof -
  let ?v = "\<lparr>sp_writable = w, sp_location = loc, sp_sector = sec, sp_read_bytes = rb, sp_vaddr = va\<rparr>"
  obtain b st' table' where r: "supdir_set_page new mem st table va sec rb loc w = Some (b, st', table')" "sup_ok st' table'"
      "sup_map st' table' = (if b then (sup_map st table)(va \<mapsto> ?v) else sup_map st table)"
      "b \<longleftrightarrow> sup_map st table va \<noteq> None \<or> new \<noteq> 0"
    using supdir_set_page_ok [OF assms refl] by blast
  have look: "map_option (map_option st') (lookup_sup_page st' table' va') = Some (sup_map st' table' va')"
      "map_option (map_option st) (lookup_sup_page st table va') = Some (sup_map st table va')" for va'
    by (simp_all add: lookup_sup_page_ok [OF r(2)] lookup_sup_page_ok [OF assms(1)] sup_map_def)
  show ?thesis
  proof (intro exI conjI allI)
    show "b \<longleftrightarrow> lookup_sup_page st table va \<noteq> Some None \<or> new \<noteq> 0"
      using r(4) by (simp add: lookup_sup_page_ok [OF assms(1)] sup_map_def)
    show "map_option (map_option st') (lookup_sup_page st' table' va')
        = (if b \<and> va' = va then Some (Some ?v) else map_option (map_option st) (lookup_sup_page st table va'))" for va'
      unfolding look r(3) by simp
  qed (rule r)+
qed

definition example_spt :: spt where
  "example_spt = (\<lambda>_. \<lparr>sp_writable = False, sp_location = ZERO_SYS, sp_sector = 0, sp_read_bytes = 0, sp_vaddr = 0\<rparr>)"

theorem supdir_set_then_lookup_witness:
  "\<exists>st' table'. supdir_set_page 64 False example_spt (supdir_create [] True) 0x08048000 7 1000 FILE_SYS True = Some (True, st', table')
    \<and> map_option (map_option st') (lookup_sup_page st' table' 0x08048000)
         = Some (Some \<lparr>sp_writable = True, sp_location = FILE_SYS, sp_sector = 7, sp_read_bytes = 1000, sp_vaddr = 0x08048000\<rparr>)"
proof -
  obtain b st' table' where r: "supdir_set_page 64 False example_spt (supdir_create [] True) 0x08048000 7 1000 FILE_SYS True = Some (b, st', table')"
      "b \<longleftrightarrow> lookup_sup_page example_spt (supdir_create [] True) 0x08048000 \<noteq> Some None \<or> (64 :: nat) \<noteq> 0"
      "\<forall>va'. map_option (map_option st') (lookup_sup_page st' table' va')
         = (if b \<and> va' = 0x08048000 then Some (Some \<lparr>sp_writable = True, sp_location = FILE_SYS, sp_sector = 7, sp_read_bytes = 1000, sp_vaddr = 0x08048000\<rparr>)
            else map_option (map_option example_spt) (lookup_sup_page example_spt (supdir_create [] True) va'))"
    using supdir_set_then_lookup [OF supdir_create_ok(1) [of example_spt "[]"], where new = 64 and mem = False
      and va = "0x08048000" and sec = 7 and rb = 1000 and loc = FILE_SYS and w = True] by auto
  have b: "b = True" using r(2) by simp
  show ?thesis using r(1) spec [OF r(3), of "0x08048000"] unfolding b simp_thms if_True by blast
qed

definition example_spte :: spte where
  "example_spte = \<lparr>sp_writable = True, sp_location = FILE_SYS, sp_sector = 2, sp_read_bytes = 1000, sp_vaddr = 0x08048000\<rparr>"

lemma example_sup: "\<exists>st table. sup_ok st table \<and> sup_map st table 0x08048000 = Some example_spte"
proof -
  have "(64::nat) \<notin> set (elems (supdir_create [] True))" by simp
  from supdir_set_page_ok [OF supdir_create_ok(1) [of example_spt] this example_spte_def, of False]
  obtain b st' table' where "sup_ok st' table'" "b"
      "sup_map st' table' = (if b then (sup_map example_spt (supdir_create [] True))(0x08048000 \<mapsto> example_spte) else sup_map example_spt (supdir_create [] True))"
    by auto
  then show ?thesis by (intro exI [of _ st'] exI [of _ table']) simp
qed

lemma example_file_entry: "file_entry_ok example_partition (swap_bd example_swap) example_spte"
  by (auto simp: file_entry_ok_def Let_def example_spte_def example_partition_def example_swap_def example_blockdev_def
      full_sectors_def slot_def dev_sector_def split: prod.splits)

lemma example_data_page: "data_page 0xc0100000 example_vm 0xc0200000"
proof -
  have "0xc0200 \<in> used_pages example_pmem"
    using bm_rep_example
    by (auto simp: used_pages_def pool_used_def example_pmem_def first_page_def unat_pg_no bm_rep_def marked_def
        intro!: image_eqI [of _ _ 0])
  then have "table_page example_vm 0xc0200000"
    by (simp add: table_page_def example_vm_def pg_ofs_0_iff is_kernel_vaddr_def PHYS_BASE_def unat_pg_no)
  then show ?thesis by (simp add: data_page_def example_vm_pt)
qed

lemmas example_page = example_vm_ok example_vm_pages example_data_page example_vm_unmapped

text \<open>
  C20: paging in from the executable.  When the entry of a page that is not mapped names bytes on
  the file system device, \<open>load_page\<close> succeeds; the frame then holds exactly the named bytes
  followed by zeros, and the page is mapped to it, unless a page table was needed and there was
  no page for it.
\<close>

theorem load_page_from_file:
  assumes "sup_ok st table" and "sup_map st table va = Some v" and "file_entry_ok dev (swap_bd sw) v"
    and "vm_ok pd s" and "user_page va" and "frame_page k s" and "data_page pd s k" and "mapping pd s va = None"
  shows "\<exists>b s' sw'. load_page dev pd st table va k s sw = Some (True, s', sw') \<and> vm_ok pd s'
    \<and> (b \<longleftrightarrow> pt_of s pd (pd_no va) \<noteq> None \<or> palloc_room PAL_ZERO 1 (pm s))
    \<and> mapping pd s' = (if b then (mapping pd s)(va \<mapsto> k) else mapping pd s)
    \<and> get_bytes (vram s') k PGSIZE = page_of_file dev (swap_bd sw) v"
proof -
  obtain e where e: "contents (spt_key st) table va = Some e" "v = st e" using assms(2) by (auto simp: sup_map_def)
  obtain m bd where m: "fetch_page dev v k (vram s) sw = Some (m, sw\<lparr>swap_bd := bd\<rparr>)" "get_bytes m k 4096 = page_of_file dev (swap_bd sw) v"
      "\<forall>x. \<not> in_range k 4096 x \<longrightarrow> m x = vram s x"
    using fetch_page_file [OF assms(3)] by blast
  from load_page_maps [OF assms(1) e(1) m(1) [unfolded e(2)] m(3) assms(4-8)] m(2) show ?thesis by auto
qed

theorem load_page_from_file_witness:
  "\<exists>st table b s' sw'. load_page example_partition 0xc0100000 st table 0x08048000 0xc0200000 example_vm example_swap = Some (True, s', sw')
    \<and> vm_ok 0xc0100000 s'
    \<and> (b \<longleftrightarrow> pt_of example_vm 0xc0100000 (pd_no 0x08048000) \<noteq> None \<or> palloc_room PAL_ZERO 1 (pm example_vm))
    \<and> mapping 0xc0100000 s' = (if b then (mapping 0xc0100000 example_vm)(0x08048000 \<mapsto> 0xc0200000) else mapping 0xc0100000 example_vm)
    \<and> get_bytes (vram s') 0xc0200000 PGSIZE = page_of_file example_partition (swap_bd example_swap) example_spte"
proof -
  obtain st table where "sup_ok st table" "sup_map st table 0x08048000 = Some example_spte" using example_sup by blast
  from load_page_from_file [OF this example_file_entry example_page] show ?thesis by blast
qed

text \<open>
  C21: page-out then page-in.  A page written to swap and recorded in the supplemental page
  table is loaded back with the bytes it had, after any other swap traffic that does not
  remove a sector of its slot.
\<close>

theorem page_out_in_roundtrip:
  assumes "sup_ok st table" and "sup_map st table va \<noteq> None"
    and "swap_ok sw" and "swap_write a m sw = Some (i, sw1)" and "i \<noteq> BITMAP_ERROR"
    and "supdir_set_swap st table va (of_nat i) = Some (b, st1)"
    and "swap_run ops sw1 = Some sw2" and "\<forall>op \<in> set ops. leaves i op"
    and "vm_ok pd s" and "user_page va" and "frame_page k s" and "data_page pd s k" and "mapping pd s va = None"
  shows "\<exists>s' sw'. load_page dev pd st1 table va k s sw2 = Some (True, s', sw') \<and> vm_ok pd s'
    \<and> get_bytes (vram s') k PGSIZE = get_bytes m a PGSIZE"
  using assms by (rule swapped_page_loads)

theorem page_out_in_roundtrip_witness:
  "\<exists>st table i sw1 b st1 s' sw'. swap_write 0xc0300000 ucast example_swap = Some (i, sw1)
    \<and> supdir_set_swap st table 0x08048000 (of_nat i) = Some (b, st1)
    \<and> load_page example_partition 0xc0100000 st1 table 0x08048000 0xc0200000 example_vm sw1 = Some (True, s', sw')
    \<and> get_bytes (vram s') 0xc0200000 PGSIZE = get_bytes ucast 0xc0300000 PGSIZE"
proof -
  obtain st table where t: "sup_ok st table" "sup_map st table 0x08048000 = Some example_spte" using example_sup by blast
  obtain i sw1 where w: "swap_write 0xc0300000 ucast example_swap = Some (i, sw1)" "i \<noteq> BITMAP_ERROR"
    using example_swap_write by blast
  obtain b st1 where b: "supdir_set_swap st table 0x08048000 (of_nat i) = Some (b, st1)"
    using supdir_set_swap_ok [OF t(1)] by blast
  have "sup_map st table 0x08048000 \<noteq> None" "swap_run [] sw1 = Some sw1" "\<forall>op\<in>set []. leaves i op" using t(2) by simp_all
  from page_out_in_roundtrip [OF t(1) this(1) example_swap_ok w b this(2,3) example_page, of example_partition] w(1) b
  show ?thesis by blast
qed

text \<open>
  C36: \<open>load_page\<close> does not look at the result of \<open>pagedir_set_page\<close>.  When the page needs a page
  table and no page is free, it returns true although the page is not mapped.
\<close>

theorem load_page_ignores_failure:
  assumes "sup_ok st table" and "sup_map st table va = Some v" and "file_entry_ok dev (swap_bd sw) v"
    and "vm_ok pd s" and "user_page va" and "frame_page k s" and "data_page pd s k"
    and "pt_of s pd (pd_no va) = None" and "\<not> palloc_room PAL_ZERO 1 (pm s)"
  shows "\<exists>s' sw'. load_page dev pd st table va k s sw = Some (True, s', sw') \<and> pagedir_get_page pd va s' = Some (0, s')"
proof -
  obtain e where e: "contents (spt_key st) table va = Some e" "v = st e" using assms(2) by (auto simp: sup_map_def)
  obtain m bd where m: "fetch_page dev v k (vram s) sw = Some (m, sw\<lparr>swap_bd := bd\<rparr>)" "\<forall>x. \<not> in_range k 4096 x \<longrightarrow> m x = vram s x"
    using fetch_page_file [OF assms(3)] by blast
  have none: "mapping pd s va = None" using assms(8) by (simp add: mapping_def pte_word_def present_page_def)
  obtain s' where s': "load_page dev pd st table va k s sw = Some (True, s', sw\<lparr>swap_bd := bd\<rparr>)" "vm_ok pd s'" "mapping pd s' = mapping pd s"
    using load_page_maps [OF assms(1) e(1) m(1) [unfolded e(2)] m(2) assms(4-7) none] assms(8,9) by auto
  have "is_user_vaddr va" "pg_round_down va = va" using assms(5) page_round_down by (auto simp: user_page_def)
  then show ?thesis using s' pd.get_law [OF s'(2), of va] none by simp
qed

definition full_pmem :: pmem where
  "full_pmem = example_pmem\<lparr>kernel_pool := \<lparr>used_map = \<lparr>bit_cnt = 4, bits = [15]\<rparr>, base = 0xc0100000\<rparr>\<rparr>"

definition full_vm :: vm where
  "full_vm = example_vm\<lparr>pm := full_pmem\<rparr>"

lemma bm_rep_full: "bm_rep \<lparr>bit_cnt = 4, bits = [15]\<rparr> [True, True, True, True]"
  by (simp add: bm_rep_def bm_ok_def bm_bits_def upt_conv_Cons)

lemma full_pmem_ok: "palloc_ok full_pmem" "\<not> palloc_room PAL_ZERO 1 full_pmem"
proof -
  show "palloc_ok full_pmem"
    using bm_rep_full bm_rep_example
    by (simp add: full_pmem_def example_pmem_def palloc_ok_def pool_rep_def bm_rep_def pg_ofs_0_iff PHYS_BASE_def
      unat_pg_no first_page_def)
  have "bm_bits \<lparr>bit_cnt = 4, bits = [15]\<rparr> = replicate 4 True"
    using bm_rep_full by (simp add: bm_rep_def numeral_eq_Suc)
  then show "\<not> palloc_room PAL_ZERO 1 full_pmem"
    by (auto simp: full_pmem_def palloc_room_def pool_of_def PAL_ZERO_def PAL_USER_def run_at_def)
qed

lemma full_used: "0xc0100 \<in> used_pages full_pmem" "0xc0200 \<in> used_pages full_pmem"
  using bm_rep_full bm_rep_example
  by (auto simp: used_pages_def pool_used_def full_pmem_def example_pmem_def first_page_def unat_pg_no bm_rep_def marked_def
        intro!: image_eqI [of _ _ 0])

lemma full_vm_ok: "vm_ok 0xc0100000 full_vm" "data_page 0xc0100000 full_vm 0xc0200000" "frame_page 0xc0200000 full_vm"
    "pt_of full_vm 0xc0100000 i = None"
proof -
  have z: "ld32 (vram full_vm) a = 0" for a
    by (simp add: full_vm_def full_pmem_def example_pmem_def ld32_def)
  then show pt: "pt_of full_vm 0xc0100000 i = None" for i by (simp add: pt_of_def)
  have tp: "table_page full_vm 0xc0100000" "table_page full_vm 0xc0200000"
    using full_used by (simp_all add: table_page_def full_vm_def pg_ofs_0_iff is_kernel_vaddr_def PHYS_BASE_def unat_pg_no)
  then show "vm_ok 0xc0100000 full_vm"
    using full_pmem_ok(1) pt z
    by (simp add: vm_ok_def pte_word_def entry_ok_def) (simp add: full_vm_def example_vm_def PHYS_BASE_def)
  show "data_page 0xc0100000 full_vm 0xc0200000" using tp pt by (simp add: data_page_def)
  show "frame_page 0xc0200000 full_vm" using example_vm_pages(2) by (simp add: frame_page_def full_vm_def)
qed

theorem load_page_ignores_failure_witness:
  "\<exists>st table s' sw'. load_page example_partition 0xc0100000 st table 0x08048000 0xc0200000 full_vm example_swap = Some (True, s', sw')
    \<and> pagedir_get_page 0xc0100000 0x08048000 s' = Some (0, s')"
proof -
  obtain st table where t: "sup_ok st table" "sup_map st table 0x08048000 = Some example_spte" using example_sup by blast
  have "\<not> palloc_room PAL_ZERO 1 (pm full_vm)" using full_pmem_ok(2) by (simp add: full_vm_def)
  from load_page_ignores_failure [OF t example_file_entry full_vm_ok(1) example_vm_pages(1) full_vm_ok(3,2,4) this]
  show ?thesis by blast
qed

end
