(* ===== verification/Frame.thy ===== *)
theory Frame
  imports Suppage
begin

text \<open>
  vm/frame.c: the frame table, a hash table of the user pages that have a frame, and eviction.
  An entry (\<open>struct ft_entry\<close>) is an object in memory, \<open>fe\<close> has the entries by address; a
  thread is the address of its \<open>struct thread\<close>.  The semaphore \<open>ft_sema\<close> orders callers and
  is not part of a call; \<open>pin_sema\<close> is its value.  As in theory Suppage the results of
  \<open>malloc\<close> are arguments.
\<close>

record ft_entry =
  fe_thread :: u32
  fe_vaddr :: u32
  fe_pin :: nat

record paging =
  ft :: "nat hash"
  fe :: "nat \<Rightarrow> ft_entry"
  spts :: spt
  supdirs :: "u32 \<Rightarrow> nat hash"
  pagedirs :: "u32 \<Rightarrow> u32"
  pvm :: vm
  pswap :: swap

section \<open>The table\<close>

definition le_bytes64 :: "u64 \<Rightarrow> u8 list" where
  "le_bytes64 w = map (\<lambda>i. ucast (drop_bit (8 * i) w)) [0, 1, 2, 3, 4, 5, 6, 7]"

definition frame_hash :: "(nat \<Rightarrow> ft_entry) \<Rightarrow> nat \<Rightarrow> u32" where
  "frame_hash f e =
     (let identifier = push_bit 32 (ucast (fe_vaddr (f e)) :: u64) OR ucast (fe_thread (f e)) in
      hash_bytes (le_bytes64 identifier))"

definition frame_less_than :: "(nat \<Rightarrow> ft_entry) \<Rightarrow> nat \<Rightarrow> nat \<Rightarrow> bool" where
  "frame_less_than f a b \<longleftrightarrow> fe_vaddr (f a) < fe_vaddr (f b) \<and> fe_thread (f a) < fe_thread (f b)"

definition frame_table_init :: "nat list list \<Rightarrow> bool \<Rightarrow> paging \<Rightarrow> paging" where
  "frame_table_init junk mem s = s\<lparr>ft := fst (hash_init junk mem)\<rparr>"

definition get_user_page :: "u32 \<Rightarrow> nat \<Rightarrow> bool \<Rightarrow> u32 \<Rightarrow> paging \<Rightarrow> (u32 \<times> paging) option" where
  "get_user_page cur new mem vaddr s = do {
     (page, p) \<leftarrow> palloc_get_page (PAL_USER OR PAL_ZERO) (pm (pvm s));
     let s = s\<lparr>pvm := (pvm s)\<lparr>pm := p\<rparr>\<rparr>;
     if page = 0 then Some (page, s)
     else do {
       ASSERT (new \<noteq> 0);
       let f = (fe s)(new := \<lparr>fe_thread = cur, fe_vaddr = vaddr, fe_pin = 1\<rparr>);
       (_, t) \<leftarrow> hash_replace (frame_hash f) (frame_less_than f) mem (ft s) new;
       Some (page, s\<lparr>ft := t, fe := f\<rparr>)
     }
   }"

text \<open>The search for an entry that is not pinned; \<open>sema_try_down\<close> pins it.\<close>

partial_function (option) evict_loop ::
  "nat hash \<Rightarrow> nat hash_iterator \<Rightarrow> nat \<Rightarrow> (nat \<Rightarrow> ft_entry) \<Rightarrow> (nat \<times> (nat \<Rightarrow> ft_entry)) option" where
  "evict_loop t it entry f =
     (if fe_pin (f entry) > 0 then Some (entry, f(entry := (f entry)\<lparr>fe_pin := fe_pin (f entry) - 1\<rparr>))
      else do {
        (p, it) \<leftarrow> hash_next t it;
        (case p of Elem a \<Rightarrow> evict_loop t it a f | _ \<Rightarrow> None)
      })"

text \<open>
  The variable \<open>e\<close> of the function keeps the first entry of the iteration: the loop declares
  another \<open>e\<close>.
\<close>

definition evict_page :: "u32 \<Rightarrow> bool \<Rightarrow> bool \<Rightarrow> u32 \<Rightarrow> paging \<Rightarrow> (u32 \<times> paging) option" where
  "evict_page cur mem1 mem2 new_addr s = do {
     (p, it) \<leftarrow> hash_next (ft s) (hash_first (ft s));
     (case p of
        Elem e \<Rightarrow> do {
          (entry, f) \<leftarrow> evict_loop (ft s) it e (fe s);
          let victim = fe_thread (f entry);
          let old_addr = fe_vaddr (f entry);
          (frame_addr, v) \<leftarrow> pagedir_get_page (pagedirs s victim) old_addr (pvm s);
          spte \<leftarrow> lookup_sup_page (spts s) (supdirs s victim) old_addr;
          dirty \<leftarrow> pagedir_is_dirty (pagedirs s victim) old_addr v;
          out \<leftarrow> (if dirty then Some True
                  else case spte of None \<Rightarrow> None | Some a \<Rightarrow> Some (sp_location (spts s a) = SWAP_SYS));
          (st, sw) \<leftarrow>
            (if out then do {
               (sector, sw) \<leftarrow> swap_write frame_addr (vram v) (pswap s);
               (_, st) \<leftarrow> supdir_set_swap (spts s) (supdirs s victim) old_addr (of_nat sector);
               Some (st, sw)
             } else Some (spts s, pswap s));
          v \<leftarrow> pagedir_clear_page (pagedirs s victim) old_addr v;
          (_, t) \<leftarrow> hash_delete (frame_hash f) (frame_less_than f) mem1 (ft s) e;
          let f = f(entry := (f entry)\<lparr>fe_thread := cur, fe_vaddr := new_addr\<rparr>);
          (_, t) \<leftarrow> hash_replace (frame_hash f) (frame_less_than f) mem2 t e;
          Some (frame_addr, s\<lparr>ft := t, fe := f, spts := st, pvm := v, pswap := sw\<rparr>)
        }
      | _ \<Rightarrow> None)
   }"

text \<open>The searches of \<open>free_frame\<close> and \<open>set_pinned\<close> use an entry on the stack, here at address \<open>0\<close>.\<close>

definition frame_query :: "u32 \<Rightarrow> u32 \<Rightarrow> (nat \<Rightarrow> ft_entry) \<Rightarrow> nat \<Rightarrow> ft_entry" where
  "frame_query cur vaddr f = f(0 := (f 0)\<lparr>fe_vaddr := vaddr, fe_thread := cur\<rparr>)"

definition free_frame :: "u32 \<Rightarrow> bool \<Rightarrow> u32 \<Rightarrow> paging \<Rightarrow> paging option" where
  "free_frame cur mem vaddr s = do {
     let f = frame_query cur vaddr (fe s);
     found \<leftarrow> hash_find (frame_hash f) (frame_less_than f) (ft s) 0;
     (case found of
        None \<Rightarrow> Some s
      | Some del_elem \<Rightarrow> do {
          (_, t) \<leftarrow> hash_delete (frame_hash f) (frame_less_than f) mem (ft s) del_elem;
          Some (s\<lparr>ft := t\<rparr>)
        })
   }"

definition frame_table_destroy :: "paging \<Rightarrow> nat list" where
  "frame_table_destroy s = hash_destroy False (ft s)"

text \<open>
  \<open>elem\<close> is the first member of \<open>struct ft_entry\<close>, so \<open>hash_entry\<close> of the null pointer is the
  null pointer.  Pinning waits for the semaphore; where it would wait there is no result.
\<close>

definition set_pinned :: "u32 \<Rightarrow> u32 \<Rightarrow> bool \<Rightarrow> paging \<Rightarrow> paging option" where
  "set_pinned cur vaddr pin s = do {
     let f = frame_query cur vaddr (fe s);
     found \<leftarrow> hash_find (frame_hash f) (frame_less_than f) (ft s) 0;
     (case found of
        None \<Rightarrow> Some s
      | Some a \<Rightarrow>
          if pin then do {
            ASSERT (fe_pin (fe s a) > 0);
            Some (s\<lparr>fe := (fe s)(a := (fe s a)\<lparr>fe_pin := fe_pin (fe s a) - 1\<rparr>)\<rparr>)
          }
          else Some (s\<lparr>fe := (fe s)(a := (fe s a)\<lparr>fe_pin := (fe_pin (fe s a) - 1) + 1\<rparr>)\<rparr>))
   }"

section \<open>Operations on a table whose comparison is not an order\<close>

lemma remove_elem_elems:
  assumes "placed hf h" and "distinct (elems h)"
  shows "placed hf (remove_elem h x)" and "elems (remove_elem h x) = remove1 x (elems h)"
  using assms
  by (auto simp: placed_def remove_elem_def find_bucket_def elems_def concat_remove1 dest: set_remove1_subset [THEN subsetD])

lemma hash_delete_placed:
  assumes "placed hf h" and "distinct (elems h)" and "find_elem lf (buckets h ! find_bucket hf h e) e = Some x"
  shows "\<exists>h'. hash_delete hf lf mem h e = Some (Some x, h') \<and> placed hf h' \<and> mset (elems h') = mset (remove1 x (elems h))"
proof -
  note r = remove_elem_elems [OF assms(1,2), of x]
  obtain h' where "rehash hf mem (remove_elem h x) = Some h'" "placed hf h'" "mset (elems h') = mset (elems (remove_elem h x))"
    using rehash_placed [OF r(1)] by blast
  then show ?thesis
    using assms(3) r(2) placed_bucket [OF assms(1), of e] by (simp add: hash_delete_def)
qed

lemma hash_replace_placed:
  assumes "placed hf h" and "distinct (elems h)"
  shows "\<exists>h'. hash_replace hf lf mem h e = Some (find_elem lf (buckets h ! find_bucket hf h e) e, h') \<and> placed hf h'
    \<and> mset (elems h') = add_mset e (mset (case find_elem lf (buckets h ! find_bucket hf h e) e of None \<Rightarrow> elems h | Some x \<Rightarrow> remove1 x (elems h)))"
proof -
  let ?old = "find_elem lf (buckets h ! find_bucket hf h e) e"
  define h0 where "h0 = (case ?old of None \<Rightarrow> h | Some x \<Rightarrow> remove_elem h x)"
  have h0: "placed hf h0" "elems h0 = (case ?old of None \<Rightarrow> elems h | Some x \<Rightarrow> remove1 x (elems h))" "bucket_cnt h0 = bucket_cnt h"
    using assms(1) remove_elem_elems [OF assms] by (auto simp: h0_def remove_elem_def split: option.splits)
  obtain h1 where h1: "insert_elem h0 (find_bucket hf h0 e) e = Some h1" "placed hf h1" "mset (elems h1) = add_mset e (mset (elems h0))"
    using insert_elem_placed [OF h0(1)] by blast
  obtain h' where "rehash hf mem h1 = Some h'" "placed hf h'" "mset (elems h') = mset (elems h1)"
    using rehash_placed [OF h1(2)] by blast
  then show ?thesis
    using h1 h0(2) find_bucket_cong [OF h0(3), of hf e] placed_bucket [OF assms(1), of e]
    by (simp add: hash_replace_def Let_def flip: h0_def)
qed

lemma first_in_bucket:
  assumes "placed hf h" and "distinct (elems h)" and "elems h = e # es"
  shows "\<exists>zs. buckets h ! find_bucket hf h e = e # zs"
proof -
  let ?j = "find_bucket hf h e"
  have "e \<in> set (concat (buckets h))" using assms(3) by (simp add: elems_def)
  then obtain b where b: "b \<in> set (buckets h)" "e \<in> set b" by auto
  then obtain i where "i < length (buckets h)" "buckets h ! i = b" by (metis in_set_conv_nth)
  then have e: "e \<in> set (buckets h ! ?j)" and j: "?j < length (buckets h)"
    using assms(1) b(2) by (auto simp: placed_def)
  have c: "concat (take ?j (buckets h)) @ buckets h ! ?j @ concat (drop (Suc ?j) (buckets h)) = e # es"
    using assms(3) id_take_nth_drop [OF j] by (metis concat.simps(2) concat_append elems_def)
  have "concat (take ?j (buckets h)) = []"
  proof (rule ccontr)
    assume "concat (take ?j (buckets h)) \<noteq> []"
    then have "e \<in> set (concat (take ?j (buckets h)))" using c by (cases "concat (take ?j (buckets h))") auto
    then show False using e c assms(2,3) by (metis IntI append.assoc distinct_append emptyE)
  qed
  with c have "buckets h ! ?j @ concat (drop (Suc ?j) (buckets h)) = e # es" by (simp only: append_Nil)
  then show ?thesis using e by (cases "buckets h ! ?j") auto
qed

lemma hash_next_first:
  assumes "placed hf h" and "elems h = e # es"
  shows "\<exists>it. hash_next h (hash_first h) = Some (Elem e, it)"
proof -
  have l: "length (buckets h) = bucket_cnt h" and pos: "0 < bucket_cnt h" using assms(1) by (auto simp: placed_def)
  have r: "rest_from h 0 (buckets h ! 0) = e # es"
    using l pos assms(2) by (cases "buckets h") (simp_all add: rest_from_def elems_def)
  obtain j where "next_loop h 0 (begin_of (buckets h ! 0)) = Some \<lparr>it_bucket = j, it_elem = Elem e\<rparr>"
    using next_loop_rest [OF l pos, of "[]" "buckets h ! 0"] r by auto
  then show ?thesis using l pos by (simp add: hash_next_def hash_first_def)
qed

lemma evict_loop_free:
  "fe_pin (f e) > 0 \<Longrightarrow> evict_loop t it e f = Some (e, f(e := (f e)\<lparr>fe_pin := fe_pin (f e) - 1\<rparr>))"
  by (simp add: evict_loop.simps)

lemma frame_hash_cong: "fe_thread (f' x) = fe_thread (f x) \<Longrightarrow> fe_vaddr (f' x) = fe_vaddr (f x) \<Longrightarrow> frame_hash f' x = frame_hash f x"
  by (simp add: frame_hash_def)

text \<open>The table after an eviction: the first entry stands for the new page.\<close>

lemma evict_table:
  assumes "placed (frame_hash f) t" and "distinct (elems t)" and "elems t = e # es" and "fe_pin (f e) > 0"
    and "f1 = f(e := (f e)\<lparr>fe_pin := fe_pin (f e) - 1\<rparr>)" and "f2 = f1(e := (f1 e)\<lparr>fe_thread := cur, fe_vaddr := va\<rparr>)"
  shows "\<exists>t1 old t2. hash_delete (frame_hash f1) (frame_less_than f1) m1 t e = Some (Some e, t1)
    \<and> hash_replace (frame_hash f2) (frame_less_than f2) m2 t1 e = Some (old, t2) \<and> e \<in> set (elems t2)"
proof -
  have "frame_hash f1 x = frame_hash f x" for x by (rule frame_hash_cong) (simp_all add: assms(5))
  then have p1: "placed (frame_hash f1) t" using placed_cong [of t "frame_hash f1" "frame_hash f"] assms(1) by simp
  obtain zs where "buckets t ! find_bucket (frame_hash f1) t e = e # zs" using first_in_bucket [OF p1 assms(2,3)] by blast
  then have "find_elem (frame_less_than f1) (buckets t ! find_bucket (frame_hash f1) t e) e = Some e" by (simp add: frame_less_than_def)
  from hash_delete_placed [OF p1 assms(2) this, of m1]
  obtain t1 where t1: "hash_delete (frame_hash f1) (frame_less_than f1) m1 t e = Some (Some e, t1)" "placed (frame_hash f1) t1"
      "mset (elems t1) = mset es" by (auto simp: assms(3))
  have d: "distinct (elems t1)" "e \<notin> set (elems t1)"
    using assms(2,3) t1(3) mset_eq_imp_distinct_iff [of "elems t1" es] mset_eq_setD [of "elems t1" es] by auto
  have "frame_hash f2 x = frame_hash f1 x" if "x \<in> set (elems t1)" for x using d(2) that by (intro frame_hash_cong) (auto simp: assms(6))
  then have p2: "placed (frame_hash f2) t1" using placed_cong [of t1 "frame_hash f2" "frame_hash f1"] t1(2) by simp
  obtain old t2 where t2: "hash_replace (frame_hash f2) (frame_less_than f2) m2 t1 e = Some (old, t2)" "e \<in># mset (elems t2)"
    using hash_replace_placed [OF p2 d(1), of "frame_less_than f2" m2 e] by fastforce
  then show ?thesis using t1(1) by auto
qed

section \<open>Eviction saves the page\<close>

text \<open>
  \<open>victim_page s e k v\<close>: entry \<open>e\<close> of the frame table is not pinned and stands for a page that is
  mapped to frame \<open>k\<close>, has the supplemental entry \<open>v\<close>, and has to be written out.
\<close>

definition victim_page :: "paging \<Rightarrow> nat \<Rightarrow> u32 \<Rightarrow> spte \<Rightarrow> bool" where
  "victim_page s e k v \<longleftrightarrow>
     (let t = fe_thread (fe s e); va = fe_vaddr (fe s e); pd = pagedirs s t in
      fe_pin (fe s e) > 0 \<and> vm_ok pd (pvm s) \<and> user_page va \<and> mapping pd (pvm s) va = Some k
      \<and> sup_ok (spts s) (supdirs s t) \<and> sup_map (spts s) (supdirs s t) va = Some v
      \<and> (pagedir_is_dirty pd va (pvm s) = Some True \<or> sp_location v = SWAP_SYS)
      \<and> swap_ok (pswap s) \<and> (\<exists>i. run_at (bm_bits (swap_table (pswap s))) i 8 False))"

lemma evict_page_saves:
  assumes "placed (frame_hash (fe s)) (ft s)" and "distinct (elems (ft s))" and "elems (ft s) = e # es"
    and "victim_page s e k v" and "t = fe_thread (fe s e)" and "va = fe_vaddr (fe s e)" and "pd = pagedirs s t"
  shows "\<exists>s' i b. evict_page cur m1 m2 new_addr s = Some (k, s') \<and> vm_ok pd (pvm s') \<and> mapping pd (pvm s') = (mapping pd (pvm s))(va := None)
    \<and> swap_write k (vram (pvm s)) (pswap s) = Some (i, pswap s') \<and> i \<noteq> BITMAP_ERROR
    \<and> supdir_set_swap (spts s) (supdirs s t) va (of_nat i) = Some (b, spts s')
    \<and> e \<in> set (elems (ft s')) \<and> fe_thread (fe s' e) = cur \<and> fe_vaddr (fe s' e) = new_addr"
proof -
  have v: "fe_pin (fe s e) > 0" "vm_ok pd (pvm s)" "user_page va" "mapping pd (pvm s) va = Some k"
      "sup_ok (spts s) (supdirs s t)" "sup_map (spts s) (supdirs s t) va = Some v"
      "pagedir_is_dirty pd va (pvm s) = Some True \<or> sp_location v = SWAP_SYS" "swap_ok (pswap s)"
      "\<exists>i. run_at (bm_bits (swap_table (pswap s))) i 8 False"
    using assms(4-7) by (simp_all add: victim_page_def Let_def)
  have va: "is_user_vaddr va" "pg_ofs va = 0" "pg_round_down va = va" using v(3) page_round_down by (auto simp: user_page_def)
  obtain it where it: "hash_next (ft s) (hash_first (ft s)) = Some (Elem e, it)" using hash_next_first [OF assms(1,3)] by blast
  define f1 where "f1 = (fe s)(e := (fe s e)\<lparr>fe_pin := fe_pin (fe s e) - 1\<rparr>)"
  define f2 where "f2 = f1(e := (f1 e)\<lparr>fe_thread := cur, fe_vaddr := new_addr\<rparr>)"
  have get: "pagedir_get_page pd va (pvm s) = Some (k, pvm s)" using pd.get_law [OF v(2) va(1)] va v(4) by simp
  obtain a where a: "contents (spt_key (spts s)) (supdirs s t) va = Some a" "spts s a = v" using v(6) by (auto simp: sup_map_def)
  obtain d where d: "pagedir_is_dirty pd va (pvm s) = Some d" using pagedir_is_dirty_eq [OF v(2,3)] by blast
  obtain i sw where w: "swap_write k (vram (pvm s)) (pswap s) = Some (i, sw)" "i \<noteq> BITMAP_ERROR" using swap_write_total [OF v(8,9)] by blast
  obtain b st where st: "supdir_set_swap (spts s) (supdirs s t) va (of_nat i) = Some (b, st)" using supdir_set_swap_ok [OF v(5)] by blast
  obtain vm where vm: "pagedir_clear_page pd va (pvm s) = Some vm" "vm_ok pd vm" "mapping pd vm = (mapping pd (pvm s))(va := None)"
    using pd.clear_law [OF v(2,3)] by blast
  obtain t1 old t2 where tab: "hash_delete (frame_hash f1) (frame_less_than f1) m1 (ft s) e = Some (Some e, t1)"
      "hash_replace (frame_hash f2) (frame_less_than f2) m2 t1 e = Some (old, t2)" "e \<in> set (elems t2)"
    using evict_table [OF assms(1-3) v(1) f1_def f2_def] by blast
  have out: "(if d then Some True else case Some a of None \<Rightarrow> None | Some a \<Rightarrow> Some (sp_location (spts s a) = SWAP_SYS)) = Some True"
    using v(7) d a(2) by auto
  have f1e: "fe_thread (f1 e) = t" "fe_vaddr (f1 e) = va" by (simp_all add: f1_def assms(5,6))
  have loop: "evict_loop (ft s) it e (fe s) = Some (e, f1)" using evict_loop_free [of "fe s" e "ft s" it] v(1) by (simp add: f1_def)
  have "evict_page cur m1 m2 new_addr s = Some (k, s\<lparr>ft := t2, fe := f2, spts := st, pvm := vm, pswap := sw\<rparr>)"
    using w(1) st vm(1) tab(1,2) a(1) d get out
    by (simp add: evict_page_def it loop f1e lookup_sup_page_ok [OF v(5)] Let_def flip: f2_def assms(7))
  then show ?thesis using vm(2,3) w st tab(3) by (intro exI conjI) (auto simp: f2_def)
qed

section \<open>Properties\<close>


lemma example_dirty_vm:
  "\<exists>v. vm_ok 0xc0100000 v \<and> mapping 0xc0100000 v 0x08048000 = Some 0xc0200000 \<and> pagedir_is_dirty 0xc0100000 0x08048000 v = Some True"
proof -
  obtain s1 where s1: "vm_ok 0xc0100000 s1" "mapping 0xc0100000 s1 0x08048000 = Some 0xc0200000"
    using pagedir_set_law [OF example_vm_ok example_vm_pages example_vm_unmapped, of True] example_pmem_room [of PAL_ZERO]
    by (auto simp: example_vm_def)
  then have p: "pt_of s1 0xc0100000 (pd_no 0x08048000) \<noteq> None"
    by (auto simp: mapping_def pte_word_def present_page_def split: if_splits option.splits)
  obtain v where v: "vm_ok 0xc0100000 v" "mapping 0xc0100000 v = mapping 0xc0100000 s1"
      "pte_word v 0xc0100000 0x08048000 = set_flag PTE_D True (pte_word s1 0xc0100000 0x08048000)"
    using set_flag_law [OF s1(1) example_vm_pages(1) p flag_bits(1,2) refl, of True] example_vm_pages(1) by auto
  then show ?thesis
    using s1(2) pagedir_is_dirty_eq [OF v(1) example_vm_pages(1)] test_flag [of "pte_word s1 0xc0100000 0x08048000" PTE_D]
    by (intro exI [of _ v]) (auto simp: set_flag_def bit.conj_disj_distrib2 pte_consts)
qed

definition example_fe :: "nat \<Rightarrow> ft_entry" where
  "example_fe = (\<lambda>_. \<lparr>fe_thread = 0xc010e000, fe_vaddr = 0x08048000, fe_pin = 1\<rparr>)"

lemma example_frame_table: "\<exists>t. placed (frame_hash example_fe) t \<and> elems t = [64]"
proof -
  let ?h = "fst (hash_init [] True) :: nat hash"
  have h: "placed (frame_hash example_fe) ?h" "elems ?h = []"
    using hash_init_ok(2) [of True "frame_hash example_fe" id "[]"]
    by (simp_all add: hash_ok_def) (simp add: hash_init_def Let_def hash_clear_def clear_loop_concat elems_def)
  obtain j where j: "buckets ?h ! find_bucket (frame_hash example_fe) ?h 64 = []"
    using placed_bucket [OF h(1), of 64] h(2) by (auto simp: elems_def)
  then show ?thesis
    using hash_replace_placed [OF h(1), of "frame_less_than example_fe" True 64] h(2) by auto
qed


text \<open>
  C35: a frame can disappear from the frame table.  \<open>frame_less_than\<close> compares both members with
  a conjunction, so two pages of one thread count as equal; when \<open>get_user_page\<close> enters a page
  whose bucket starts with another page of the same thread, \<open>hash_replace\<close> takes that page out
  of the table, and its frame can never be evicted, pinned or freed again.
\<close>

theorem get_user_page_drops_entry:
  assumes "palloc_get_page (PAL_USER OR PAL_ZERO) (pm (pvm s)) = Some (page, p)" and "page \<noteq> 0" and "new \<noteq> 0"
    and "f = (fe s)(new := \<lparr>fe_thread = cur, fe_vaddr = vaddr, fe_pin = 1\<rparr>)"
    and "placed (frame_hash f) (ft s)" and "distinct (elems (ft s))" and "new \<notin> set (elems (ft s))"
    and "buckets (ft s) ! find_bucket (frame_hash f) (ft s) new = e # es" and "fe_thread (fe s e) = cur" and "e \<noteq> new"
  shows "\<exists>s'. get_user_page cur new mem vaddr s = Some (page, s')
    \<and> mset (elems (ft s')) = add_mset new (mset (remove1 e (elems (ft s)))) \<and> e \<notin> set (elems (ft s'))"
proof -
  have "find_elem (frame_less_than f) (buckets (ft s) ! find_bucket (frame_hash f) (ft s) new) new = Some e"
    using assms(8-10) by (simp add: frame_less_than_def assms(4))
  then obtain t where t: "hash_replace (frame_hash f) (frame_less_than f) mem (ft s) new = Some (Some e, t)"
      "mset (elems t) = add_mset new (mset (remove1 e (elems (ft s))))"
    using hash_replace_placed [OF assms(5,6), of "frame_less_than f" mem new] by auto
  have "set (elems t) = insert new (set (remove1 e (elems (ft s))))"
    using mset_eq_setD [of "elems t" "new # remove1 e (elems (ft s))"] t(2) by simp
  then have "e \<notin> set (elems t)" using assms(6,10) by (simp add: set_remove1_eq)
  with t assms(1-3) show ?thesis by (simp add: get_user_page_def Let_def assms(4))
qed

definition example_paging :: paging where
  "example_paging = \<lparr>ft = hash.make 1 4 [[], [64], [], []], fe = example_fe, spts = example_spt,
     supdirs = (\<lambda>_. supdir_create [] True), pagedirs = (\<lambda>_. 0xc0100000), pvm = example_vm, pswap = example_swap\<rparr>"

lemma example_collision:
  assumes "f = (fe example_paging)(65 := \<lparr>fe_thread = 0xc010e000, fe_vaddr = 0x0804c000, fe_pin = 1\<rparr>)"
  shows "find_bucket (frame_hash f) (ft example_paging) 64 = 1" and "find_bucket (frame_hash f) (ft example_paging) 65 = 1"
  by (simp_all add: assms example_paging_def hash.make_def example_fe_def find_bucket_def frame_hash_def le_bytes64_def hash_bytes_def
      FNV_32_BASIS_def FNV_32_PRIME_def unsigned_and_eq)

theorem get_user_page_drops_entry_witness:
  "\<exists>page s'. get_user_page 0xc010e000 65 True 0x0804c000 example_paging = Some (page, s') \<and> page \<noteq> 0
    \<and> 64 \<in> set (elems (ft example_paging)) \<and> elems (ft s') = [65]"
proof -
  obtain page p where p: "palloc_get_page (PAL_USER OR PAL_ZERO) (pm (pvm example_paging)) = Some (page, p)" "page \<noteq> 0"
    by (rule palloc_get_room [OF example_pmem_ok _ example_pmem_room, of "PAL_USER OR PAL_ZERO"])
      (auto simp: palloc_get_page_def example_paging_def example_vm_def)
  define f where "f = (fe example_paging)(65 := \<lparr>fe_thread = 0xc010e000, fe_vaddr = 0x0804c000, fe_pin = 1\<rparr>)"
  note c = example_collision [OF f_def]
  have b: "bucket_cnt (ft example_paging) = 4" "buckets (ft example_paging) = [[], [64], [], []]"
    by (simp_all add: example_paging_def hash.make_def)
  have "placed (frame_hash f) (ft example_paging)"
    using c(1) by (auto simp: placed_def b less_Suc_eq numeral_eq_Suc intro!: exI [of _ 2])
  moreover have "fe_thread (fe example_paging 64) = 0xc010e000" by (simp add: example_paging_def example_fe_def)
  ultimately show ?thesis
    using get_user_page_drops_entry [OF p _ f_def, of 64 "[]" True] c(2) p(2) by (auto simp: elems_def b)
qed

end
