(* ===== verification/Cstring.thy ===== *)
theory Cstring
  imports Kmem "HOL-Library.List_Lexorder"
begin

text \<open>
  lib/string.c: the byte and string routines of the C library, on the memory of theory Kmem.
  A pointer is a 32-bit address, the null pointer is \<open>0\<close>.  Loops that count a size down are
  recursive functions; a loop that looks for a terminator need not end, its result is then
  \<open>None\<close>.  An argument \<open>int c_\<close> is an \<open>int\<close>, a \<open>char\<close> passed for it is promoted with its sign.
\<close>

section \<open>Blocks of bytes\<close>

fun copy_up :: "kmem \<Rightarrow> u32 \<Rightarrow> u32 \<Rightarrow> nat \<Rightarrow> kmem" where
  "copy_up m dst src 0 = m"
| "copy_up m dst src (Suc n) = copy_up (m(dst := m src)) (dst + 1) (src + 1) n"

fun copy_down :: "kmem \<Rightarrow> u32 \<Rightarrow> u32 \<Rightarrow> nat \<Rightarrow> kmem" where
  "copy_down m dst src 0 = m"
| "copy_down m dst src (Suc n) = copy_down (m(dst - 1 := m (src - 1))) (dst - 1) (src - 1) n"

definition memcpy :: "kmem \<Rightarrow> u32 \<Rightarrow> u32 \<Rightarrow> nat \<Rightarrow> (u32 \<times> kmem) option" where
  "memcpy m dst src sz = do {
     ASSERT (dst \<noteq> 0 \<or> sz = 0);
     ASSERT (src \<noteq> 0 \<or> sz = 0);
     Some (dst, copy_up m dst src sz)
   }"

text \<open>The result is the variable that the loop has moved, not the argument.\<close>

definition memmove :: "kmem \<Rightarrow> u32 \<Rightarrow> u32 \<Rightarrow> nat \<Rightarrow> (u32 \<times> kmem) option" where
  "memmove m dst src sz = do {
     ASSERT (dst \<noteq> 0 \<or> sz = 0);
     ASSERT (src \<noteq> 0 \<or> sz = 0);
     if dst < src then Some (dst + of_nat sz, copy_up m dst src sz)
     else Some (dst, copy_down m (dst + of_nat sz) (src + of_nat sz) sz)
   }"

fun memcmp_loop :: "kmem \<Rightarrow> u32 \<Rightarrow> u32 \<Rightarrow> nat \<Rightarrow> int" where
  "memcmp_loop m a b 0 = 0"
| "memcmp_loop m a b (Suc n) =
     (if m a \<noteq> m b then (if m a > m b then 1 else -1) else memcmp_loop m (a + 1) (b + 1) n)"

definition memcmp :: "kmem \<Rightarrow> u32 \<Rightarrow> u32 \<Rightarrow> nat \<Rightarrow> int option" where
  "memcmp m a b sz = do {
     ASSERT (a \<noteq> 0 \<or> sz = 0);
     ASSERT (b \<noteq> 0 \<or> sz = 0);
     Some (memcmp_loop m a b sz)
   }"

fun memchr_loop :: "kmem \<Rightarrow> u32 \<Rightarrow> u8 \<Rightarrow> nat \<Rightarrow> u32" where
  "memchr_loop m block ch 0 = 0"
| "memchr_loop m block ch (Suc n) = (if m block = ch then block else memchr_loop m (block + 1) ch n)"

definition memchr :: "kmem \<Rightarrow> u32 \<Rightarrow> int \<Rightarrow> nat \<Rightarrow> u32 option" where
  "memchr m block ch sz = do {
     ASSERT (block \<noteq> 0 \<or> sz = 0);
     Some (memchr_loop m block (word_of_int ch) sz)
   }"

fun memset_loop :: "kmem \<Rightarrow> u32 \<Rightarrow> u8 \<Rightarrow> nat \<Rightarrow> kmem" where
  "memset_loop m dst v 0 = m"
| "memset_loop m dst v (Suc n) = memset_loop (m(dst := v)) (dst + 1) v n"

definition memset :: "kmem \<Rightarrow> u32 \<Rightarrow> int \<Rightarrow> nat \<Rightarrow> (u32 \<times> kmem) option" where
  "memset m dst val sz = do {
     ASSERT (dst \<noteq> 0 \<or> sz = 0);
     Some (dst, memset_loop m dst (word_of_int val) sz)
   }"

section \<open>Strings\<close>

partial_function (option) strcmp_loop :: "kmem \<Rightarrow> u32 \<Rightarrow> u32 \<Rightarrow> (u32 \<times> u32) option" where
  "strcmp_loop m a b = (if m a \<noteq> 0 \<and> m a = m b then strcmp_loop m (a + 1) (b + 1) else Some (a, b))"

definition strcmp :: "kmem \<Rightarrow> u32 \<Rightarrow> u32 \<Rightarrow> int option" where
  "strcmp m a b = do {
     ASSERT (a \<noteq> 0);
     ASSERT (b \<noteq> 0);
     (a, b) \<leftarrow> strcmp_loop m a b;
     Some (if m a < m b then -1 else if m a > m b then 1 else 0)
   }"

partial_function (option) strchr_loop :: "kmem \<Rightarrow> u32 \<Rightarrow> u8 \<Rightarrow> u32 option" where
  "strchr_loop m s c = (if m s = c then Some s else if m s = 0 then Some 0 else strchr_loop m (s + 1) c)"

definition strchr :: "kmem \<Rightarrow> u32 \<Rightarrow> int \<Rightarrow> u32 option" where
  "strchr m s c = do { ASSERT (s \<noteq> 0); strchr_loop m s (word_of_int c) }"

partial_function (option) strcspn_loop :: "kmem \<Rightarrow> u32 \<Rightarrow> u32 \<Rightarrow> nat \<Rightarrow> nat option" where
  "strcspn_loop m s stop len =
     (if m (s + of_nat len) \<noteq> 0 then do {
        p \<leftarrow> strchr m stop (sint (m (s + of_nat len)));
        if p \<noteq> 0 then Some len else strcspn_loop m s stop (len + 1)
      } else Some len)"

definition strcspn :: "kmem \<Rightarrow> u32 \<Rightarrow> u32 \<Rightarrow> nat option" where
  "strcspn m s stop = strcspn_loop m s stop 0"

partial_function (option) strpbrk :: "kmem \<Rightarrow> u32 \<Rightarrow> u32 \<Rightarrow> u32 option" where
  "strpbrk m s stop =
     (if m s \<noteq> 0 then do {
        p \<leftarrow> strchr m stop (sint (m s));
        if p \<noteq> 0 then Some s else strpbrk m (s + 1) stop
      } else Some 0)"

partial_function (option) strrchr_loop :: "kmem \<Rightarrow> u32 \<Rightarrow> u8 \<Rightarrow> u32 \<Rightarrow> u32 option" where
  "strrchr_loop m s c p = (if m s \<noteq> 0 then strrchr_loop m (s + 1) c (if m s = c then s else p) else Some p)"

definition strrchr :: "kmem \<Rightarrow> u32 \<Rightarrow> int \<Rightarrow> u32 option" where
  "strrchr m s c = strrchr_loop m s (word_of_int c) 0"

partial_function (option) strspn_loop :: "kmem \<Rightarrow> u32 \<Rightarrow> u32 \<Rightarrow> nat \<Rightarrow> nat option" where
  "strspn_loop m s skip len =
     (if m (s + of_nat len) \<noteq> 0 then do {
        p \<leftarrow> strchr m skip (sint (m (s + of_nat len)));
        if p = 0 then Some len else strspn_loop m s skip (len + 1)
      } else Some len)"

definition strspn :: "kmem \<Rightarrow> u32 \<Rightarrow> u32 \<Rightarrow> nat option" where
  "strspn m s skip = strspn_loop m s skip 0"

partial_function (option) strlen_loop :: "kmem \<Rightarrow> u32 \<Rightarrow> u32 option" where
  "strlen_loop m p = (if m p \<noteq> 0 then strlen_loop m (p + 1) else Some p)"

definition strlen :: "kmem \<Rightarrow> u32 \<Rightarrow> nat option" where
  "strlen m s = do { ASSERT (s \<noteq> 0); p \<leftarrow> strlen_loop m s; Some (unat (p - s)) }"

function strnlen_loop :: "kmem \<Rightarrow> u32 \<Rightarrow> nat \<Rightarrow> nat \<Rightarrow> nat" where
  "strnlen_loop m s maxlen len =
     (if m (s + of_nat len) \<noteq> 0 \<and> len < maxlen then strnlen_loop m s maxlen (len + 1) else len)"
  by auto
termination by (relation "measure (\<lambda>(m, s, maxlen, len). maxlen - len)") auto

definition strnlen :: "kmem \<Rightarrow> u32 \<Rightarrow> nat \<Rightarrow> nat" where
  "strnlen m s maxlen = strnlen_loop m s maxlen 0"

text \<open>\<open>strstr_loop m h n k i last_i\<close> tries the positions \<open>i\<close> to \<open>last_i\<close> for a needle of length \<open>k\<close>.\<close>

function strstr_loop :: "kmem \<Rightarrow> u32 \<Rightarrow> u32 \<Rightarrow> nat \<Rightarrow> nat \<Rightarrow> nat \<Rightarrow> u32 option" where
  "strstr_loop m h n k i last_i =
     (if i \<le> last_i then do {
        c \<leftarrow> memcmp m (h + of_nat i) n k;
        if c = 0 then Some (h + of_nat i) else strstr_loop m h n k (i + 1) last_i
      } else Some 0)"
  by auto
termination by (relation "measure (\<lambda>(m, h, n, k, i, last_i). Suc last_i - i)") auto

definition strstr :: "kmem \<Rightarrow> u32 \<Rightarrow> u32 \<Rightarrow> u32 option" where
  "strstr m haystack needle = do {
     haystack_len \<leftarrow> strlen m haystack;
     needle_len \<leftarrow> strlen m needle;
     if haystack_len \<ge> needle_len then strstr_loop m haystack needle needle_len 0 (haystack_len - needle_len)
     else Some 0
   }"

definition strlcpy :: "kmem \<Rightarrow> u32 \<Rightarrow> u32 \<Rightarrow> nat \<Rightarrow> (nat \<times> kmem) option" where
  "strlcpy m dst src sz = do {
     ASSERT (dst \<noteq> 0);
     ASSERT (src \<noteq> 0);
     src_len \<leftarrow> strlen m src;
     if sz > 0 then do {
       let dst_len = (if src_len < sz - 1 then src_len else sz - 1);
       (_, m) \<leftarrow> memcpy m dst src dst_len;
       Some (src_len, m(dst + of_nat dst_len := 0))
     } else Some (src_len, m)
   }"

definition strlcat :: "kmem \<Rightarrow> u32 \<Rightarrow> u32 \<Rightarrow> nat \<Rightarrow> (nat \<times> kmem) option" where
  "strlcat m dst src sz = do {
     ASSERT (dst \<noteq> 0);
     ASSERT (src \<noteq> 0);
     src_len \<leftarrow> strlen m src;
     dst_len \<leftarrow> strlen m dst;
     if sz > 0 \<and> dst_len < sz then do {
       let copy_cnt = (if src_len < sz - dst_len - 1 then src_len else sz - dst_len - 1);
       (_, m) \<leftarrow> memcpy m (dst + of_nat dst_len) src copy_cnt;
       Some (wrap32 (src_len + dst_len), m(dst + of_nat (dst_len + copy_cnt) := 0))
     } else Some (wrap32 (src_len + dst_len), m)
   }"

section \<open>Tokens\<close>

text \<open>
  \<open>save\<close> is the value of \<open>*save_ptr\<close>, in the argument and in the result \<open>(token, save, m)\<close>.
  The first loop returns whether the string ended.
\<close>

partial_function (option) skip_delims :: "kmem \<Rightarrow> u32 \<Rightarrow> u32 \<Rightarrow> (bool \<times> u32) option" where
  "skip_delims m s delims = do {
     p \<leftarrow> strchr m delims (sint (m s));
     if p \<noteq> 0 then (if m s = 0 then Some (True, s) else skip_delims m (s + 1) delims)
     else Some (False, s)
   }"

partial_function (option) skip_token :: "kmem \<Rightarrow> u32 \<Rightarrow> u32 \<Rightarrow> u32 option" where
  "skip_token m s delims = do {
     p \<leftarrow> strchr m delims (sint (m s));
     if p = 0 then skip_token m (s + 1) delims else Some s
   }"

definition strtok_r :: "kmem \<Rightarrow> u32 \<Rightarrow> u32 \<Rightarrow> u32 \<Rightarrow> (u32 \<times> u32 \<times> kmem) option" where
  "strtok_r m s delims save = do {
     ASSERT (delims \<noteq> 0);
     let s = (if s = 0 then save else s);
     ASSERT (s \<noteq> 0);
     (end, s) \<leftarrow> skip_delims m s delims;
     if end then Some (0, s, m)
     else do {
       let token = s;
       s \<leftarrow> skip_token m s delims;
       if m s \<noteq> 0 then Some (token, s + 1, m(s := 0)) else Some (token, s, m)
     }
   }"

text \<open>
  The loop of the comment on \<open>strtok_r\<close>, which process.c uses:
  \<open>for (token = strtok_r (s, delims, &save); token != NULL; token = strtok_r (NULL, delims, &save))\<close>,
  with the tokens it sees.
\<close>

partial_function (option) strtok_loop :: "kmem \<Rightarrow> u32 \<Rightarrow> u32 \<Rightarrow> u32 \<Rightarrow> (u32 list \<times> kmem) option" where
  "strtok_loop m s delims save = do {
     (token, save, m) \<leftarrow> strtok_r m s delims save;
     if token = 0 then Some ([], m)
     else do { (ts, m) \<leftarrow> strtok_loop m 0 delims save; Some (token # ts, m) }
   }"

declare strnlen_loop.simps [simp del] strstr_loop.simps [simp del]

section \<open>Blocks as functions of memory\<close>

lemma in_range_0 [simp]: "\<not> in_range a 0 x"
  by (simp add: in_range_def)

text \<open>A block of \<open>n + 1\<close> bytes is its first byte and the block of \<open>n\<close> bytes after it.\<close>

lemma unat_minus_one: "x \<noteq> 0 \<Longrightarrow> unat (x - 1 :: u32) = unat x - 1"
  by (simp add: unat_sub word_le_nat_alt Suc_leI unat_gt_0)

lemma in_range_Suc:
  assumes "n < 2 ^ 32"
  shows "in_range a (Suc n) x \<longleftrightarrow> x = a \<or> in_range (a + 1) n x"
proof (cases "x = a")
  case False
  have e: "x - (a + 1) = (x - a) - 1" by simp
  have "unat (x - (a + 1)) = unat (x - a) - 1" unfolding e using False unat_minus_one [of "x - a"] by simp
  then show ?thesis using False unat_gt_0 [of "x - a"] by (simp only: in_range_def) (simp; linarith)
qed (simp add: in_range_def)

lemma not_in_range_next: "n < 2 ^ 32 \<Longrightarrow> \<not> in_range (a + 1) n a"
  by (simp add: in_range_def unsigned_minus_1_eq_mask mask_eq_exp_minus_1)

text \<open>Copying upwards is right unless the destination starts inside the source.\<close>

lemma copy_up_eq:
  assumes "n < 2 ^ 32" and "n \<le> unat (dst - src) \<or> dst = src"
  shows "copy_up m dst src n = copy_bytes m dst src n"
  using assms
proof (induction n arbitrary: m dst src)
  case (Suc n)
  let ?m = "m(dst := m src)"
  have n: "n < 2 ^ 32" using Suc.prems(1) by simp
  have "copy_up m dst src (Suc n) = copy_bytes ?m (dst + 1) (src + 1) n"
    unfolding copy_up.simps by (rule Suc.IH) (use Suc.prems in auto)
  also have "\<dots> = copy_bytes m dst src (Suc n)"
  proof
    fix x
    have "?m (src + (x - dst)) = m (src + (x - dst))" if "in_range (dst + 1) n x"
    proof (cases "dst = src")
      case False
      then have "Suc n \<le> unat (dst - src)" using Suc.prems(2) by simp
      moreover have "unat (x - dst) < Suc n" using that in_range_Suc [OF n, of dst x] by (simp add: in_range_def)
      ultimately have "x - dst \<noteq> dst - src" by auto
      then show ?thesis by (auto simp: algebra_simps)
    qed simp
    moreover have "src + 1 + (x - (dst + 1)) = src + (x - dst)" by simp
    ultimately show "copy_bytes ?m (dst + 1) (src + 1) n x = copy_bytes m dst src (Suc n) x"
      using not_in_range_next [OF n, of dst] unfolding copy_bytes_def in_range_Suc [OF n] by auto
  qed
  finally show ?case .
qed (auto simp: copy_bytes_def)

lemma in_range_last:
  assumes "n < 2 ^ 32"
  shows "in_range a (Suc n) x \<longleftrightarrow> x = a + of_nat n \<or> in_range a n x"
proof -
  have "unat (of_nat n :: u32) = n" using assms by (simp add: unat_of_nat)
  then have "unat (x - a) = n \<longleftrightarrow> x - a = of_nat n" by (metis unsigned_word_eqI)
  also have "\<dots> \<longleftrightarrow> x = a + of_nat n" by (auto simp: algebra_simps)
  finally show ?thesis by (auto simp: in_range_def less_Suc_eq)
qed

text \<open>Copying downwards is right unless the source starts inside the destination.\<close>

lemma copy_down_eq:
  assumes "n < 2 ^ 32" and "n \<le> unat (src - dst) \<or> dst = src"
  shows "copy_down m (dst + of_nat n) (src + of_nat n) n = copy_bytes m dst src n"
  using assms
proof (induction n arbitrary: m)
  case (Suc n)
  let ?m = "m(dst + of_nat n := m (src + of_nat n))"
  have n: "n < 2 ^ 32" and u: "unat (of_nat n :: u32) = n" using Suc.prems(1) by (simp_all add: unat_of_nat)
  have e: "dst + of_nat (Suc n) - 1 = dst + of_nat n" "src + of_nat (Suc n) - 1 = src + of_nat n" by simp_all
  have "copy_down m (dst + of_nat (Suc n)) (src + of_nat (Suc n)) (Suc n) = copy_bytes ?m dst src n"
    unfolding copy_down.simps e by (rule Suc.IH) (use Suc.prems in auto)
  also have "\<dots> = copy_bytes m dst src (Suc n)"
  proof
    fix x
    have "?m (src + (x - dst)) = m (src + (x - dst))" if "in_range dst n x"
    proof (cases "dst = src")
      case False
      then have "Suc n \<le> unat (src - dst)" using Suc.prems(2) by simp
      moreover have "unat (of_nat n - (x - dst)) \<le> n"
        using that u by (simp add: in_range_def unat_sub word_le_nat_alt)
      ultimately have "of_nat n - (x - dst) \<noteq> src - dst" by (metis not_less_eq_eq)
      then have "src + (x - dst) \<noteq> dst + of_nat n" by (auto simp: algebra_simps)
      then show ?thesis by simp
    qed simp
    moreover have "\<not> in_range dst n (dst + of_nat n)" using u by (simp add: in_range_def)
    ultimately show "copy_bytes ?m dst src n x = copy_bytes m dst src (Suc n) x"
      unfolding copy_bytes_def in_range_last [OF n] by auto
  qed
  finally show ?case .
qed (auto simp: copy_bytes_def)

lemma memset_loop_eq: "n < 2 ^ 32 \<Longrightarrow> memset_loop m a v n = set_bytes m a v n"
proof (induction n arbitrary: m a)
  case (Suc n)
  then show ?case by (auto simp: set_bytes_def in_range_Suc fun_eq_iff)
qed (simp add: set_bytes_def)

section \<open>Strings in memory\<close>

text \<open>\<open>cstr m a s\<close>: the characters \<open>s\<close> and a terminator are at address \<open>a\<close>; the null address is not among theirs.\<close>

fun cstr :: "kmem \<Rightarrow> u32 \<Rightarrow> u8 list \<Rightarrow> bool" where
  "cstr m a [] \<longleftrightarrow> a \<noteq> 0 \<and> m a = 0"
| "cstr m a (x # xs) \<longleftrightarrow> a \<noteq> 0 \<and> x \<noteq> 0 \<and> m a = x \<and> cstr m (a + 1) xs"

lemma unat_plus_one: "a + 1 \<noteq> 0 \<Longrightarrow> unat (a + 1 :: u32) = unat a + 1"
  using unat_minus_one [of "a + 1"] unat_gt_0 [of "a + 1"] by simp

lemma unat_u32 [simp]: "unat (a :: u32) < 4294967296"
  using unat_bound [of a] by simp

lemma cstr_bound: "cstr m a s \<Longrightarrow> unat a + length s < 2 ^ 32"
proof (induction s arbitrary: a)
  case (Cons x xs)
  then have "a + 1 \<noteq> 0" by (cases xs) auto
  then show ?case using Cons unat_plus_one by fastforce
qed simp

lemma unat_plus_nat: "unat a + i < 2 ^ 32 \<Longrightarrow> unat (a + of_nat i :: u32) = unat a + i"
  by (simp add: unat_word_ariths unat_of_nat)

lemma cstr_iff:
  "cstr m a s \<longleftrightarrow> a \<noteq> 0 \<and> unat a + length s < 2 ^ 32 \<and> 0 \<notin> set s
     \<and> (\<forall>i < length s. m (a + of_nat i) = s ! i) \<and> m (a + of_nat (length s)) = 0"
proof (induction s arbitrary: a)
  case (Cons x xs)
  have "(a + 1 \<noteq> 0 \<and> unat (a + 1) + length xs < 2 ^ 32) \<longleftrightarrow> unat a + length (x # xs) < 2 ^ 32" if "a \<noteq> 0"
  proof
    assume "a + 1 \<noteq> 0 \<and> unat (a + 1) + length xs < 2 ^ 32"
    then show "unat a + length (x # xs) < 2 ^ 32" using unat_plus_one [of a] by simp
  next
    assume b: "unat a + length (x # xs) < 2 ^ 32"
    then have "unat (a + 1) = unat a + 1" using unat_plus_nat [of a 1] by simp
    with b show "a + 1 \<noteq> 0 \<and> unat (a + 1) + length xs < 2 ^ 32" by auto
  qed
  moreover have "(\<forall>i < length (x # xs). m (a + of_nat i) = (x # xs) ! i) \<longleftrightarrow> m a = x \<and> (\<forall>i < length xs. m (a + 1 + of_nat i) = xs ! i)"
    by (simp add: All_less_Suc2 add.assoc)
  ultimately show ?case using Cons.IH [of "a + 1"] by (auto simp: add.assoc)
qed auto

lemma cstr_cong:
  assumes "\<forall>i \<le> length s. m' (a + of_nat i) = m (a + of_nat i)"
  shows "cstr m' a s = cstr m a s"
  using assms by (auto simp: cstr_iff)

lemma cstr_append: "cstr m a (xs @ ys) \<Longrightarrow> cstr m (a + of_nat (length xs)) ys"
proof (induction xs arbitrary: a)
  case (Cons x xs)
  then show ?case using Cons.IH [of "a + 1"] by (simp add: add.assoc)
qed simp

lemma cstr_nonnull: "cstr m a s \<Longrightarrow> a \<noteq> 0"
  by (cases s) auto

lemma cstr_end: "cstr m a s \<Longrightarrow> m (a + of_nat (length s)) = 0 \<and> a + of_nat (length s) \<noteq> 0"
  using cstr_append [of m a s "[]"] by simp

section \<open>String functions as functions of the string\<close>

lemma strlen_cstr:
  assumes "cstr m a s"
  shows "strlen m a = Some (length s)"
proof -
  have "strlen_loop m a = Some (a + of_nat (length s))"
    using assms
  proof (induction s arbitrary: a)
    case Nil
    then show ?case by (subst strlen_loop.simps) simp
  next
    case (Cons x xs)
    then show ?case by (subst strlen_loop.simps) (simp add: add.assoc)
  qed
  then show ?thesis
    using assms cstr_bound [OF assms] by (simp add: strlen_def cstr_nonnull unat_of_nat)
qed

lemma strnlen_cstr: 
  assumes "cstr m a s"
  shows "strnlen m a n = min n (length s)"
proof -
  have "strnlen_loop m a n k = min n (length s)" if "k \<le> min n (length s)" for k
    using that
  proof (induction "min n (length s) - k" arbitrary: k)
    case 0
    then have "k = n \<or> k = length s" by auto
    then show ?case using assms 0 by (subst strnlen_loop.simps) (auto simp: cstr_iff)
  next
    case (Suc d)
    then have k: "k < n" "k < length s" by auto
    then have "m (a + of_nat k) = s ! k" "s ! k \<noteq> 0" using assms nth_mem [OF k(2)] unfolding cstr_iff by metis+
    then show ?case using Suc.hyps(1) [of "k + 1"] Suc.hyps(2) k by (subst strnlen_loop.simps) simp
  qed
  then show ?thesis by (simp add: strnlen_def)
qed

text \<open>\<open>strchr\<close> finds the first occurrence of a character or the terminator.\<close>

lemma strchr_cstr:
  assumes "cstr m a s" and "c = (word_of_int i :: u8)"
  shows "strchr m a i = Some (if c \<in> set (s @ [0]) then a + of_nat (length (takeWhile (\<lambda>x. x \<noteq> c) s)) else 0)"
proof -
  have "strchr_loop m a c = Some (if c \<in> set (s @ [0]) then a + of_nat (length (takeWhile (\<lambda>x. x \<noteq> c) s)) else 0)"
    using assms(1)
  proof (induction s arbitrary: a)
    case Nil
    then show ?case by (subst strchr_loop.simps) auto
  next
    case (Cons x xs)
    then show ?case by (subst strchr_loop.simps) (auto simp: add.assoc)
  qed
  then show ?thesis using assms by (simp add: strchr_def cstr_nonnull)
qed

lemma strchr_found:
  assumes "cstr m a s"
  shows "\<exists>p. strchr m a (sint c) = Some p \<and> (p \<noteq> 0 \<longleftrightarrow> c \<in> set s \<or> c = 0)"
proof -
  have "a + of_nat (length (takeWhile (\<lambda>x. x \<noteq> c) s)) \<noteq> 0"
    using cstr_append [of m a "takeWhile (\<lambda>x. x \<noteq> c) s" "dropWhile (\<lambda>x. x \<noteq> c) s"] assms cstr_nonnull by simp
  then show ?thesis using strchr_cstr [OF assms refl, of "sint c"] by auto
qed

lemma strcspn_cstr:
  assumes "cstr m a s" and "cstr m b stop"
  shows "strcspn m a b = Some (length (takeWhile (\<lambda>x. x \<notin> set stop) s))"
proof -
  have "strcspn_loop m a b (length us) = Some (length us + length (takeWhile (\<lambda>x. x \<notin> set stop) vs))"
    if "s = us @ vs" for us vs
    using that
  proof (induction vs arbitrary: us)
    case Nil
    then show ?case using cstr_end [OF assms(1)] by (subst strcspn_loop.simps) simp
  next
    case (Cons x xs)
    have x: "m (a + of_nat (length us)) = x" "x \<noteq> 0" using cstr_append [of m a us "x # xs"] assms(1) Cons.prems by auto
    obtain p where p: "strchr m b (sint x) = Some p" "p \<noteq> 0 \<longleftrightarrow> x \<in> set stop \<or> x = 0" using strchr_found [OF assms(2)] by blast
    then show ?case using x Cons.IH [of "us @ [x]"] Cons.prems by (subst strcspn_loop.simps) simp
  qed
  from this [of "[]" s] show ?thesis by (simp add: strcspn_def)
qed

lemma strspn_cstr:
  assumes "cstr m a s" and "cstr m b skip"
  shows "strspn m a b = Some (length (takeWhile (\<lambda>x. x \<in> set skip) s))"
proof -
  have "strspn_loop m a b (length us) = Some (length us + length (takeWhile (\<lambda>x. x \<in> set skip) vs))"
    if "s = us @ vs" for us vs
    using that
  proof (induction vs arbitrary: us)
    case Nil
    then show ?case using cstr_end [OF assms(1)] by (subst strspn_loop.simps) simp
  next
    case (Cons x xs)
    have x: "m (a + of_nat (length us)) = x" "x \<noteq> 0" using cstr_append [of m a us "x # xs"] assms(1) Cons.prems by auto
    obtain p where p: "strchr m b (sint x) = Some p" "p \<noteq> 0 \<longleftrightarrow> x \<in> set skip \<or> x = 0" using strchr_found [OF assms(2)] by blast
    then show ?case using x Cons.IH [of "us @ [x]"] Cons.prems by (subst strspn_loop.simps) simp
  qed
  from this [of "[]" s] show ?thesis by (simp add: strspn_def)
qed

section \<open>Comparison and search\<close>

definition lex_sign :: "u8 list \<Rightarrow> u8 list \<Rightarrow> int" where
  "lex_sign xs ys = (if xs < ys then -1 else if ys < xs then 1 else 0)"

lemma lex_sign_simps [simp]:
  "lex_sign [] [] = 0" "lex_sign [] (y # ys) = -1" "lex_sign (x # xs) [] = 1"
  "lex_sign (x # xs) (y # ys) = (if x < y then -1 else if y < x then 1 else lex_sign xs ys)"
  by (auto simp: lex_sign_def)

lemma lex_sign_0: "lex_sign xs ys = 0 \<longleftrightarrow> xs = ys"
  by (auto simp: lex_sign_def)

lemma get_bytes_Suc: "get_bytes m a (Suc n) = m a # get_bytes m (a + 1) n"
  by (rule nth_equalityI) (auto simp: nth_Cons' add.assoc of_nat_diff)

lemma memcmp_loop_sign: "memcmp_loop m a b n = lex_sign (get_bytes m a n) (get_bytes m b n)"
  by (induction n arbitrary: a b) (auto simp: get_bytes_Suc, simp add: get_bytes_def)

lemma strcmp_cstr:
  assumes "cstr m a s" and "cstr m b t"
  shows "strcmp m a b = Some (lex_sign s t)"
proof -
  have "\<exists>a' b'. strcmp_loop m a b = Some (a', b') \<and> (if m a' < m b' then -1 else if m a' > m b' then 1 else 0) = lex_sign s t"
    using assms
  proof (induction s t arbitrary: a b rule: list_induct2')
    case (4 x xs y ys)
    then show ?case using 4(1) [of "a + 1" "b + 1"] by (subst strcmp_loop.simps) auto
  qed (subst strcmp_loop.simps; auto simp: word_gt_0)+
  then show ?thesis using assms by (auto simp: strcmp_def cstr_nonnull)
qed

lemma get_bytes_cstr:
  assumes "cstr m a s" and "i + k \<le> length s"
  shows "get_bytes m (a + of_nat i) k = take k (drop i s)"
  using assms by (intro nth_equalityI) (auto simp: cstr_iff add.assoc simp flip: of_nat_add)

definition occurs :: "u8 list \<Rightarrow> u8 list \<Rightarrow> nat \<Rightarrow> bool" where
  "occurs hs ns i \<longleftrightarrow> i + length ns \<le> length hs \<and> take (length ns) (drop i hs) = ns"

lemma strstr_loop_cstr:
  assumes "cstr m h hs" and "cstr m n ns" and "l + length ns = length hs" and "i \<le> Suc l"
  shows "\<exists>p. strstr_loop m h n (length ns) i l = Some p
    \<and> (if p = 0 then \<forall>j \<ge> i. \<not> occurs hs ns j else \<exists>k \<ge> i. p = h + of_nat k \<and> occurs hs ns k \<and> (\<forall>j. i \<le> j \<and> j < k \<longrightarrow> \<not> occurs hs ns j))"
  using assms(4)
proof (induction "Suc l - i" arbitrary: i)
  case 0
  then show ?case using assms(3) by (subst strstr_loop.simps) (auto simp: occurs_def)
next
  case (Suc d)
  then have i: "i \<le> l" "i + length ns \<le> length hs" and d: "d = Suc l - (i + 1)" "i + 1 \<le> Suc l" using assms(3) by auto
  have nn: "h + of_nat i \<noteq> 0" "n \<noteq> 0"
    using cstr_append [of m h "take i hs" "drop i hs"] assms(1,2) cstr_nonnull i by auto
  have "memcmp m (h + of_nat i) n (length ns) = Some (lex_sign (take (length ns) (drop i hs)) ns)"
    using nn get_bytes_cstr [OF assms(1) i(2)] get_bytes_cstr [OF assms(2), of 0 "length ns"] by (simp add: memcmp_def memcmp_loop_sign)
  moreover have "lex_sign (take (length ns) (drop i hs)) ns = 0 \<longleftrightarrow> occurs hs ns i" using i by (simp add: lex_sign_0 occurs_def)
  ultimately have step: "strstr_loop m h n (length ns) i l = (if occurs hs ns i then Some (h + of_nat i) else strstr_loop m h n (length ns) (i + 1) l)"
    using i(1) by (subst strstr_loop.simps) simp
  show ?case
  proof (cases "occurs hs ns i")
    case True
    then show ?thesis using step nn(1) by (intro exI [of _ "h + of_nat i"]) auto
  next
    case False
    obtain p where p: "strstr_loop m h n (length ns) (i + 1) l = Some p"
        "if p = 0 then \<forall>j \<ge> i + 1. \<not> occurs hs ns j
         else \<exists>k \<ge> i + 1. p = h + of_nat k \<and> occurs hs ns k \<and> (\<forall>j. i + 1 \<le> j \<and> j < k \<longrightarrow> \<not> occurs hs ns j)"
      using Suc.hyps(1) [OF d] by blast
    have "\<forall>j. i \<le> j \<longrightarrow> j = i \<or> i + 1 \<le> j" by auto
    then have "if p = 0 then \<forall>j \<ge> i. \<not> occurs hs ns j
         else \<exists>k \<ge> i. p = h + of_nat k \<and> occurs hs ns k \<and> (\<forall>j. i \<le> j \<and> j < k \<longrightarrow> \<not> occurs hs ns j)"
      using p(2) False by (metis add_leD1)
    then show ?thesis using p(1) step False by simp
  qed
qed

lemma strstr_cstr:
  assumes "cstr m h hs" and "cstr m n ns"
  shows "\<exists>p. strstr m h n = Some p
    \<and> (if p = 0 then \<forall>j. \<not> occurs hs ns j else \<exists>k. p = h + of_nat k \<and> occurs hs ns k \<and> (\<forall>j < k. \<not> occurs hs ns j))"
proof (cases "length ns \<le> length hs")
  case True
  then show ?thesis
    using strstr_loop_cstr [OF assms, of "length hs - length ns" 0] assms by (auto simp: strstr_def strlen_cstr split: if_splits)
next
  case False
  then show ?thesis using assms by (auto simp: strstr_def strlen_cstr occurs_def)
qed

lemma strpbrk_cstr:
  assumes "cstr m a s" and "cstr m b stop"
  shows "strpbrk m a b = Some (if set s \<inter> set stop = {} then 0 else a + of_nat (length (takeWhile (\<lambda>x. x \<notin> set stop) s)))"
  using assms(1)
proof (induction s arbitrary: a)
  case Nil
  then show ?case by (subst strpbrk.simps) simp
next
  case (Cons x xs)
  obtain p where "strchr m b (sint x) = Some p" "p \<noteq> 0 \<longleftrightarrow> x \<in> set stop \<or> x = 0" using strchr_found [OF assms(2)] by blast
  then show ?case using Cons by (subst strpbrk.simps) (auto simp: add.assoc)
qed

text \<open>The search stops before the terminator, which it therefore never finds.\<close>

lemma strrchr_cstr:
  assumes "cstr m a s" and "c = (word_of_int i :: u8)"
  shows "strrchr m a i = Some (if c \<in> set s then a + of_nat (length s - Suc (length (takeWhile (\<lambda>x. x \<noteq> c) (rev s)))) else 0)"
proof -
  have "strrchr_loop m a c p = Some (if c \<in> set s then a + of_nat (length s - Suc (length (takeWhile (\<lambda>x. x \<noteq> c) (rev s)))) else p)" for p
    using assms(1)
  proof (induction s arbitrary: a p)
    case Nil
    then show ?case by (subst strrchr_loop.simps) simp
  next
    case (Cons x xs)
    have "length (takeWhile (\<lambda>x. x \<noteq> c) (rev xs)) < length xs" if "c \<in> set xs"
    proof -
      have "dropWhile (\<lambda>x. x \<noteq> c) (rev xs) \<noteq> []" using that by (simp add: dropWhile_eq_Nil_conv)
      then show ?thesis
        by (metis length_append length_greater_0_conv length_rev less_add_same_cancel1 takeWhile_dropWhile_id)
    qed
    then show ?case
      using Cons Cons.IH [of "a + 1"] by (subst strrchr_loop.simps) (auto simp: takeWhile_append Suc_diff_Suc add.assoc simp flip: of_nat_Suc)
  qed
  then show ?thesis using assms by (simp add: strrchr_def)
qed

section \<open>Copying strings\<close>

lemma in_range_unat: "unat a + n \<le> 2 ^ 32 \<Longrightarrow> in_range a n x \<longleftrightarrow> unat a \<le> unat x \<and> unat x < unat a + n"
  by (auto simp: in_range_def unat_sub_if' split: if_splits)

lemma address_eq: "unat a + i < 2 ^ 32 \<Longrightarrow> unat a + j < 2 ^ 32 \<Longrightarrow> a + of_nat i = (a + of_nat j :: u32) \<longleftrightarrow> i = j"
  by (metis add_left_cancel unat_plus_nat)

text \<open>A string whose characters are copied to its end and terminated there.\<close>

lemma cstr_extend:
  assumes "cstr m src s" and "cstr m dst t \<or> t = [] \<and> dst \<noteq> 0" and "k \<le> length s" and "unat dst + length t + k < 2 ^ 32"
    and "m' = (copy_bytes m (dst + of_nat (length t)) src k)(dst + of_nat (length t + k) := 0)"
  shows "cstr m' dst (t @ take k s)"
  unfolding cstr_iff
proof (intro conjI allI impI)
  let ?d = "dst + of_nat (length t)"
  have d: "unat ?d = unat dst + length t" using assms(4) unat_plus_nat by simp
  show "m' (dst + of_nat i) = (t @ take k s) ! i" if "i < length (t @ take k s)" for i
  proof -
    have i: "i < length t + k" using that assms(3) by simp
    then have u: "unat (dst + of_nat i) = unat dst + i" using assms(4) unat_plus_nat by simp
    have off: "dst + of_nat i \<noteq> dst + of_nat (length t + k)"
      using address_eq [of dst i "length t + k"] i assms(4) by simp
    show ?thesis
    proof (cases "i < length t")
      case True
      then have "\<not> in_range ?d k (dst + of_nat i)" using in_range_unat [of ?d k] u d assms(4) by simp
      then have "m' (dst + of_nat i) = m (dst + of_nat i)" using off by (simp add: assms(5) copy_bytes_def)
      then show ?thesis using True assms(2) by (auto simp: nth_append cstr_iff)
    next
      case False
      then have "in_range ?d k (dst + of_nat i)" using in_range_unat [of ?d k] u d i assms(4) by simp
      moreover have "dst + of_nat i - ?d = of_nat (i - length t)" using False by (simp add: of_nat_diff)
      ultimately have "m' (dst + of_nat i) = m (src + of_nat (i - length t))" using off by (simp add: assms(5) copy_bytes_def)
      moreover have "m (src + of_nat (i - length t)) = s ! (i - length t)"
        using assms(1,3) False i unfolding cstr_iff by (metis add_diff_inverse_nat add_less_cancel_left less_le_trans)
      ultimately show ?thesis using False i by (simp add: nth_append)
    qed
  qed
qed (use assms in \<open>auto simp: cstr_iff dest: in_set_takeD\<close>)

text \<open>
  \<open>strlcpy\<close> leaves the longest prefix of \<open>src\<close> that fits, terminated, in \<open>dst\<close>; it writes to no
  other address.  The regions may not overlap in a way that copying upwards spoils.
\<close>

lemma strlcpy_cstr:
  assumes "cstr m src s" and "dst \<noteq> 0" and "k = min (sz - 1) (length s)" and "unat dst + k < 2 ^ 32" and "k \<le> unat (dst - src) \<or> dst = src"
  shows "\<exists>m'. strlcpy m dst src sz = Some (length s, m') \<and> (0 < sz \<longrightarrow> cstr m' dst (take (sz - 1) s))
    \<and> (\<forall>x. \<not> (0 < sz \<and> in_range dst (Suc k) x) \<longrightarrow> m' x = m x)"
proof (cases "sz = 0")
  case True
  then show ?thesis using assms(1,2) by (simp add: strlcpy_def strlen_cstr cstr_nonnull)
next
  case False
  let ?m = "(copy_bytes m dst src k)(dst + of_nat k := 0)"
  have k: "k < 2 ^ 32" "(if length s < sz - 1 then length s else sz - 1) = k" using assms(3,4) by auto
  have "strlcpy m dst src sz = Some (length s, ?m)"
    using assms(1,2) False k copy_up_eq [OF k(1) assms(5)]
    by (simp add: strlcpy_def strlen_cstr cstr_nonnull memcpy_def Let_def)
  moreover have "cstr ?m dst (take k s)"
    using cstr_extend [OF assms(1), of dst "[]" k ?m] assms(2-4) by simp
  moreover have "take k s = take (sz - 1) s" using assms(3) by (simp add: min_def)
  moreover have "?m x = m x" if "\<not> in_range dst (Suc k) x" for x
    using that in_range_last [OF k(1)] by (auto simp: copy_bytes_def)
  ultimately show ?thesis using False by auto
qed

lemma strlcat_cstr:
  assumes "cstr m src s" and "cstr m dst t" and "k = min (sz - length t - 1) (length s)" and "unat dst + length t + k < 2 ^ 32"
    and "k \<le> unat (dst + of_nat (length t) - src)" and "length t < sz"
  shows "\<exists>m'. strlcat m dst src sz = Some (wrap32 (length s + length t), m') \<and> cstr m' dst (take (sz - 1) (t @ s))
    \<and> (\<forall>x. \<not> in_range (dst + of_nat (length t)) (Suc k) x \<longrightarrow> m' x = m x)"
proof -
  let ?m = "(copy_bytes m (dst + of_nat (length t)) src k)(dst + of_nat (length t + k) := 0)"
  have k: "k < 2 ^ 32" "(if length s < sz - length t - 1 then length s else sz - length t - 1) = k" using assms(3,4) by auto
  have nn: "dst + of_nat (length t) \<noteq> 0" using cstr_end [OF assms(2)] by simp
  have "strlcat m dst src sz = Some (wrap32 (length s + length t), ?m)"
    using assms(1,2,6) k copy_up_eq [OF k(1), of "dst + of_nat (length t)" src m] assms(5) nn
    by (simp add: strlcat_def strlen_cstr cstr_nonnull memcpy_def Let_def)
  moreover have "cstr ?m dst (t @ take k s)" using cstr_extend [OF assms(1), of dst t k ?m] assms(2-4) by simp
  moreover have "t @ take k s = take (sz - 1) (t @ s)" using assms(3,6) by (simp add: min_def)
  moreover have "?m x = m x" if "\<not> in_range (dst + of_nat (length t)) (Suc k) x" for x
    using that in_range_last [OF k(1)] by (auto simp: copy_bytes_def add.assoc)
  ultimately show ?thesis by auto
qed

section \<open>Tokens of a string\<close>

lemma length_tl_dropWhile:
  assumes "t \<noteq> []"
  shows "length (tl (dropWhile P t)) < length t"
proof -
  have "0 < length t" using assms by simp
  then show ?thesis using length_dropWhile_le [of P t] unfolding length_tl by linarith
qed

text \<open>The reference: the maximal runs of characters that are not delimiters, in order.\<close>

function tokens :: "u8 set \<Rightarrow> u8 list \<Rightarrow> u8 list list" where
  "tokens ds s =
     (let t = dropWhile (\<lambda>x. x \<in> ds) s in
      if t = [] then [] else takeWhile (\<lambda>x. x \<notin> ds) t # tokens ds (tl (dropWhile (\<lambda>x. x \<notin> ds) t)))"
  by auto
termination
proof (relation "measure (\<lambda>(ds, s). length s)")
  fix ds :: "u8 set" and s t
  assume "t = dropWhile (\<lambda>x. x \<in> ds) s" and "t \<noteq> []"
  then show "((ds, tl (dropWhile (\<lambda>x. x \<notin> ds) t)), ds, s) \<in> measure (\<lambda>(ds, s). length s)"
    using length_tl_dropWhile [of t "\<lambda>x. x \<notin> ds"] length_dropWhile_le [of "\<lambda>x. x \<in> ds" s] unfolding in_measure prod.case by (metis less_le_trans)
qed simp

declare tokens.simps [simp del]

lemma skip_delims_cstr:
  assumes "cstr m p s" and "cstr m d ds"
  shows "skip_delims m p d = Some (dropWhile (\<lambda>x. x \<in> set ds) s = [], p + of_nat (length (takeWhile (\<lambda>x. x \<in> set ds) s)))"
  using assms(1)
proof (induction s arbitrary: p)
  case Nil
  then show ?case using strchr_found [OF assms(2), of 0] by (subst skip_delims.simps) auto
next
  case (Cons x xs)
  obtain q where "strchr m d (sint x) = Some q" "q \<noteq> 0 \<longleftrightarrow> x \<in> set ds \<or> x = 0" using strchr_found [OF assms(2)] by blast
  then show ?case using Cons by (subst skip_delims.simps) (simp add: add.assoc)
qed

lemma skip_token_cstr:
  assumes "cstr m p s" and "cstr m d ds"
  shows "skip_token m p d = Some (p + of_nat (length (takeWhile (\<lambda>x. x \<notin> set ds) s)))"
  using assms(1)
proof (induction s arbitrary: p)
  case Nil
  then show ?case using strchr_found [OF assms(2), of 0] by (subst skip_token.simps) auto
next
  case (Cons x xs)
  obtain q where "strchr m d (sint x) = Some q" "q \<noteq> 0 \<longleftrightarrow> x \<in> set ds \<or> x = 0" using strchr_found [OF assms(2)] by blast
  then show ?case using Cons by (subst skip_token.simps) (auto simp: add.assoc)
qed

text \<open>One call: the string at the position is cut after its first token.\<close>

lemma strtok_r_cut:
  assumes "cstr m p (us @ t @ rest)" and "cstr m d ds" and "s = p \<or> s = 0 \<and> save = p"
    and "\<forall>x\<in>set us. x \<in> set ds" and "t \<noteq> []" and "\<forall>x\<in>set t. x \<notin> set ds" and "rest = [] \<or> hd rest \<in> set ds"
    and "q = p + of_nat (length us)" and "p' = (if rest = [] then q + of_nat (length t) else q + of_nat (length t) + 1)"
  shows "\<exists>m'. strtok_r m s d save = Some (q, p', m') \<and> cstr m' q t \<and> cstr m' p' (tl rest)
    \<and> (\<forall>x. rest = [] \<or> x \<noteq> q + of_nat (length t) \<longrightarrow> m' x = m x)"
proof -
  have c: "cstr m q (t @ rest)" using cstr_append [OF assms(1)] assms(8) by simp
  have e: "cstr m (q + of_nat (length t)) rest" using cstr_append [OF c] .
  have "dropWhile (\<lambda>x. x \<in> set ds) (us @ t @ rest) = t @ rest" "takeWhile (\<lambda>x. x \<in> set ds) (us @ t @ rest) = us"
    using assms(4-6) by (cases t; auto simp: dropWhile_append takeWhile_append)+
  then have sk: "skip_delims m p d = Some (False, q)" using skip_delims_cstr [OF assms(1,2)] assms(5,8) by simp
  have "takeWhile (\<lambda>x. x \<notin> set ds) (t @ rest) = t" using assms(6,7) by (cases rest) (auto simp: takeWhile_append)
  then have st: "skip_token m q d = Some (q + of_nat (length t))" using skip_token_cstr [OF c assms(2)] by simp
  have s: "(if s = 0 then save else s) = p" "p \<noteq> 0" "d \<noteq> 0" using assms(1-3) cstr_nonnull by auto
  show ?thesis
  proof (cases rest)
    case Nil
    then show ?thesis using s sk st c e assms(9) by (simp add: strtok_r_def Let_def)
  next
    case (Cons y ys)
    let ?e = "q + of_nat (length t)"
    have y: "m ?e \<noteq> 0" using e Cons by simp
    have b: "unat q + length t + length rest < 2 ^ 32" using cstr_bound [OF c] by simp
    have "cstr (m(?e := 0)) q t" using c b Cons address_eq [of q _ "length t"] by (auto simp: cstr_iff nth_append)
    moreover have "cstr (m(?e := 0)) (?e + 1) ys"
    proof -
      have "?e + 1 + of_nat i \<noteq> ?e" if "i \<le> length ys" for i
        using address_eq [of q "length t" "length t + 1 + i"] b that Cons by (simp add: add.assoc)
      then show ?thesis using e Cons cstr_cong [of ys "m(?e := 0)" "?e + 1" m] by simp
    qed
    ultimately show ?thesis using s sk st y Cons assms(9) by (simp add: strtok_r_def Let_def)
  qed
qed

lemma tokens_split:
  "\<exists>us t rest. s = us @ t @ rest \<and> (\<forall>x\<in>set us. x \<in> ds) \<and> (\<forall>x\<in>set t. x \<notin> ds) \<and> (rest = [] \<or> hd rest \<in> ds)
    \<and> (t = [] \<longrightarrow> rest = []) \<and> tokens ds s = (if t = [] then [] else t # tokens ds (tl rest))"
proof -
  define u where "u = dropWhile (\<lambda>x. x \<in> ds) s"
  define us t rest where "us = takeWhile (\<lambda>x. x \<in> ds) s" and "t = takeWhile (\<lambda>x. x \<notin> ds) u" and "rest = dropWhile (\<lambda>x. x \<notin> ds) u"
  have "s = us @ t @ rest" by (simp add: us_def t_def rest_def u_def)
  moreover have "\<forall>x\<in>set us. x \<in> ds" "\<forall>x\<in>set t. x \<notin> ds" by (auto simp: us_def t_def dest: set_takeWhileD)
  moreover have "rest = [] \<or> hd rest \<in> ds" using hd_dropWhile [of "\<lambda>x. x \<notin> ds" u] by (auto simp: rest_def)
  moreover have t: "t = [] \<longleftrightarrow> u = []" unfolding t_def u_def by (metis hd_dropWhile takeWhile_eq_Nil_iff)
  moreover have "t = [] \<longrightarrow> rest = []" using t by (simp add: rest_def)
  moreover have "tokens ds s = (if t = [] then [] else t # tokens ds (tl rest))"
    unfolding t by (subst tokens.simps) (simp add: Let_def t_def rest_def flip: u_def)
  ultimately show ?thesis by blast
qed

lemma strtok_loop_tokens:
  assumes "cstr m p str" and "cstr m d ds" and "s = p \<or> s = 0 \<and> save = p"
    and "\<forall>i \<le> length ds. \<not> in_range p (length str) (d + of_nat i)"
  shows "\<exists>ts m'. strtok_loop m s d save = Some (ts, m') \<and> list_all2 (cstr m') ts (tokens (set ds) str)
    \<and> (\<forall>x. \<not> in_range p (length str) x \<longrightarrow> m' x = m x)"
  using assms
proof (induction "length str" arbitrary: m p str s save rule: less_induct)
  case less
  obtain us t rest where str: "str = us @ t @ rest" and us: "\<forall>x\<in>set us. x \<in> set ds" and t: "\<forall>x\<in>set t. x \<notin> set ds"
      and rest: "rest = [] \<or> hd rest \<in> set ds" "t = [] \<longrightarrow> rest = []"
      and tok: "tokens (set ds) str = (if t = [] then [] else t # tokens (set ds) (tl rest))"
    using tokens_split [of str "set ds"] by blast
  have b: "unat p + length str < 2 ^ 32" using cstr_bound [OF less.prems(1)] .
  show ?case
  proof (cases "t = []")
    case True
    then have su: "str = us" and tw: "takeWhile (\<lambda>x. x \<in> set ds) us = us" using str us rest by (simp_all add: takeWhile_eq_all_conv)
    have "skip_delims m p d = Some (True, p + of_nat (length str))"
      using skip_delims_cstr [OF less.prems(1,2)] us unfolding su tw by simp
    moreover have "(if s = 0 then save else s) = p" "p \<noteq> 0" "d \<noteq> 0" using less.prems(1-3) cstr_nonnull by auto
    ultimately have "strtok_r m s d save = Some (0, p + of_nat (length str), m)" by (simp add: strtok_r_def Let_def)
    then show ?thesis using True tok by (subst strtok_loop.simps) simp
  next
    case False
    define q where "q = p + of_nat (length us)"
    define p' where "p' = (if rest = [] then q + of_nat (length t) else q + of_nat (length t) + 1)"
    obtain m1 where m1: "strtok_r m s d save = Some (q, p', m1)" "cstr m1 q t" "cstr m1 p' (tl rest)"
        "\<forall>x. rest = [] \<or> x \<noteq> q + of_nat (length t) \<longrightarrow> m1 x = m x"
      using strtok_r_cut [OF less.prems(1) [unfolded str] less.prems(2,3) us False t rest(1) q_def p'_def] by blast
    have len: "length str = length us + length t + length rest" using str by simp
    have uq: "unat q = unat p + length us" "unat (q + of_nat (length t)) = unat p + length us + length t"
      using b len unat_plus_nat [of p "length us"] unat_plus_nat [of q "length t"] by (simp_all add: q_def)
    have up: "unat p' + length (tl rest) = unat p + length str" "unat p + length us + length t \<le> unat p'"
      using b len uq unat_plus_nat [of "q + of_nat (length t)" 1] by (cases rest; simp add: p'_def)+
    have r: "in_range p (length str) x \<longleftrightarrow> unat p \<le> unat x \<and> unat x < unat p + length str"
        "in_range p' (length (tl rest)) x \<longleftrightarrow> unat p' \<le> unat x \<and> unat x < unat p + length str" for x
      using b up in_range_unat [of p "length str" x] in_range_unat [of p' "length (tl rest)" x] by simp_all
    have e: "in_range p (length str) (q + of_nat (length t))" if "rest \<noteq> []" using that uq len r(1) by (cases rest) simp_all
    have sub: "in_range p (length str) x" if "in_range p' (length (tl rest)) x" for x using that r up by simp
    have d: "cstr m1 d ds" using less.prems(2,4) m1(4) e cstr_cong [of ds m1 d m] by metis
    have "0 < length t" using False by simp
    then have l: "length (tl rest) < length str" using len unfolding length_tl by linarith
    obtain ts m' where m': "strtok_loop m1 0 d p' = Some (ts, m')" "list_all2 (cstr m') ts (tokens (set ds) (tl rest))"
        "\<forall>x. \<not> in_range p' (length (tl rest)) x \<longrightarrow> m' x = m1 x"
      using less.hyps [OF l m1(3) d, of 0 p'] less.prems(4) sub by blast
    have "\<not> in_range p' (length (tl rest)) (q + of_nat i)" if "i \<le> length t" for i
    proof -
      have "unat (q + of_nat i) = unat p + length us + i" using that b len uq(1) unat_plus_nat [of q i] by simp
      then show ?thesis using that up(1) len unfolding r by (cases rest) simp_all
    qed
    then have "cstr m' q t" using m1(2) m'(3) cstr_cong [of t m' q m1] by simp
    then show ?thesis
      using m1 m' tok False cstr_nonnull [OF m1(2)] sub e by (subst strtok_loop.simps) (simp; metis)
  qed
qed

section \<open>Properties\<close>

text \<open>
  C25: the tokenizer.  Calling \<open>strtok_r\<close> until it returns a null pointer ends, for every string and
  every set of delimiters outside of it, and the pointers it returned are strings that hold
  exactly the maximal runs of other characters, in order; nothing outside the string is written.
\<close>

theorem strtok_r_tokens:
  assumes "cstr m s str" and "cstr m d ds" and "\<forall>i \<le> length ds. \<not> in_range s (length str) (d + of_nat i)"
  shows "\<exists>ts m'. strtok_loop m s d save = Some (ts, m') \<and> list_all2 (cstr m') ts (tokens (set ds) str)
    \<and> (\<forall>x. \<not> in_range s (length str) x \<longrightarrow> m' x = m x)"
  using strtok_loop_tokens [OF assms(1,2) _ assms(3)] by blast

definition example_text :: kmem where
  "example_text = (\<lambda>_. 0)(0x1000 := 32, 0x1001 := 97, 0x1002 := 32, 0x1003 := 32, 0x1004 := 98, 0x2000 := 32)"

theorem strtok_r_tokens_witness:
  "\<exists>t1 t2 m'. strtok_loop example_text 0x1000 0x2000 0 = Some ([t1, t2], m') \<and> cstr m' t1 [97] \<and> cstr m' t2 [98]"
proof -
  have c: "cstr example_text 0x1000 [32, 97, 32, 32, 98]" "cstr example_text 0x2000 [32]" by (simp_all add: example_text_def)
  have "\<forall>i \<le> length [32 :: u8]. \<not> in_range 0x1000 (length [32, 97, 32, 32, 98 :: u8]) (0x2000 + of_nat i)"
    by (simp add: in_range_def le_Suc_eq)
  moreover have "tokens (set [32]) [32, 97, 32, 32, 98] = [[97], [98]]" by (simp add: tokens.simps Let_def)
  ultimately show ?thesis
    using strtok_r_tokens [OF c, of 0] by (auto simp: list_all2_Cons2)
qed

text \<open>
  C26: \<open>memmove\<close> copies as if through a buffer, whatever the overlap of the two blocks, and writes
  to no other byte.  Its result is \<open>dst\<close> only when it copies downwards; when it copies upwards
  the result is the address after the destination.
\<close>

theorem memmove_correct:
  assumes "dst \<noteq> 0 \<and> src \<noteq> 0 \<or> n = 0" and "unat dst + n \<le> 2 ^ 32" and "unat src + n \<le> 2 ^ 32" and "n < 2 ^ 32"
  shows "\<exists>m'. memmove m dst src n = Some (if dst < src then dst + of_nat n else dst, m')
    \<and> get_bytes m' dst n = get_bytes m src n \<and> (\<forall>x. \<not> in_range dst n x \<longrightarrow> m' x = m x)"
proof -
  have "copy_up m dst src n = copy_bytes m dst src n" if "dst < src"
    using that assms(2-4) by (intro copy_up_eq) (auto simp: unat_sub_if' word_less_nat_alt)
  moreover have "copy_down m (dst + of_nat n) (src + of_nat n) n = copy_bytes m dst src n" if "\<not> dst < src"
    using that assms(2-4) by (intro copy_down_eq) (auto simp: unat_sub_if' word_less_nat_alt unsigned_word_eqI)
  ultimately have "memmove m dst src n = Some (if dst < src then dst + of_nat n else dst, copy_bytes m dst src n)"
    using assms(1) by (auto simp: memmove_def)
  moreover have "get_bytes (copy_bytes m dst src n) dst n = get_bytes m src n"
    using assms(4) by (intro nth_equalityI) (auto simp: copy_bytes_def in_range_def unat_of_nat)
  ultimately show ?thesis by (auto simp: copy_bytes_def)
qed

theorem memmove_correct_witness:
  "\<exists>m'. memmove example_text 0x1001 0x1000 4 = Some (0x1001, m') \<and> get_bytes m' 0x1001 4 = [32, 97, 32, 32]"
proof -
  have "get_bytes example_text 0x1000 4 = [32, 97, 32, 32]" by (simp add: get_bytes_def example_text_def upt_rec)
  then show ?thesis using memmove_correct [of "0x1001" "0x1000" 4 example_text] by auto
qed

end
