(* ===== verification/Stdlib.thy ===== *)
theory Stdlib
  imports Cstring "HOL-Library.Multiset"
begin

text \<open>
  lib/ctype.h and lib/stdlib.c: character classes, number parsing, heap sort and binary search.
  An array is its bytes; an element is addressed by its 1-based index as in the code, and an
  access outside the array has no result.  A comparison function sees the bytes of the two
  elements; its argument \<open>aux\<close> is part of the function.  \<open>int\<close> arithmetic that overflows has no
  result.
\<close>

section \<open>Character classes\<close>

definition islower :: "int \<Rightarrow> bool" where "islower c \<longleftrightarrow> c \<ge> 97 \<and> c \<le> 122"
definition isupper :: "int \<Rightarrow> bool" where "isupper c \<longleftrightarrow> c \<ge> 65 \<and> c \<le> 90"
definition isalpha :: "int \<Rightarrow> bool" where "isalpha c \<longleftrightarrow> islower c \<or> isupper c"
definition isdigit :: "int \<Rightarrow> bool" where "isdigit c \<longleftrightarrow> c \<ge> 48 \<and> c \<le> 57"
definition isalnum :: "int \<Rightarrow> bool" where "isalnum c \<longleftrightarrow> isalpha c \<or> isdigit c"
definition isxdigit :: "int \<Rightarrow> bool" where
  "isxdigit c \<longleftrightarrow> isdigit c \<or> (c \<ge> 97 \<and> c \<le> 102) \<or> (c \<ge> 65 \<and> c \<le> 70)"
definition isspace :: "int \<Rightarrow> bool" where
  "isspace c \<longleftrightarrow> c = 32 \<or> c = 12 \<or> c = 10 \<or> c = 13 \<or> c = 9 \<or> c = 11"
definition isblank :: "int \<Rightarrow> bool" where "isblank c \<longleftrightarrow> c = 32 \<or> c = 9"
definition isgraph :: "int \<Rightarrow> bool" where "isgraph c \<longleftrightarrow> c > 32 \<and> c < 127"
definition isprint :: "int \<Rightarrow> bool" where "isprint c \<longleftrightarrow> c \<ge> 32 \<and> c < 127"
definition iscntrl :: "int \<Rightarrow> bool" where "iscntrl c \<longleftrightarrow> (c \<ge> 0 \<and> c < 32) \<or> c = 127"
definition isascii :: "int \<Rightarrow> bool" where "isascii c \<longleftrightarrow> c \<ge> 0 \<and> c < 128"
definition ispunct :: "int \<Rightarrow> bool" where "ispunct c \<longleftrightarrow> isprint c \<and> \<not> isalnum c \<and> \<not> isspace c"
definition tolower :: "int \<Rightarrow> int" where "tolower c = (if isupper c then c - 65 + 97 else c)"
definition toupper :: "int \<Rightarrow> int" where "toupper c = (if islower c then c - 97 + 65 else c)"

section \<open>Numbers\<close>

definition int32 :: "int \<Rightarrow> int option" where
  "int32 v = (if - (2 ^ 31) \<le> v \<and> v < 2 ^ 31 then Some v else None)"

partial_function (option) skip_space :: "kmem \<Rightarrow> u32 \<Rightarrow> u32 option" where
  "skip_space m s = (if isspace (uint (m s)) then skip_space m (s + 1) else Some s)"

partial_function (option) digits_loop :: "kmem \<Rightarrow> u32 \<Rightarrow> int \<Rightarrow> int option" where
  "digits_loop m s val =
     (if isdigit (sint (m s)) then do {
        t \<leftarrow> int32 (val * 10);
        v \<leftarrow> int32 (t - (sint (m s) - 48));
        digits_loop m (s + 1) v
      } else Some val)"

definition atoi :: "kmem \<Rightarrow> u32 \<Rightarrow> int option" where
  "atoi m s = do {
     ASSERT (s \<noteq> 0);
     s \<leftarrow> skip_space m s;
     let (negative, s) = (if m s = 43 then (False, s + 1) else if m s = 45 then (True, s + 1) else (False, s));
     val \<leftarrow> digits_loop m s 0;
     if \<not> negative then int32 (- val) else Some val
   }"

section \<open>Sorting\<close>

fun swap_bytes :: "u8 list \<Rightarrow> nat \<Rightarrow> nat \<Rightarrow> nat \<Rightarrow> u8 list option" where
  "swap_bytes array a b 0 = Some array"
| "swap_bytes array a b (Suc n) = do {
     t \<leftarrow> rd array a;
     u \<leftarrow> rd array b;
     array \<leftarrow> wr array a u;
     array \<leftarrow> wr array b t;
     swap_bytes array (a + 1) (b + 1) n
   }"

definition do_swap :: "u8 list \<Rightarrow> nat \<Rightarrow> nat \<Rightarrow> nat \<Rightarrow> u8 list option" where
  "do_swap array a_idx b_idx sz = do {
     ASSERT (a_idx \<ge> 1);
     ASSERT (b_idx \<ge> 1);
     swap_bytes array ((a_idx - 1) * sz) ((b_idx - 1) * sz) sz
   }"

definition element :: "u8 list \<Rightarrow> nat \<Rightarrow> nat \<Rightarrow> u8 list option" where
  "element array ofs sz = (if ofs + sz \<le> length array then Some (take sz (drop ofs array)) else None)"

type_synonym compare = "u8 list \<Rightarrow> u8 list \<Rightarrow> int"

definition do_compare :: "u8 list \<Rightarrow> nat \<Rightarrow> nat \<Rightarrow> nat \<Rightarrow> compare \<Rightarrow> int option" where
  "do_compare array a_idx b_idx sz cmp = do {
     ASSERT (a_idx \<ge> 1);
     ASSERT (b_idx \<ge> 1);
     a \<leftarrow> element array ((a_idx - 1) * sz) sz;
     b \<leftarrow> element array ((b_idx - 1) * sz) sz;
     Some (cmp a b)
   }"

partial_function (option) heapify :: "u8 list \<Rightarrow> nat \<Rightarrow> nat \<Rightarrow> nat \<Rightarrow> compare \<Rightarrow> u8 list option" where
  "heapify array i cnt sz cmp = do {
     let left = 2 * i;
     let right = 2 * i + 1;
     mx \<leftarrow> (if left \<le> cnt then do { c \<leftarrow> do_compare array left i sz cmp; Some (if c > 0 then left else i) } else Some i);
     mx \<leftarrow> (if right \<le> cnt then do { c \<leftarrow> do_compare array right mx sz cmp; Some (if c > 0 then right else mx) } else Some mx);
     if mx = i then Some array
     else do { array \<leftarrow> do_swap array i mx sz; heapify array mx cnt sz cmp }
   }"

fun build_loop :: "u8 list \<Rightarrow> nat \<Rightarrow> nat \<Rightarrow> nat \<Rightarrow> compare \<Rightarrow> u8 list option" where
  "build_loop array 0 cnt sz cmp = Some array"
| "build_loop array (Suc i) cnt sz cmp = do {
     array \<leftarrow> heapify array (Suc i) cnt sz cmp;
     build_loop array i cnt sz cmp
   }"

function extract_loop :: "u8 list \<Rightarrow> nat \<Rightarrow> nat \<Rightarrow> compare \<Rightarrow> u8 list option" where
  "extract_loop array i sz cmp =
     (if i > 1 then do {
        array \<leftarrow> do_swap array 1 i sz;
        array \<leftarrow> heapify array 1 (i - 1) sz cmp;
        extract_loop array (i - 1) sz cmp
      } else Some array)"
  by auto
termination by (relation "measure (\<lambda>(array, i, sz, cmp). i)") auto

definition sort_array :: "u8 list \<Rightarrow> nat \<Rightarrow> nat \<Rightarrow> compare \<Rightarrow> u8 list option" where
  "sort_array array cnt sz cmp = do {
     ASSERT (sz > 0);
     array \<leftarrow> build_loop array (cnt div 2) cnt sz cmp;
     extract_loop array cnt sz cmp
   }"

definition qsort :: "u8 list \<Rightarrow> nat \<Rightarrow> nat \<Rightarrow> compare \<Rightarrow> u8 list option" where
  "qsort array cnt sz cmp = sort_array array cnt sz cmp"

section \<open>Searching\<close>

text \<open>The result is the offset of the element found.\<close>

partial_function (option) search_loop :: "u8 list \<Rightarrow> u8 list \<Rightarrow> nat \<Rightarrow> compare \<Rightarrow> nat \<Rightarrow> nat \<Rightarrow> nat option option" where
  "search_loop key array sz cmp first last' =
     (if first < last' then do {
        let range = (last' - first) div sz;
        let middle = first + range div 2 * sz;
        x \<leftarrow> element array middle sz;
        if cmp key x < 0 then search_loop key array sz cmp first middle
        else if cmp key x > 0 then search_loop key array sz cmp (middle + sz) last'
        else Some (Some middle)
      } else Some None)"

definition binary_search :: "u8 list \<Rightarrow> u8 list \<Rightarrow> nat \<Rightarrow> nat \<Rightarrow> compare \<Rightarrow> nat option option" where
  "binary_search key array cnt sz cmp = search_loop key array sz cmp 0 (sz * cnt)"

definition bsearch :: "u8 list \<Rightarrow> u8 list \<Rightarrow> nat \<Rightarrow> nat \<Rightarrow> compare \<Rightarrow> nat option option" where
  "bsearch key array cnt sz cmp = binary_search key array cnt sz cmp"

declare extract_loop.simps [simp del]

section \<open>Arrays as lists of elements\<close>

definition elements :: "nat \<Rightarrow> nat \<Rightarrow> u8 list \<Rightarrow> u8 list list" where
  "elements sz cnt array = map (\<lambda>i. take sz (drop (i * sz) array)) [0..<cnt]"

lemma length_elements [simp]: "length (elements sz cnt array) = cnt"
  by (simp add: elements_def)

lemma nth_elements: "i < cnt \<Longrightarrow> elements sz cnt array ! i = take sz (drop (i * sz) array)"
  by (simp add: elements_def)

lemma element_end: "i < cnt \<Longrightarrow> i * sz + sz \<le> cnt * sz" for sz :: nat
  by (metis Suc_leI add.commute mult_Suc mult_le_mono1)

lemma element_eq: "length array = cnt * sz \<Longrightarrow> i < cnt \<Longrightarrow> element array (i * sz) sz = Some (elements sz cnt array ! i)"
  by (simp add: element_def nth_elements element_end)

lemma do_compare_eq:
  assumes "length array = cnt * sz" and "1 \<le> a" and "a \<le> cnt" and "1 \<le> b" and "b \<le> cnt"
  shows "do_compare array a b sz cmp = Some (cmp (elements sz cnt array ! (a - 1)) (elements sz cnt array ! (b - 1)))"
  using assms element_eq [OF assms(1), of "a - 1"] element_eq [OF assms(1), of "b - 1"] by (simp add: do_compare_def)

lemma swap_bytes_eq:
  assumes "a + n \<le> length array" and "b + n \<le> length array" and "a + n \<le> b \<or> b + n \<le> a"
  shows "\<exists>array'. swap_bytes array a b n = Some array' \<and> length array' = length array
    \<and> (\<forall>k < length array. array' ! k = (if a \<le> k \<and> k < a + n then array ! (k - a + b)
         else if b \<le> k \<and> k < b + n then array ! (k - b + a) else array ! k))"
  using assms
proof (induction n arbitrary: array a b)
  case (Suc n)
  let ?s = "array[a := array ! b, b := array ! a]"
  have "a + 1 + n \<le> length ?s" "b + 1 + n \<le> length ?s" "a + 1 + n \<le> b + 1 \<or> b + 1 + n \<le> a + 1" using Suc.prems by auto
  from Suc.IH [OF this] obtain array' where r: "swap_bytes ?s (a + 1) (b + 1) n = Some array'" "length array' = length array"
      "\<forall>k < length array. array' ! k = (if a + 1 \<le> k \<and> k < a + 1 + n then ?s ! (k - (a + 1) + (b + 1))
         else if b + 1 \<le> k \<and> k < b + 1 + n then ?s ! (k - (b + 1) + (a + 1)) else ?s ! k)"
    unfolding length_list_update by blast
  have nth: "?s ! k = (if k = b then array ! a else if k = a then array ! b else array ! k)" if "k < length array" for k
    using that Suc.prems by (auto simp: nth_list_update)
  have "array' ! k = (if a \<le> k \<and> k < a + Suc n then array ! (k - a + b)
         else if b \<le> k \<and> k < b + Suc n then array ! (k - b + a) else array ! k)" if "k < length array" for k
  proof -
    note k = r(3) [rule_format, OF that]
    consider "k = a" | "k = b" | "a + 1 \<le> k" "k < a + 1 + n" | "b + 1 \<le> k" "k < b + 1 + n"
      | "k < a \<or> a + n < k" "k < b \<or> b + n < k" by linarith
    then show ?thesis
    proof cases
      case 3
      then have "k - (a + 1) + (b + 1) = k - a + b" "k - a + b < length array" "k - a + b \<noteq> b" "k - a + b \<noteq> a"
        using Suc.prems by auto
      then show ?thesis using k nth [of "k - a + b"] 3 by simp
    next
      case 4
      then have "k - (b + 1) + (a + 1) = k - b + a" "k - b + a < length array" "k - b + a \<noteq> b" "k - b + a \<noteq> a"
        using Suc.prems by auto
      moreover have "\<not> (a + 1 \<le> k \<and> k < a + 1 + n)" "\<not> (a \<le> k \<and> k < a + Suc n)" using 4 Suc.prems(3) by linarith+
      ultimately show ?thesis using k nth [of "k - b + a"] 4 by (simp only: if_False if_True simp_thms) simp
    qed (use k nth [OF that] Suc.prems in auto)
  qed
  then show ?case using r(1,2) Suc.prems by simp
qed auto

lemma block_index: "j < sz \<Longrightarrow> p * sz \<le> i * sz + j \<and> i * sz + j < p * sz + sz \<longleftrightarrow> i = p" for sz :: nat
proof
  assume j: "j < sz" and b: "p * sz \<le> i * sz + j \<and> i * sz + j < p * sz + sz"
  then have "(i * sz + j) div sz = p" by (intro div_nat_eqI) (auto simp: mult.commute)
  then show "i = p" using j by simp
qed simp

lemma do_swap_eq:
  assumes "length array = cnt * sz" and "1 \<le> a" and "a \<le> cnt" and "1 \<le> b" and "b \<le> cnt" and "a \<noteq> b"
  shows "\<exists>array'. do_swap array a b sz = Some array' \<and> length array' = cnt * sz
    \<and> elements sz cnt array' = (elements sz cnt array)[a - 1 := elements sz cnt array ! (b - 1), b - 1 := elements sz cnt array ! (a - 1)]"
proof -
  define p q where "p = a - 1" and "q = b - 1"
  have pq: "p < cnt" "q < cnt" "p \<noteq> q" using assms by (auto simp: p_def q_def)
  have "p * sz + sz \<le> q * sz \<or> q * sz + sz \<le> p * sz"
    using pq(3) element_end [of p q sz] element_end [of q p sz] by (meson nat_neq_iff)
  then obtain array' where r: "swap_bytes array (p * sz) (q * sz) sz = Some array'" "length array' = cnt * sz"
      "\<forall>k < cnt * sz. array' ! k = (if p * sz \<le> k \<and> k < p * sz + sz then array ! (k - p * sz + q * sz)
         else if q * sz \<le> k \<and> k < q * sz + sz then array ! (k - q * sz + p * sz) else array ! k)"
    using swap_bytes_eq [of "p * sz" sz array "q * sz"] assms(1) element_end [OF pq(1), of sz] element_end [OF pq(2), of sz] by auto
  have "elements sz cnt array' = (elements sz cnt array)[p := elements sz cnt array ! q, q := elements sz cnt array ! p]"
  proof (rule nth_equalityI)
    fix i assume "i < length (elements sz cnt array')"
    then have i: "i < cnt" by simp
    have e: "take sz (drop (i * sz) array') = take sz (drop (l * sz) array)"
      if "\<forall>j < sz. array' ! (i * sz + j) = array ! (l * sz + j)" "l < cnt" for l
      using that assms(1) r(2) i element_end [OF i, of sz] element_end [OF that(2), of sz] by (intro nth_equalityI) auto
    have "array' ! (i * sz + j) = array ! ((if i = p then q else if i = q then p else i) * sz + j)" if "j < sz" for j
      using r(3) element_end [OF i, of sz] that block_index [OF that, of p i] block_index [OF that, of q i] by (auto simp: add.commute)
    then show "elements sz cnt array' ! i = (elements sz cnt array)[p := elements sz cnt array ! q, q := elements sz cnt array ! p] ! i"
      using e [of "if i = p then q else if i = q then p else i"] i pq by (auto simp: nth_elements nth_list_update)
  qed simp
  then show ?thesis using r(1,2) assms(2,4) by (simp add: do_swap_def p_def q_def)
qed

section \<open>Heaps\<close>

text \<open>
  \<open>heap_from cmp xs lo n\<close>: among the first \<open>n\<close> elements, none is greater than its parent if the
  index of the parent is at least \<open>lo\<close>.  \<open>heap_but\<close>: the same without the children of \<open>i\<close>, which are
  at most the parent of \<open>i\<close>.
\<close>

definition heap_from :: "compare \<Rightarrow> u8 list list \<Rightarrow> nat \<Rightarrow> nat \<Rightarrow> bool" where
  "heap_from cmp xs lo n \<longleftrightarrow> (\<forall>j. 2 \<le> j \<and> j \<le> n \<and> lo \<le> j div 2 \<longrightarrow> cmp (xs ! (j - 1)) (xs ! (j div 2 - 1)) \<le> 0)"

definition heap_but :: "compare \<Rightarrow> u8 list list \<Rightarrow> nat \<Rightarrow> nat \<Rightarrow> nat \<Rightarrow> bool" where
  "heap_but cmp xs lo n i \<longleftrightarrow>
     (\<forall>j. 2 \<le> j \<and> j \<le> n \<and> lo \<le> j div 2 \<and> j div 2 \<noteq> i \<longrightarrow> cmp (xs ! (j - 1)) (xs ! (j div 2 - 1)) \<le> 0)
     \<and> (\<forall>j. 2 \<le> j \<and> j \<le> n \<and> j div 2 = i \<and> 2 \<le> i \<and> lo \<le> i div 2 \<longrightarrow> cmp (xs ! (j - 1)) (xs ! (i div 2 - 1)) \<le> 0)"

text \<open>The state of the second loop of \<open>sort\<close>: a heap, and after it the elements that are in place.\<close>

definition sorting :: "compare \<Rightarrow> u8 list list \<Rightarrow> nat \<Rightarrow> bool" where
  "sorting cmp xs i \<longleftrightarrow> heap_from cmp xs 1 i \<and> sorted_wrt (\<lambda>x y. cmp x y \<le> 0) (drop i xs)
     \<and> (\<forall>x\<in>set (take i xs). \<forall>y\<in>set (drop i xs). cmp x y \<le> 0)"

text \<open>A comparison function of the kind of \<open>strcmp\<close>.\<close>

locale comparison =
  fixes cmp :: compare
  assumes flip: "0 < cmp x y \<longleftrightarrow> cmp y x < 0"
    and trans: "cmp x y \<le> 0 \<Longrightarrow> cmp y z \<le> 0 \<Longrightarrow> cmp x z \<le> 0"
begin

lemma refl_le: "cmp x x \<le> 0"
  using flip [of x x] by linarith

lemma greater_le: "0 < cmp x y \<Longrightarrow> cmp y x \<le> 0"
  using flip [of x y] by linarith

text \<open>The choice of the greatest among an element and its children.\<close>

lemma choose_max:
  assumes "length array = cnt * sz" and "n \<le> cnt" and "1 \<le> i" and "i \<le> n" and "xs = elements sz cnt array"
  obtains mx where "heapify array i n sz cmp = (if mx = i then Some array else do { array \<leftarrow> do_swap array i mx sz; heapify array mx n sz cmp })"
    and "mx = i \<or> mx = 2 * i \<or> mx = 2 * i + 1" and "mx \<le> n" and "cmp (xs ! (i - 1)) (xs ! (mx - 1)) \<le> 0"
    and "\<And>j. j div 2 = i \<Longrightarrow> j \<le> n \<Longrightarrow> cmp (xs ! (j - 1)) (xs ! (mx - 1)) \<le> 0"
proof -
  define m1 where "m1 = (if 2 * i \<le> n \<and> cmp (xs ! (2 * i - 1)) (xs ! (i - 1)) > 0 then 2 * i else i)"
  define m2 where "m2 = (if 2 * i + 1 \<le> n \<and> cmp (xs ! (2 * i + 1 - 1)) (xs ! (m1 - 1)) > 0 then 2 * i + 1 else m1)"
  have m1: "1 \<le> m1" "m1 \<le> n" "cmp (xs ! (i - 1)) (xs ! (m1 - 1)) \<le> 0" "2 * i \<le> n \<longrightarrow> cmp (xs ! (2 * i - 1)) (xs ! (m1 - 1)) \<le> 0"
    using assms(3,4) refl_le greater_le by (auto simp: m1_def not_less)
  have m2: "m2 \<le> n" "cmp (xs ! (m1 - 1)) (xs ! (m2 - 1)) \<le> 0" "2 * i + 1 \<le> n \<longrightarrow> cmp (xs ! (2 * i + 1 - 1)) (xs ! (m2 - 1)) \<le> 0"
    using m1 refl_le greater_le by (auto simp: m2_def not_less)
  have c: "do_compare array a b sz cmp = Some (cmp (xs ! (a - 1)) (xs ! (b - 1)))" if "1 \<le> a" "a \<le> n" "1 \<le> b" "b \<le> n" for a b
    using do_compare_eq [OF assms(1)] that assms(2,5) by simp
  have "(if 2 * i \<le> n then do { c \<leftarrow> do_compare array (2 * i) i sz cmp; Some (if c > 0 then 2 * i else i) } else Some i) = Some m1"
    using c [of "2 * i" i] assms(3,4) by (simp add: m1_def)
  moreover have "(if 2 * i + 1 \<le> n then do { c \<leftarrow> do_compare array (2 * i + 1) m1 sz cmp; Some (if c > 0 then 2 * i + 1 else m1) } else Some m1) = Some m2"
    using c [of "2 * i + 1" m1] m1 by (simp add: m2_def)
  ultimately have "heapify array i n sz cmp = (if m2 = i then Some array else do { array \<leftarrow> do_swap array i m2 sz; heapify array m2 n sz cmp })"
    by (subst heapify.simps) (simp only: Let_def Option.bind.simps)
  moreover have "m2 = i \<or> m2 = 2 * i \<or> m2 = 2 * i + 1" by (simp add: m2_def m1_def)
  moreover have "cmp (xs ! (j - 1)) (xs ! (m2 - 1)) \<le> 0" if "j div 2 = i" "j \<le> n" for j
  proof -
    have "j = 2 * i \<or> j = 2 * i + 1" using that(1) by auto
    then show ?thesis using m1(4) m2(2,3) that(2) trans by blast
  qed
  moreover have "cmp (xs ! (i - 1)) (xs ! (m2 - 1)) \<le> 0" using m1(3) m2(2) trans by blast
  ultimately show thesis using m2(1) that by blast
qed

lemma heap_swap:
  assumes "heap_but cmp xs lo n i" and "1 \<le> lo" and "lo \<le> i" and "n \<le> length xs" and "mx = 2 * i \<or> mx = 2 * i + 1" and "mx \<le> n"
    and "cmp (xs ! (i - 1)) (xs ! (mx - 1)) \<le> 0" and "\<And>j. j div 2 = i \<Longrightarrow> j \<le> n \<Longrightarrow> cmp (xs ! (j - 1)) (xs ! (mx - 1)) \<le> 0"
    and "ys = xs[i - 1 := xs ! (mx - 1), mx - 1 := xs ! (i - 1)]"
  shows "heap_but cmp ys lo n mx"
proof -
  have i: "1 \<le> i" "i < mx" "mx div 2 = i" using assms(2,3,5) by auto
  have ys: "ys ! (j - 1) = (if j = mx then xs ! (i - 1) else if j = i then xs ! (mx - 1) else xs ! (j - 1))" if "1 \<le> j" "j \<le> n" for j
    using that i assms(4,6) by (auto simp: assms(9) nth_list_update)
  have "cmp (ys ! (j - 1)) (ys ! (j div 2 - 1)) \<le> 0" if j: "2 \<le> j" "j \<le> n" "lo \<le> j div 2" "j div 2 \<noteq> mx" for j
  proof -
    have p: "1 \<le> j div 2" "j div 2 < j" using j(1) by auto
    consider "j = mx" | "j \<noteq> mx" "j div 2 = i" | "j = i" "j div 2 \<noteq> i" | "j \<noteq> mx" "j \<noteq> i" "j div 2 \<noteq> i" by blast
    then show ?thesis
    proof cases
      case 1
      then show ?thesis using ys [of mx] ys [of i] i assms(6,7) by simp
    next
      case 2
      then show ?thesis using ys [of j] ys [of i] p i j assms(8) by simp
    next
      case 3
      then have "cmp (xs ! (mx - 1)) (xs ! (i div 2 - 1)) \<le> 0" using assms(1,6) i j by (auto simp: heap_but_def)
      then show ?thesis using ys [of i] ys [of "i div 2"] 3 p i j by simp
    next
      case 4
      then have "cmp (xs ! (j - 1)) (xs ! (j div 2 - 1)) \<le> 0" using assms(1) j by (simp add: heap_but_def)
      then show ?thesis using ys [of j] ys [of "j div 2"] 4 p j by simp
    qed
  qed
  moreover have "cmp (ys ! (j - 1)) (ys ! (mx div 2 - 1)) \<le> 0" if j: "2 \<le> j" "j \<le> n" "j div 2 = mx" for j
  proof -
    have "mx < j" "lo \<le> j div 2" "j div 2 \<noteq> i" using j assms(3) i by auto
    then have "cmp (xs ! (j - 1)) (xs ! (mx - 1)) \<le> 0" using assms(1) j unfolding heap_but_def by metis
    then show ?thesis using ys [of j] ys [of i] \<open>mx < j\<close> i j assms(6) by simp
  qed
  ultimately show ?thesis by (auto simp: heap_but_def)
qed

lemma heapify_ok:
  assumes "length array = cnt * sz" and "n \<le> cnt" and "1 \<le> lo" and "lo \<le> i" and "i \<le> n" and "heap_but cmp (elements sz cnt array) lo n i"
  shows "\<exists>array'. heapify array i n sz cmp = Some array' \<and> length array' = cnt * sz \<and> heap_from cmp (elements sz cnt array') lo n
    \<and> mset (elements sz cnt array') = mset (elements sz cnt array) \<and> drop n (elements sz cnt array') = drop n (elements sz cnt array)"
  using assms
proof (induction "n - i" arbitrary: array i rule: less_induct)
  case less
  let ?xs = "elements sz cnt array"
  have i: "1 \<le> i" using less.prems(3,4) by simp
  obtain mx where mx: "heapify array i n sz cmp = (if mx = i then Some array else do { array \<leftarrow> do_swap array i mx sz; heapify array mx n sz cmp })"
      "mx = i \<or> mx = 2 * i \<or> mx = 2 * i + 1" "mx \<le> n" "cmp (?xs ! (i - 1)) (?xs ! (mx - 1)) \<le> 0"
      "\<And>j. j div 2 = i \<Longrightarrow> j \<le> n \<Longrightarrow> cmp (?xs ! (j - 1)) (?xs ! (mx - 1)) \<le> 0"
    using choose_max [OF less.prems(1,2) i less.prems(5) refl] by blast
  show ?case
  proof (cases "mx = i")
    case True
    have "heap_from cmp ?xs lo n"
      using less.prems(6) mx(5) True unfolding heap_from_def heap_but_def by blast
    then show ?thesis using mx(1) True less.prems(1) by simp
  next
    case False
    then have m: "mx = 2 * i \<or> mx = 2 * i + 1" "i < mx" "1 \<le> mx" "mx \<le> cnt" "i \<le> cnt" using mx(2,3) i less.prems(2,5) by auto
    obtain a' where a': "do_swap array i mx sz = Some a'" "length a' = cnt * sz"
        "elements sz cnt a' = ?xs[i - 1 := ?xs ! (mx - 1), mx - 1 := ?xs ! (i - 1)]"
      using do_swap_eq [OF less.prems(1) i m(5,3,4)] False by blast
    have "heap_but cmp (elements sz cnt a') lo n mx"
      using heap_swap [OF less.prems(6,3,4) _ m(1) mx(3-5) a'(3)] less.prems(2) by simp
    with less.hyps [of mx a'] m mx(3) less.prems a'(2) obtain a2 where
      a2: "heapify a' mx n sz cmp = Some a2" "length a2 = cnt * sz" "heap_from cmp (elements sz cnt a2) lo n"
        "mset (elements sz cnt a2) = mset (elements sz cnt a')" "drop n (elements sz cnt a2) = drop n (elements sz cnt a')"
      by fastforce
    have "mset (elements sz cnt a') = mset ?xs" unfolding a'(3) using m i by (intro mset_swap) simp_all
    moreover have "drop n (elements sz cnt a') = drop n ?xs" unfolding a'(3) using m mx(3) i by simp
    ultimately show ?thesis using a2 mx(1) a'(1) False by simp
  qed
qed

lemma build_loop_ok:
  assumes "length array = cnt * sz" and "i \<le> cnt" and "heap_from cmp (elements sz cnt array) (Suc i) cnt"
  shows "\<exists>array'. build_loop array i cnt sz cmp = Some array' \<and> length array' = cnt * sz \<and> heap_from cmp (elements sz cnt array') 1 cnt
    \<and> mset (elements sz cnt array') = mset (elements sz cnt array)"
  using assms
proof (induction i arbitrary: array)
  case (Suc i)
  have "heap_but cmp (elements sz cnt array) (Suc i) cnt (Suc i)"
    using Suc.prems(3) by (auto simp: heap_but_def heap_from_def)
  from heapify_ok [OF Suc.prems(1) order_refl _ order_refl Suc.prems(2) this]
  obtain a' where "heapify array (Suc i) cnt sz cmp = Some a'" "length a' = cnt * sz" "heap_from cmp (elements sz cnt a') (Suc i) cnt"
      "mset (elements sz cnt a') = mset (elements sz cnt array)" by auto
  then show ?case using Suc.IH [of a'] Suc.prems(2) by auto
qed simp

lemma heap_root:
  assumes "heap_from cmp xs 1 n" and "1 \<le> j" and "j \<le> n"
  shows "cmp (xs ! (j - 1)) (xs ! 0) \<le> 0"
  using assms(2,3)
proof (induction j rule: less_induct)
  case (less j)
  show ?case
  proof (cases "j = 1")
    case False
    then have j: "2 \<le> j" "1 \<le> j div 2" "j div 2 < j" "j div 2 \<le> n" using less.prems by auto
    then have "cmp (xs ! (j - 1)) (xs ! (j div 2 - 1)) \<le> 0" using assms(1) less.prems by (simp add: heap_from_def)
    then show ?thesis using less.IH [OF j(3,2,4)] trans by blast
  qed (simp add: refl_le)
qed

lemma sorting_step:
  assumes "sorting cmp xs i" and "2 \<le> i" and "i \<le> length xs" and ys: "ys = xs[0 := xs ! (i - 1), i - 1 := xs ! 0]"
    and "heap_from cmp zs 1 (i - 1)" and "mset zs = mset ys" and "drop (i - 1) zs = drop (i - 1) ys"
  shows "sorting cmp zs (i - 1)"
proof -
  have root: "cmp x (xs ! 0) \<le> 0" if x: "x \<in> set (take i xs)" for x
  proof -
    obtain k where "k < i" "x = xs ! k" using x assms(3) by (auto simp: in_set_conv_nth)
    then show ?thesis using heap_root [of xs i "k + 1"] assms(1) by (simp add: sorting_def)
  qed
  have d: "drop (i - 1) zs = xs ! 0 # drop i xs"
    using assms(2,3,7) Cons_nth_drop_Suc [of "i - 1" ys] by (simp add: ys)
  have "mset (take (i - 1) zs) = mset (take (i - 1) ys)"
    using assms(6,7) by (metis add_right_cancel append_take_drop_id mset_append)
  then have "set (take (i - 1) zs) = set (take (i - 1) ys)" by (rule mset_eq_setD)
  also have "\<dots> \<subseteq> set (take i xs)"
  proof
    fix x assume "x \<in> set (take (i - 1) ys)"
    then obtain k where k: "k < i - 1" "x = ys ! k" using assms(3) by (auto simp: in_set_conv_nth ys)
    then have "k < length xs" "0 < length xs" using assms(2,3) by linarith+
    then have "x = xs ! (if k = 0 then i - 1 else k)" using k by (simp add: ys nth_list_update)
    then show "x \<in> set (take i xs)" using k assms(2,3) by (auto simp: in_set_conv_nth intro!: exI [of _ "if k = 0 then i - 1 else k"])
  qed
  finally have t: "set (take (i - 1) zs) \<subseteq> set (take i xs)" .
  have "xs ! 0 \<in> set (take i xs)" using assms(2,3) by (auto simp: in_set_conv_nth intro!: exI [of _ 0])
  then show ?thesis
    using assms(1,5) t root unfolding sorting_def d by (auto dest!: subsetD [OF t])
qed

lemma extract_loop_ok:
  assumes "length array = cnt * sz" and "i \<le> cnt" and "sorting cmp (elements sz cnt array) i"
  shows "\<exists>array'. extract_loop array i sz cmp = Some array' \<and> length array' = cnt * sz
    \<and> sorted_wrt (\<lambda>x y. cmp x y \<le> 0) (elements sz cnt array') \<and> mset (elements sz cnt array') = mset (elements sz cnt array)"
  using assms
proof (induction i arbitrary: array rule: less_induct)
  case (less i)
  let ?xs = "elements sz cnt array"
  show ?case
  proof (cases "i > 1")
    case True
    obtain a' where a': "do_swap array 1 i sz = Some a'" "length a' = cnt * sz" "elements sz cnt a' = ?xs[0 := ?xs ! (i - 1), i - 1 := ?xs ! 0]"
      using do_swap_eq [OF less.prems(1), of 1 i] True less.prems(2) by auto
    have "heap_but cmp (elements sz cnt a') 1 (i - 1) 1"
      unfolding heap_but_def a'(3)
    proof (intro conjI allI impI)
      fix j :: nat assume j: "2 \<le> j \<and> j \<le> i - 1 \<and> 1 \<le> j div 2 \<and> j div 2 \<noteq> 1"
      then have "cmp (?xs ! (j - 1)) (?xs ! (j div 2 - 1)) \<le> 0" using less.prems(3) by (auto simp: sorting_def heap_from_def)
      moreover have "j - 1 \<noteq> 0" "j - 1 \<noteq> i - 1" "j div 2 - 1 \<noteq> 0" "j div 2 - 1 \<noteq> i - 1" using j by auto
      ultimately show "cmp (?xs[0 := ?xs ! (i - 1), i - 1 := ?xs ! 0] ! (j - 1)) (?xs[0 := ?xs ! (i - 1), i - 1 := ?xs ! 0] ! (j div 2 - 1)) \<le> 0"
        by simp
    qed simp
    moreover have le: "i - 1 \<le> cnt" "1 \<le> i - 1" "i - 1 < i" using True less.prems(2) by auto
    ultimately obtain a2 where
      a2: "heapify a' 1 (i - 1) sz cmp = Some a2" "length a2 = cnt * sz" "heap_from cmp (elements sz cnt a2) 1 (i - 1)"
        "mset (elements sz cnt a2) = mset (elements sz cnt a')" "drop (i - 1) (elements sz cnt a2) = drop (i - 1) (elements sz cnt a')"
      using heapify_ok [OF a'(2) _ order_refl order_refl] by blast
    have "sorting cmp (elements sz cnt a2) (i - 1)"
      using sorting_step [OF less.prems(3) _ _ a'(3) a2(3-5)] True less.prems(2) by simp
    then obtain a3 where a3: "extract_loop a2 (i - 1) sz cmp = Some a3" "length a3 = cnt * sz"
        "sorted_wrt (\<lambda>x y. cmp x y \<le> 0) (elements sz cnt a3)" "mset (elements sz cnt a3) = mset (elements sz cnt a2)"
      using less.IH [OF le(3) a2(2) le(1)] by blast
    have "mset (elements sz cnt a') = mset ?xs" unfolding a'(3) using True less.prems(2) by (intro mset_swap) simp_all
    then show ?thesis using a'(1) a2(1,4) a3 True by (subst extract_loop.simps) simp
  next
    case False
    then have "i = 0 \<or> i = 1" by linarith
    then have "sorted_wrt (\<lambda>x y. cmp x y \<le> 0) (take i ?xs)" by (cases ?xs) auto
    then have "sorted_wrt (\<lambda>x y. cmp x y \<le> 0) (take i ?xs @ drop i ?xs)" using less.prems(3) unfolding sorted_wrt_append sorting_def by blast
    then show ?thesis using False less.prems(1) by (subst extract_loop.simps) simp
  qed
qed

lemma sort_array_ok:
  assumes "length array = cnt * sz" and "0 < sz"
  shows "\<exists>array'. sort_array array cnt sz cmp = Some array' \<and> length array' = cnt * sz
    \<and> sorted_wrt (\<lambda>x y. cmp x y \<le> 0) (elements sz cnt array') \<and> mset (elements sz cnt array') = mset (elements sz cnt array)"
proof -
  have "heap_from cmp (elements sz cnt array) (Suc (cnt div 2)) cnt"
    unfolding heap_from_def by (metis Suc_n_not_le_n div_le_mono le_trans)
  from build_loop_ok [OF assms(1) _ this] obtain a' where a': "build_loop array (cnt div 2) cnt sz cmp = Some a'" "length a' = cnt * sz"
      "heap_from cmp (elements sz cnt a') 1 cnt" "mset (elements sz cnt a') = mset (elements sz cnt array)"
    by auto
  then have "sorting cmp (elements sz cnt a') cnt" by (simp add: sorting_def)
  from extract_loop_ok [OF a'(2) order_refl this] a' assms(2) show ?thesis by (auto simp: sort_array_def)
qed

text \<open>The search keeps the matches between its bounds.\<close>

lemma search_loop_ok:
  assumes "length array = cnt * sz" and "0 < sz" and "sorted_wrt (\<lambda>x y. cmp x y \<le> 0) xs" and "xs = elements sz cnt array"
    and "lo \<le> hi" and "hi \<le> cnt" and "\<forall>k < lo. cmp key (xs ! k) > 0" and "\<forall>k. hi \<le> k \<and> k < cnt \<longrightarrow> cmp key (xs ! k) < 0"
  shows "\<exists>r. search_loop key array sz cmp (lo * sz) (hi * sz) = Some r
    \<and> (case r of None \<Rightarrow> \<forall>k < cnt. cmp key (xs ! k) \<noteq> 0 | Some ofs \<Rightarrow> \<exists>k < cnt. ofs = k * sz \<and> cmp key (xs ! k) = 0)"
  using assms(5-8)
proof (induction "hi - lo" arbitrary: lo hi rule: less_induct)
  case less
  show ?case
  proof (cases "lo < hi")
    case True
    define mid where "mid = lo + (hi - lo) div 2"
    have mid: "lo \<le> mid" "mid < hi" "mid < cnt" using True less.prems(2) by (auto simp: mid_def)
    have e: "lo * sz + (hi * sz - lo * sz) div sz div 2 * sz = mid * sz"
    proof -
      have "(hi * sz - lo * sz) div sz = hi - lo" using assms(2) by (metis diff_mult_distrib div_mult_self_is_m)
      then show ?thesis by (simp add: mid_def add_mult_distrib)
    qed
    have step: "search_loop key array sz cmp (lo * sz) (hi * sz) =
        (if cmp key (xs ! mid) < 0 then search_loop key array sz cmp (lo * sz) (mid * sz)
         else if cmp key (xs ! mid) > 0 then search_loop key array sz cmp ((mid + 1) * sz) (hi * sz) else Some (Some (mid * sz)))"
      using True assms(2,4) element_eq [OF assms(1) mid(3)] by (subst search_loop.simps) (simp add: Let_def e add.commute)
    have sorted: "cmp (xs ! i) (xs ! j) \<le> 0" if "i \<le> j" "j < cnt" for i j
      using that assms(3,4) refl_le by (cases "i = j") (auto simp: sorted_wrt_iff_nth_less)
    consider "cmp key (xs ! mid) < 0" | "cmp key (xs ! mid) > 0" | "cmp key (xs ! mid) = 0" by linarith
    then show ?thesis
    proof cases
      case 1
      have "cmp key (xs ! k) < 0" if "mid \<le> k \<and> k < cnt" for k
        using sorted [of mid k] that 1 flip [of "xs ! mid" key] flip [of "xs ! k" key] trans [of "xs ! mid" "xs ! k" key] by force
      then show ?thesis using less.hyps [of mid lo] mid less.prems 1 step by auto
    next
      case 2
      have "cmp key (xs ! k) > 0" if "k < mid + 1" for k
        using sorted [of k mid] that mid 2 flip [of key "xs ! mid"] flip [of key "xs ! k"] trans [of key "xs ! k" "xs ! mid"] by force
      moreover have "hi - (mid + 1) < hi - lo" "mid + 1 \<le> hi" "\<not> cmp key (xs ! mid) < 0" using mid 2 by auto
      ultimately show ?thesis using less.hyps [of hi "mid + 1"] less.prems(2,4) 2 step by presburger
    next
      case 3
      then show ?thesis using step mid(3) by auto
    qed
  next
    case False
    have "cmp key (xs ! k) \<noteq> 0" if "k < cnt" for k
    proof (cases "k < lo")
      case True
      then have "cmp key (xs ! k) > 0" using less.prems(3) by blast
      then show ?thesis by simp
    next
      case nlo: False
      then have "hi \<le> k" using False by simp
      then have "cmp key (xs ! k) < 0" using less.prems(4) that by blast
      then show ?thesis by simp
    qed
    then show ?thesis using False assms(2) by (subst search_loop.simps) simp
  qed
qed

lemma binary_search_ok:
  assumes "length array = cnt * sz" and "0 < sz" and "sorted_wrt (\<lambda>x y. cmp x y \<le> 0) (elements sz cnt array)"
  shows "\<exists>r. binary_search key array cnt sz cmp = Some r
    \<and> (case r of None \<Rightarrow> \<forall>x \<in> set (elements sz cnt array). cmp key x \<noteq> 0
        | Some ofs \<Rightarrow> \<exists>k < cnt. ofs = k * sz \<and> cmp key (elements sz cnt array ! k) = 0)"
proof -
  have e: "(\<forall>k < cnt. cmp key (elements sz cnt array ! k) \<noteq> 0) \<longleftrightarrow> (\<forall>x \<in> set (elements sz cnt array). cmp key x \<noteq> 0)"
    by (metis in_set_conv_nth length_elements)
  show ?thesis
    using search_loop_ok [OF assms refl, of 0 cnt key] unfolding e by (simp add: binary_search_def mult.commute)
qed

end

text \<open>The comparison of \<open>memcmp\<close> and \<open>strcmp\<close> is of this kind.\<close>

interpretation mc: comparison lex_sign
proof
  show "0 < lex_sign x y \<longleftrightarrow> lex_sign y x < 0" for x y by (auto simp: lex_sign_def)
  show "lex_sign x z \<le> 0" if "lex_sign x y \<le> 0" "lex_sign y z \<le> 0" for x y z
    using that by (auto simp: lex_sign_def split: if_splits)
qed

section \<open>Numbers in strings\<close>

definition digit_value :: "nat \<Rightarrow> u8 list \<Rightarrow> nat" where
  "digit_value n ds = foldl (\<lambda>n d. 10 * n + (unat d - 48)) n ds"

lemma digit_value_simps [simp]: "digit_value n [] = n" "digit_value n (d # ds) = digit_value (10 * n + (unat d - 48)) ds"
  by (simp_all add: digit_value_def)

lemma digit_value_mono: "n \<le> digit_value n ds"
proof (induction ds arbitrary: n)
  case (Cons d ds)
  have "n \<le> 10 * n + (unat d - 48)" by simp
  then show ?case using Cons.IH [of "10 * n + (unat d - 48)"] by (simp add: digit_value_def)
qed simp

definition is_digit_char :: "u8 \<Rightarrow> bool" where
  "is_digit_char d \<longleftrightarrow> 48 \<le> d \<and> d \<le> 57"

lemma shift_mod: "n < 256 \<Longrightarrow> (int n + 128) mod 256 - 128 = (if n < 128 then int n else int n - 256)"
proof (cases "n < 128")
  case False
  assume "n < 256"
  then have "(int n + 128 - 256) mod 256 = int n + 128 - 256" using False by (intro mod_pos_pos_trivial) simp_all
  then show ?thesis using False unfolding minus_mod_self2 by simp
qed simp

lemma sint_u8: "sint (d :: u8) = (if unat d < 128 then int (unat d) else int (unat d) - 256)"
proof -
  have "sint d = (int (unat d) + 128) mod 256 - 128"
    using sint_uint [of d] by (simp add: signed_take_bit_eq_take_bit_shift take_bit_eq_mod)
  moreover have "unat d < 256" using unat_bound [of d] by simp
  ultimately show ?thesis by (simp only: shift_mod)
qed

lemma digit_char: "is_digit_char d \<longleftrightarrow> isdigit (sint d)" "is_digit_char d \<Longrightarrow> sint d - 48 = int (unat d - 48)"
proof -
  have d: "is_digit_char d \<longleftrightarrow> 48 \<le> unat d \<and> unat d \<le> 57" by (simp add: is_digit_char_def word_le_nat_alt)
  have b: "unat d < 256" using unat_bound [of d] by simp
  show "is_digit_char d \<longleftrightarrow> isdigit (sint d)" unfolding d isdigit_def sint_u8 using b by (simp only: split: if_split) linarith
  show "is_digit_char d \<Longrightarrow> sint d - 48 = int (unat d - 48)" unfolding d sint_u8 by (simp only: split: if_split) linarith
qed

lemma digits_loop_cstr:
  assumes "cstr m a (ds @ rest)" and "\<forall>d\<in>set ds. is_digit_char d" and "rest = [] \<or> \<not> is_digit_char (hd rest)" and "digit_value n ds \<le> 2 ^ 31"
  shows "digits_loop m a (- int n) = Some (- int (digit_value n ds))"
  using assms
proof (induction ds arbitrary: a n)
  case Nil
  then have "\<not> isdigit (sint (m a))" by (cases rest) (auto simp: digit_char isdigit_def)
  then show ?case by (subst digits_loop.simps) simp
next
  case (Cons d ds)
  let ?n = "10 * n + (unat d - 48)"
  have d: "isdigit (sint d)" "sint d - 48 = int (unat d - 48)" using Cons.prems(2) digit_char by auto
  have "int ?n \<le> 2 ^ 31" using Cons.prems(4) digit_value_mono [of ?n ds] by simp
  then have v: "int32 (- int n * 10) = Some (- int (10 * n))" "int32 (- int (10 * n) - (sint d - 48)) = Some (- int ?n)"
    by (simp_all add: int32_def d(2))
  have ih: "digits_loop m (a + 1) (- int ?n) = Some (- int (digit_value ?n ds))"
    by (rule Cons.IH) (use Cons.prems in auto)
  have ma: "m a = d" using Cons.prems(1) by simp
  show ?case using d(1) by (subst digits_loop.simps) (simp only: ma v ih if_True Option.bind.simps digit_value_simps)
qed

text \<open>Leading white space, a sign and digits, then anything that is not a digit.\<close>

lemma skip_space_cstr:
  assumes "cstr m a (ws @ rest)" and "\<forall>w\<in>set ws. isspace (uint w)" and "rest \<noteq> []" and "\<not> isspace (uint (hd rest))"
  shows "skip_space m a = Some (a + of_nat (length ws))"
  using assms
proof (induction ws arbitrary: a)
  case Nil
  then show ?case by (cases rest) (auto simp: skip_space.simps)
next
  case (Cons w ws)
  then show ?case by (subst skip_space.simps) (simp add: add.assoc)
qed

definition sign_chars :: "bool \<Rightarrow> u8 list" where
  "sign_chars negative = (if negative then [45] else [])"

lemma atoi_cstr:
  assumes "cstr m a (ws @ sign_chars negative @ ds @ rest)" and "\<forall>w\<in>set ws. isspace (uint w)" and "ds \<noteq> []" and "\<forall>d\<in>set ds. is_digit_char d"
    and "rest = [] \<or> \<not> is_digit_char (hd rest)" and "digit_value 0 ds < 2 ^ 31 \<or> negative \<and> digit_value 0 ds = 2 ^ 31"
  shows "atoi m a = Some (if negative then - int (digit_value 0 ds) else int (digit_value 0 ds))"
proof -
  obtain d ds' where ds: "ds = d # ds'" using assms(3) by (cases ds) auto
  have d: "is_digit_char d" using assms(4) ds by simp
  have nsp: "\<not> isspace (uint x)" if "is_digit_char x \<or> x = 45" for x
  proof -
    have "(45 :: u8) \<le> x" using that by (auto simp: is_digit_char_def intro: order_trans [of _ 48])
    then have "45 \<le> uint x" by (simp add: word_le_def)
    then show ?thesis by (simp add: isspace_def)
  qed
  have sk: "skip_space m a = Some (a + of_nat (length ws))"
    by (rule skip_space_cstr [OF assms(1,2)]) (use nsp d ds in \<open>auto simp: sign_chars_def\<close>)
  let ?s = "a + of_nat (length ws)" and ?v = "digit_value 0 ds"
  have c: "cstr m ?s (sign_chars negative @ ds @ rest)" using cstr_append [OF assms(1)] .
  have v: "digits_loop m (if negative then ?s + 1 else ?s) (- int 0) = Some (- int ?v)"
    by (rule digits_loop_cstr [OF _ assms(4,5)]) (use c assms(6) in \<open>auto simp: sign_chars_def\<close>)
  have "(if m ?s = 43 then (False, ?s + 1) else if m ?s = 45 then (True, ?s + 1) else (False, ?s)) = (negative, if negative then ?s + 1 else ?s)"
    using c d ds by (auto simp: sign_chars_def is_digit_char_def)
  moreover have "int32 (int ?v) = Some (int ?v)" if "\<not> negative" using assms(6) that by (simp add: int32_def)
  ultimately show ?thesis using v sk cstr_nonnull [OF assms(1)] by (simp add: atoi_def)
qed

section \<open>Properties\<close>



text \<open>
  C27: \<open>binary_search\<close> in an array sorted by the same comparison returns, stays inside the array,
  and finds an element that compares equal to the key exactly when there is one.
\<close>

theorem binary_search_correct:
  assumes "comparison cmp" and "length array = cnt * sz" and "0 < sz" and "sorted_wrt (\<lambda>x y. cmp x y \<le> 0) (elements sz cnt array)"
  shows "\<exists>r. binary_search key array cnt sz cmp = Some r
    \<and> (case r of None \<Rightarrow> \<forall>x \<in> set (elements sz cnt array). cmp key x \<noteq> 0
        | Some ofs \<Rightarrow> \<exists>k < cnt. ofs = k * sz \<and> cmp key (elements sz cnt array ! k) = 0)"
  using assms by (rule comparison.binary_search_ok)

theorem binary_search_correct_witness:
  "binary_search [9, 0] [7, 2, 9, 0, 9, 1] 3 2 lex_sign = Some (Some 2)"
proof -
  have e: "elements 2 3 [7, 2, 9, 0, 9, 1] = [[7, 2], [9, 0], [9, 1 :: u8]]" by (simp add: elements_def upt_rec)
  obtain r where r: "binary_search [9, 0] [7, 2, 9, 0, 9, 1] 3 2 lex_sign = Some r"
      "case r of None \<Rightarrow> \<forall>x \<in> set [[7, 2], [9, 0], [9, 1 :: u8]]. lex_sign [9, 0] x \<noteq> 0
        | Some ofs \<Rightarrow> \<exists>k < 3. ofs = k * 2 \<and> lex_sign [9, 0] ([[7, 2], [9, 0], [9, 1]] ! k) = 0"
    using binary_search_correct [OF mc.comparison_axioms, of "[7, 2, 9, 0, 9, 1]" 3 2 "[9, 0]"] unfolding e by auto
  then show ?thesis by (auto simp: numeral_3_eq_3 less_Suc_eq split: option.splits)
qed

end
