(* ===== verification/Thread.thy ===== *)
theory Thread
  imports Vaddr
begin

text \<open>
  threads/thread.c: threads and the round robin scheduler.  A thread is the address of its
  \<open>struct thread\<close>; \<open>elem\<close>, \<open>allelem\<close> and \<open>childelem\<close> make the lists of threads, whose pointer
  structure is the subject of theory Klist.  The state also has the semaphores, locks and condition
  variables of threads/synch.h, and for every thread what it still has to do of the kernel call
  that it is in (\<open>todo\<close>); theory Synch has the operations on them.

  Each definition is a piece of code that runs with interrupts off.  What a context switch does
  besides changing the running thread (stack and address space) is not part of the state.
\<close>

section \<open>The state\<close>

datatype thread_status = THREAD_RUNNING | THREAD_READY | THREAD_BLOCKED | THREAD_DYING

record thread =
  tid :: int
  status :: thread_status
  name :: "u8 list"
  stack :: u32
  priority :: int
  pagedir :: u32
  parent :: u32
  children :: "u32 list"
  magic :: u32

text \<open>The semaphores: named ones, those in locks, in waiters of a condition variable, and in a \<open>struct thread\<close>.\<close>

datatype sema_id = Sema nat | Lock_sema nat | Waiter u32 | Child_sema u32 | Load_sema u32 | Child_list_sema u32

record semaphore =
  sema_value :: u32
  waiters :: "u32 list"

text \<open>
  The steps of kernel calls between which a thread can be preempted.  \<open>Down_lock\<close>, \<open>Set_holder\<close> and
  \<open>Up_lock\<close> are the steps inside of \<open>lock_acquire\<close> and \<open>lock_release\<close>.
\<close>

datatype action = Down sema_id | Up sema_id | Try_down sema_id
  | Acquire nat | Down_lock nat | Set_holder nat | Release nat | Up_lock nat | Try_acquire nat
  | Assert_held nat | Cond_push nat | Cond_pop nat | Broadcast nat nat
  | Yield | Exit | Next_tid u32 | Set_parent u32 | Push_child u32 | Start u32

record kernel =
  running :: u32
  idle_thread :: u32
  thr :: "u32 \<Rightarrow> thread"
  all_list :: "u32 list"
  ready_list :: "u32 list"
  thread_ticks :: nat
  idle_ticks :: nat
  kernel_ticks :: nat
  user_ticks :: nat
  next_tid :: int
  sema :: "sema_id \<Rightarrow> semaphore"
  holder :: "nat \<Rightarrow> u32"
  cond :: "nat \<Rightarrow> u32 list"
  todo :: "u32 \<Rightarrow> action list"

definition THREAD_MAGIC :: u32 where "THREAD_MAGIC = 0xcd6abf4b"
definition TIME_SLICE :: nat where "TIME_SLICE = 4"
definition PRI_MIN :: int where "PRI_MIN = 0"
definition PRI_DEFAULT :: int where "PRI_DEFAULT = 31"
definition PRI_MAX :: int where "PRI_MAX = 63"

abbreviation status_of :: "kernel \<Rightarrow> u32 \<Rightarrow> thread_status" where
  "status_of st t \<equiv> status (thr st t)"

definition set_status :: "u32 \<Rightarrow> thread_status \<Rightarrow> kernel \<Rightarrow> kernel" where
  "set_status t s st = st\<lparr>thr := (thr st)(t := (thr st t)\<lparr>status := s\<rparr>)\<rparr>"

section \<open>Scheduling\<close>

definition is_thread :: "kernel \<Rightarrow> u32 \<Rightarrow> bool" where
  "is_thread st t \<longleftrightarrow> t \<noteq> 0 \<and> magic (thr st t) = THREAD_MAGIC"

definition thread_current :: "kernel \<Rightarrow> u32 option" where
  "thread_current st = do {
     let t = running st;
     ASSERT (is_thread st t);
     ASSERT (status_of st t = THREAD_RUNNING);
     Some t
   }"

definition next_thread_to_run :: "kernel \<Rightarrow> u32 \<times> kernel" where
  "next_thread_to_run st = (case ready_list st of [] \<Rightarrow> (idle_thread st, st) | t # ts \<Rightarrow> (t, st\<lparr>ready_list := ts\<rparr>))"

definition thread_schedule_tail :: "kernel \<Rightarrow> kernel" where
  "thread_schedule_tail st = (set_status (running st) THREAD_RUNNING st)\<lparr>thread_ticks := 0\<rparr>"

definition schedule :: "kernel \<Rightarrow> kernel option" where
  "schedule st = do {
     let cur = running st;
     let (nxt, st) = next_thread_to_run st;
     ASSERT (status_of st cur \<noteq> THREAD_RUNNING);
     ASSERT (is_thread st nxt);
     let st = (if cur \<noteq> nxt then st\<lparr>running := nxt\<rparr> else st);
     Some (thread_schedule_tail st)
   }"

definition thread_block :: "kernel \<Rightarrow> kernel option" where
  "thread_block st = do {
     cur \<leftarrow> thread_current st;
     schedule (set_status cur THREAD_BLOCKED st)
   }"

definition thread_unblock :: "u32 \<Rightarrow> kernel \<Rightarrow> kernel option" where
  "thread_unblock t st = do {
     ASSERT (is_thread st t);
     ASSERT (status_of st t = THREAD_BLOCKED);
     Some (set_status t THREAD_READY (st\<lparr>ready_list := ready_list st @ [t]\<rparr>))
   }"

definition thread_yield :: "kernel \<Rightarrow> kernel option" where
  "thread_yield st = do {
     cur \<leftarrow> thread_current st;
     let st = (if cur \<noteq> idle_thread st then st\<lparr>ready_list := ready_list st @ [cur]\<rparr> else st);
     schedule (set_status cur THREAD_READY st)
   }"

text \<open>\<open>process_exit\<close> has run before.\<close>

definition thread_exit :: "kernel \<Rightarrow> kernel option" where
  "thread_exit st = do {
     cur \<leftarrow> thread_current st;
     let st = st\<lparr>all_list := remove1 cur (all_list st)\<rparr>;
     schedule (set_status cur THREAD_DYING st)
   }"

text \<open>The result also says whether the interrupt handler has to yield on its return.\<close>

definition thread_tick :: "kernel \<Rightarrow> (bool \<times> kernel) option" where
  "thread_tick st = do {
     t \<leftarrow> thread_current st;
     let st = (if t = idle_thread st then st\<lparr>idle_ticks := idle_ticks st + 1\<rparr>
               else if pagedir (thr st t) \<noteq> 0 then st\<lparr>user_ticks := user_ticks st + 1\<rparr>
               else st\<lparr>kernel_ticks := kernel_ticks st + 1\<rparr>);
     let st = st\<lparr>thread_ticks := thread_ticks st + 1\<rparr>;
     Some (thread_ticks st \<ge> TIME_SLICE, st)
   }"

section \<open>Threads\<close>

definition init_thread :: "u32 \<Rightarrow> u8 list \<Rightarrow> int \<Rightarrow> kernel \<Rightarrow> kernel option" where
  "init_thread t nm pri st = do {
     ASSERT (t \<noteq> 0);
     ASSERT (PRI_MIN \<le> pri \<and> pri \<le> PRI_MAX);
     let th = \<lparr>tid = 0, status = THREAD_BLOCKED, name = take 15 nm, stack = t + 4096, priority = pri, pagedir = 0,
               parent = 0, children = [], magic = THREAD_MAGIC\<rparr>;
     Some (st\<lparr>thr := (thr st)(t := th), all_list := all_list st @ [t],
              sema := (sema st)(Child_sema t := \<lparr>sema_value = 0, waiters = []\<rparr>, Load_sema t := \<lparr>sema_value = 0, waiters = []\<rparr>,
                                Child_list_sema t := \<lparr>sema_value = 1, waiters = []\<rparr>)\<rparr>)
   }"

definition alloc_frame :: "u32 \<Rightarrow> nat \<Rightarrow> kernel \<Rightarrow> (u32 \<times> kernel) option" where
  "alloc_frame t sz st = do {
     ASSERT (is_thread st t);
     ASSERT (sz mod 4 = 0);
     let s = stack (thr st t) - of_nat sz;
     Some (s, st\<lparr>thr := (thr st)(t := (thr st t)\<lparr>stack := s\<rparr>)\<rparr>)
   }"

text \<open>The frames of \<open>kernel_thread\<close>, \<open>switch_entry\<close> and \<open>switch_threads\<close> on the stack of a new thread.\<close>

definition alloc_frames :: "u32 \<Rightarrow> kernel \<Rightarrow> kernel option" where
  "alloc_frames t st = do {
     (_, st) \<leftarrow> alloc_frame t 12 st;
     (_, st) \<leftarrow> alloc_frame t 4 st;
     (_, st) \<leftarrow> alloc_frame t 28 st;
     Some st
   }"

definition thread_tid :: "kernel \<Rightarrow> int option" where
  "thread_tid st = do { t \<leftarrow> thread_current st; Some (tid (thr st t)) }"

definition thread_name :: "kernel \<Rightarrow> u8 list option" where
  "thread_name st = do { t \<leftarrow> thread_current st; Some (name (thr st t)) }"

definition thread_set_priority :: "int \<Rightarrow> kernel \<Rightarrow> kernel option" where
  "thread_set_priority new_priority st = do {
     t \<leftarrow> thread_current st;
     Some (st\<lparr>thr := (thr st)(t := (thr st t)\<lparr>priority := new_priority\<rparr>)\<rparr>)
   }"

definition thread_get_priority :: "kernel \<Rightarrow> int option" where
  "thread_get_priority st = do { t \<leftarrow> thread_current st; Some (priority (thr st t)) }"

definition thread_get_nice :: "kernel \<Rightarrow> int" where "thread_get_nice st = 0"
definition thread_get_load_avg :: "kernel \<Rightarrow> int" where "thread_get_load_avg st = 0"
definition thread_get_recent_cpu :: "kernel \<Rightarrow> int" where "thread_get_recent_cpu st = 0"

text \<open>\<open>thread_foreach\<close> calls a function for the threads in the order of \<open>all_list\<close>.\<close>

definition thread_foreach :: "(u32 \<Rightarrow> kernel \<Rightarrow> kernel) \<Rightarrow> kernel \<Rightarrow> kernel" where
  "thread_foreach func st = fold func (all_list st) st"

definition thread_print_stats :: "kernel \<Rightarrow> nat \<times> nat \<times> nat" where
  "thread_print_stats st = (idle_ticks st, kernel_ticks st, user_ticks st)"

end
