(* ===== verification/Synch.thy ===== *)
theory Synch
  imports Thread
begin

text \<open>
  threads/synch.c: semaphores, locks and condition variables, and the kernel as a system of
  threads that call them.  Code that runs with interrupts off is one step.  A call consists of
  such steps (\<open>call_plan\<close>), between which the timer can preempt the thread; \<open>todo\<close> has the steps
  that are left.  A thread that has to sleep in \<open>sema_down\<close> keeps the step and evaluates the
  condition of the loop again when it runs the next time.
\<close>

section \<open>Semaphores\<close>

definition set_sema :: "sema_id \<Rightarrow> semaphore \<Rightarrow> kernel \<Rightarrow> kernel" where
  "set_sema s v st = st\<lparr>sema := (sema st)(s := v)\<rparr>"

definition sema_init :: "sema_id \<Rightarrow> u32 \<Rightarrow> kernel \<Rightarrow> kernel" where
  "sema_init s v st = set_sema s \<lparr>sema_value = v, waiters = []\<rparr> st"

text \<open>One evaluation of the loop of \<open>sema_down\<close>: whether the semaphore was taken, or else the thread sleeps.\<close>

definition sema_down :: "sema_id \<Rightarrow> kernel \<Rightarrow> (bool \<times> kernel) option" where
  "sema_down s st =
     (if sema_value (sema st s) = 0 then do {
        cur \<leftarrow> thread_current st;
        st \<leftarrow> thread_block (set_sema s ((sema st s)\<lparr>waiters := waiters (sema st s) @ [cur]\<rparr>) st);
        Some (False, st)
      } else Some (True, set_sema s ((sema st s)\<lparr>sema_value := sema_value (sema st s) - 1\<rparr>) st))"

definition sema_try_down :: "sema_id \<Rightarrow> kernel \<Rightarrow> bool \<times> kernel" where
  "sema_try_down s st =
     (if sema_value (sema st s) > 0 then (True, set_sema s ((sema st s)\<lparr>sema_value := sema_value (sema st s) - 1\<rparr>) st)
      else (False, st))"

definition sema_up :: "sema_id \<Rightarrow> kernel \<Rightarrow> kernel option" where
  "sema_up s st = do {
     st \<leftarrow> (case waiters (sema st s) of
             [] \<Rightarrow> Some st
           | t # ts \<Rightarrow> thread_unblock t (set_sema s ((sema st s)\<lparr>waiters := ts\<rparr>) st));
     Some (set_sema s ((sema st s)\<lparr>sema_value := sema_value (sema st s) + 1\<rparr>) st)
   }"

section \<open>Locks\<close>

definition lock_init :: "nat \<Rightarrow> kernel \<Rightarrow> kernel" where
  "lock_init l st = sema_init (Lock_sema l) 1 (st\<lparr>holder := (holder st)(l := 0)\<rparr>)"

definition lock_held_by_current_thread :: "nat \<Rightarrow> kernel \<Rightarrow> bool option" where
  "lock_held_by_current_thread l st = do { cur \<leftarrow> thread_current st; Some (holder st l = cur) }"

definition cond_init :: "nat \<Rightarrow> kernel \<Rightarrow> kernel" where
  "cond_init c st = st\<lparr>cond := (cond st)(c := [])\<rparr>"

section \<open>Calls\<close>

definition tid_lock :: nat where "tid_lock = 0"

text \<open>\<open>Thread_create t nm pri\<close>: \<open>t\<close> is the page that \<open>palloc_get_page\<close> returned for the thread, or 0 (the call returns TID_ERROR).\<close>

datatype call = Sema_down sema_id | Sema_up sema_id | Sema_try_down sema_id
  | Lock_acquire nat | Lock_release nat | Lock_try_acquire nat
  | Cond_wait nat nat | Cond_signal nat nat | Cond_broadcast nat nat
  | Thread_yield | Thread_exit | Thread_create u32 "u8 list" int | Thread_set_priority int

text \<open>
  The functions that consist of several steps.  \<open>Acquire\<close> goes on with the wait for the semaphore and
  the assignment to \<open>holder\<close>, \<open>Release\<close> with \<open>sema_up\<close>, and \<open>Broadcast\<close> with \<open>cond_signal\<close> and the next
  evaluation of its loop; see \<open>do_action\<close>.
\<close>

definition lock_acquire :: "nat \<Rightarrow> action list" where [simp]: "lock_acquire l = [Acquire l]"
definition lock_try_acquire :: "nat \<Rightarrow> action list" where [simp]: "lock_try_acquire l = [Try_acquire l]"
definition lock_release :: "nat \<Rightarrow> action list" where [simp]: "lock_release l = [Release l]"

definition cond_wait :: "u32 \<Rightarrow> nat \<Rightarrow> nat \<Rightarrow> action list" where
  [simp]: "cond_wait r c l = [Assert_held l, Cond_push c] @ lock_release l @ [Down (Waiter r)] @ lock_acquire l"

definition cond_signal :: "nat \<Rightarrow> nat \<Rightarrow> action list" where
  [simp]: "cond_signal c l = [Assert_held l, Cond_pop c]"

definition cond_broadcast :: "nat \<Rightarrow> nat \<Rightarrow> action list" where
  [simp]: "cond_broadcast c l = [Broadcast c l]"

definition allocate_tid :: "u32 \<Rightarrow> action list" where
  [simp]: "allocate_tid t = lock_acquire tid_lock @ [Next_tid t] @ lock_release tid_lock"

definition thread_create :: "u32 \<Rightarrow> u32 \<Rightarrow> action list" where
  [simp]: "thread_create r t =
     (if t = 0 then [] else allocate_tid t @ [Set_parent t, Down (Child_list_sema r), Push_child t, Up (Child_list_sema r), Start t])"

text \<open>The steps of a call by thread \<open>r\<close>.\<close>

fun call_plan :: "u32 \<Rightarrow> call \<Rightarrow> action list" where
  "call_plan r (Sema_down s) = [Down s]"
| "call_plan r (Sema_up s) = [Up s]"
| "call_plan r (Sema_try_down s) = [Try_down s]"
| "call_plan r (Lock_acquire l) = lock_acquire l"
| "call_plan r (Lock_release l) = lock_release l"
| "call_plan r (Lock_try_acquire l) = lock_try_acquire l"
| "call_plan r (Cond_wait c l) = cond_wait r c l"
| "call_plan r (Cond_signal c l) = cond_signal c l"
| "call_plan r (Cond_broadcast c l) = cond_broadcast c l"
| "call_plan r Thread_yield = [Yield]"
| "call_plan r Thread_exit = [Exit]"
| "call_plan r (Thread_create t nm pri) = thread_create r t"
| "call_plan r (Thread_set_priority p) = []"

definition set_todo :: "u32 \<Rightarrow> action list \<Rightarrow> kernel \<Rightarrow> kernel" where
  "set_todo t as st = st\<lparr>todo := (todo st)(t := as)\<rparr>"

text \<open>The start of a call; a new thread is initialised and the priority is set before anything else can run.\<close>

definition begin_call :: "call \<Rightarrow> kernel \<Rightarrow> kernel option" where
  "begin_call c st = do {
     st \<leftarrow> (case c of
             Thread_create t nm pri \<Rightarrow> if t = 0 then Some st else init_thread t nm pri st
           | Thread_set_priority p \<Rightarrow> thread_set_priority p st
           | _ \<Rightarrow> Some st);
     Some (set_todo (running st) (call_plan (running st) c) st)
   }"

definition update_thread :: "u32 \<Rightarrow> (thread \<Rightarrow> thread) \<Rightarrow> kernel \<Rightarrow> kernel" where
  "update_thread t f st = st\<lparr>thr := (thr st)(t := f (thr st t))\<rparr>"

text \<open>
  The running thread does step \<open>a\<close> and has the steps \<open>as\<close> after it.  A wait for a lock ends with
  the assignment to \<open>holder\<close>, a release with \<open>sema_up\<close>, as steps of their own.
\<close>

fun do_action :: "action \<Rightarrow> action list \<Rightarrow> kernel \<Rightarrow> kernel option" where
  "do_action (Down s) as st = do {
     let r = running st;
     (taken, st) \<leftarrow> sema_down s st;
     Some (if taken then set_todo r as st else st)
   }"
| "do_action (Up s) as st = do { st \<leftarrow> sema_up s st; Some (set_todo (running st) as st) }"
| "do_action (Try_down s) as st = Some (set_todo (running st) as (snd (sema_try_down s st)))"
| "do_action (Acquire l) as st = do {
     held \<leftarrow> lock_held_by_current_thread l st;
     ASSERT (\<not> held);
     Some (set_todo (running st) (Down_lock l # as) st)
   }"
| "do_action (Down_lock l) as st = do {
     let r = running st;
     (taken, st) \<leftarrow> sema_down (Lock_sema l) st;
     Some (if taken then set_todo r (Set_holder l # as) st else st)
   }"
| "do_action (Set_holder l) as st = do {
     cur \<leftarrow> thread_current st;
     Some (set_todo cur as (st\<lparr>holder := (holder st)(l := cur)\<rparr>))
   }"
| "do_action (Release l) as st = do {
     held \<leftarrow> lock_held_by_current_thread l st;
     ASSERT held;
     Some (set_todo (running st) (Up_lock l # as) (st\<lparr>holder := (holder st)(l := 0)\<rparr>))
   }"
| "do_action (Up_lock l) as st = do { st \<leftarrow> sema_up (Lock_sema l) st; Some (set_todo (running st) as st) }"
| "do_action (Try_acquire l) as st = do {
     held \<leftarrow> lock_held_by_current_thread l st;
     ASSERT (\<not> held);
     let (success, st) = sema_try_down (Lock_sema l) st;
     Some (set_todo (running st) (if success then Set_holder l # as else as) st)
   }"
| "do_action (Assert_held l) as st = do {
     held \<leftarrow> lock_held_by_current_thread l st;
     ASSERT held;
     Some (set_todo (running st) as st)
   }"
| "do_action (Cond_push c) as st =
     (let r = running st; st = sema_init (Waiter r) 0 st in
      Some (set_todo r as (st\<lparr>cond := (cond st)(c := cond st c @ [r])\<rparr>)))"
| "do_action (Cond_pop c) as st =
     (case cond st c of
        [] \<Rightarrow> Some (set_todo (running st) as st)
      | w # ws \<Rightarrow> Some (set_todo (running st) (Up (Waiter w) # as) (st\<lparr>cond := (cond st)(c := ws)\<rparr>)))"
| "do_action (Broadcast c l) as st =
     Some (set_todo (running st) (if cond st c = [] then as else cond_signal c l @ cond_broadcast c l @ as) st)"
| "do_action Yield as st = thread_yield (set_todo (running st) as st)"
| "do_action Exit as st = thread_exit (set_todo (running st) [] st)"
| "do_action (Next_tid t) as st =
     Some (set_todo (running st) as (update_thread t (tid_update (\<lambda>_. next_tid st)) (st\<lparr>next_tid := next_tid st + 1\<rparr>)))"
| "do_action (Set_parent t) as st = do {
     cur \<leftarrow> thread_current st;
     Some (set_todo cur as (update_thread t (parent_update (\<lambda>_. cur)) st))
   }"
| "do_action (Push_child t) as st =
     Some (set_todo (running st) as (update_thread (parent (thr st t)) (\<lambda>p. p\<lparr>children := children p @ [t]\<rparr>) st))"
| "do_action (Start t) as st = do {
     st \<leftarrow> alloc_frames t st;
     st \<leftarrow> thread_unblock t st;
     Some (set_todo (running st) as st)
   }"

section \<open>The start of the kernel\<close>

text \<open>The steps of the call of the running thread until the call is over or the thread sleeps.\<close>

fun finish_call :: "nat \<Rightarrow> kernel \<Rightarrow> kernel option" where
  "finish_call 0 st = Some st"
| "finish_call (Suc n) st = (case todo st (running st) of [] \<Rightarrow> Some st | a # as \<Rightarrow> do_action a as st \<bind> finish_call n)"

text \<open>\<open>t\<close> is the page of the stack that the loader left.\<close>

definition thread_init :: "u32 \<Rightarrow> kernel \<Rightarrow> kernel option" where
  "thread_init t st = do {
     let st = lock_init tid_lock st;
     let st = st\<lparr>ready_list := [], all_list := [], running := t\<rparr>;
     st \<leftarrow> init_thread t [0x6d, 0x61, 0x69, 0x6e] PRI_DEFAULT st;
     let st = set_status t THREAD_RUNNING st;
     finish_call 6 (set_todo t (allocate_tid t) st)
   }"

definition idle_started :: sema_id where "idle_started = Sema 0"

text \<open>The idle thread up to its first call of \<open>thread_block\<close>.\<close>

definition idle_begin :: "kernel \<Rightarrow> kernel option" where
  "idle_begin st = do {
     cur \<leftarrow> thread_current st;
     st \<leftarrow> sema_up idle_started (st\<lparr>idle_thread := cur\<rparr>);
     thread_block st
   }"

text \<open>
  \<open>t\<close> is the page for the idle thread.  The main thread sleeps in \<open>sema_down\<close>, so that the idle
  thread runs; when that blocks, the main thread takes the semaphore.
\<close>

definition thread_start :: "u32 \<Rightarrow> kernel \<Rightarrow> kernel option" where
  "thread_start t st = do {
     let st = sema_init idle_started 0 st;
     st \<leftarrow> begin_call (Thread_create t [0x69, 0x64, 0x6c, 0x65] PRI_MIN) st;
     st \<leftarrow> finish_call 11 st;
     st \<leftarrow> begin_call (Sema_down idle_started) st;
     st \<leftarrow> finish_call 1 st;
     st \<leftarrow> idle_begin st;
     finish_call 1 st
   }"

text \<open>The state before, with every static variable at its initial value and every other lock as \<open>lock_init\<close> leaves it.\<close>

definition before_boot :: kernel where
  "before_boot = \<lparr>running = 0, idle_thread = 0,
     thr = (\<lambda>_. \<lparr>tid = 0, status = THREAD_RUNNING, name = [], stack = 0, priority = 0, pagedir = 0, parent = 0, children = [], magic = 0\<rparr>),
     all_list = [], ready_list = [], thread_ticks = 0, idle_ticks = 0, kernel_ticks = 0, user_ticks = 0, next_tid = 1,
     sema = (\<lambda>s. \<lparr>sema_value = (case s of Lock_sema l \<Rightarrow> 1 | _ \<Rightarrow> 0), waiters = []\<rparr>), holder = (\<lambda>_. 0), cond = (\<lambda>_. []), todo = (\<lambda>_. [])\<rparr>"

definition boot :: "u32 \<Rightarrow> u32 \<Rightarrow> kernel option" where
  "boot main_page idle_page = thread_init main_page before_boot \<bind> thread_start idle_page"

section \<open>The kernel as a system of threads\<close>

text \<open>
  \<open>Call\<close>: the running thread makes a call; \<open>Act\<close>: it does the next step of its call; \<open>Tick\<close>: the
  timer interrupts it; \<open>Intr\<close>: an interrupt handler raises a semaphore; \<open>Idle\<close>: the idle thread blocks.
\<close>

datatype event = Call call | Act | Tick | Intr sema_id | Idle

definition do_event :: "event \<Rightarrow> kernel \<Rightarrow> kernel option" where
  "do_event ev st =
     (case ev of
        Call c \<Rightarrow> begin_call c st
      | Act \<Rightarrow> (case todo st (running st) of [] \<Rightarrow> Some st | a # as \<Rightarrow> do_action a as st)
      | Tick \<Rightarrow> do { (y, st) \<leftarrow> thread_tick st; if y then thread_yield st else Some st }
      | Intr s \<Rightarrow> sema_up s st
      | Idle \<Rightarrow> thread_block st)"

text \<open>
  What callers promise: the semaphores inside of locks and of waiters are left to this module, a
  lock is acquired by a thread that does not hold it and released, or used with a condition, by
  its holder, and the page of a new thread is not in use.
\<close>

fun raw_sema :: "sema_id \<Rightarrow> bool" where
  "raw_sema (Lock_sema l) \<longleftrightarrow> False"
| "raw_sema (Waiter t) \<longleftrightarrow> False"
| "raw_sema _ \<longleftrightarrow> True"

definition unused_page :: "kernel \<Rightarrow> u32 \<Rightarrow> bool" where
  "unused_page st t \<longleftrightarrow> t \<noteq> 0 \<and> t \<notin> set (all_list st)
     \<and> waiters (sema st (Child_sema t)) = [] \<and> waiters (sema st (Load_sema t)) = [] \<and> waiters (sema st (Child_list_sema t)) = []"

fun allowed :: "kernel \<Rightarrow> call \<Rightarrow> bool" where
  "allowed st (Sema_down s) \<longleftrightarrow> raw_sema s"
| "allowed st (Sema_up s) \<longleftrightarrow> raw_sema s"
| "allowed st (Sema_try_down s) \<longleftrightarrow> raw_sema s"
| "allowed st (Lock_acquire l) \<longleftrightarrow> holder st l \<noteq> running st"
| "allowed st (Lock_release l) \<longleftrightarrow> holder st l = running st"
| "allowed st (Lock_try_acquire l) \<longleftrightarrow> holder st l \<noteq> running st"
| "allowed st (Cond_wait c l) \<longleftrightarrow> holder st l = running st"
| "allowed st (Cond_signal c l) \<longleftrightarrow> holder st l = running st"
| "allowed st (Cond_broadcast c l) \<longleftrightarrow> holder st l = running st"
| "allowed st Thread_yield \<longleftrightarrow> True"
| "allowed st Thread_exit \<longleftrightarrow> True"
| "allowed st (Thread_create t nm pri) \<longleftrightarrow>
     t = 0 \<or> unused_page st t \<and> PRI_MIN \<le> pri \<and> pri \<le> PRI_MAX \<and> holder st tid_lock \<noteq> running st"
| "allowed st (Thread_set_priority p) \<longleftrightarrow> True"

definition enabled :: "event \<Rightarrow> kernel \<Rightarrow> bool" where
  "enabled ev st =
     (case ev of
        Call c \<Rightarrow> running st \<noteq> idle_thread st \<and> todo st (running st) = [] \<and> allowed st c
      | Act \<Rightarrow> todo st (running st) \<noteq> []
      | Tick \<Rightarrow> True
      | Intr s \<Rightarrow> raw_sema s
      | Idle \<Rightarrow> running st = idle_thread st)"

inductive kernel_run :: "kernel \<Rightarrow> event list \<Rightarrow> kernel \<Rightarrow> bool" where
  run_Nil: "kernel_run st [] st"
| run_Cons: "enabled ev st \<Longrightarrow> do_event ev st = Some st1 \<Longrightarrow> kernel_run st1 evs st2 \<Longrightarrow> kernel_run st (ev # evs) st2"

inductive_cases run_NilE: "kernel_run st [] st'"
inductive_cases run_ConsE: "kernel_run st (ev # evs) st'"

end
