(* ===== verification/Synch_Inv.thy ===== *)
theory Synch_Inv
  imports Synch
begin

text \<open>
  Invariants of the kernel of theory Synch: the discipline of the run queue and the wait lists,
  mutual exclusion by locks, and that no wakeup is lost.  Every step keeps them and no step that
  a caller is allowed to make fails an assertion.
\<close>

section \<open>The discipline of the lists\<close>

fun wait_on :: "action \<Rightarrow> sema_id option" where
  "wait_on (Down s) = Some s"
| "wait_on (Down_lock l) = Some (Lock_sema l)"
| "wait_on _ = None"

definition waits :: "kernel \<Rightarrow> u32 \<Rightarrow> sema_id option" where
  "waits st t = (case todo st t of [] \<Rightarrow> None | a # as \<Rightarrow> wait_on a)"

text \<open>
  \<open>queues_ok\<close> relates the lists to the states of the threads: \<open>elem\<close> of a thread is in the run
  queue exactly when the thread is ready, and in the wait list of a semaphore exactly when the
  thread sleeps in a call of \<open>sema_down\<close> on it.  A blocked thread that is not in a call has not
  been started, or is the idle thread.  A thread that has been created is started once.
\<close>

definition queues_ok :: "kernel \<Rightarrow> bool" where
  "queues_ok st \<longleftrightarrow>
     distinct (all_list st) \<and> idle_thread st \<in> set (all_list st)
     \<and> (\<forall>t \<in> set (all_list st). is_thread st t \<and> status_of st t \<noteq> THREAD_DYING)
     \<and> distinct (ready_list st)
     \<and> (\<forall>t. t \<in> set (ready_list st) \<longleftrightarrow> t \<in> set (all_list st) \<and> t \<noteq> idle_thread st \<and> status_of st t = THREAD_READY)
     \<and> (\<forall>s. distinct (waiters (sema st s)))
     \<and> (\<forall>s t. t \<in> set (waiters (sema st s)) \<longleftrightarrow> t \<in> set (all_list st) \<and> status_of st t = THREAD_BLOCKED \<and> waits st t = Some s)
     \<and> (\<forall>t \<in> set (all_list st). status_of st t = THREAD_BLOCKED \<longrightarrow> todo st t = [] \<or> waits st t \<noteq> None)
     \<and> todo st (idle_thread st) = [] \<and> (\<forall>t. t \<notin> set (all_list st) \<longrightarrow> todo st t = [])
     \<and> thread_ticks st < TIME_SLICE"

definition starts_ok :: "kernel \<Rightarrow> bool" where
  "starts_ok st \<longleftrightarrow>
     (\<forall>t c. Start c \<in> set (todo st t) \<longrightarrow> c \<in> set (all_list st) \<and> c \<noteq> idle_thread st \<and> status_of st c = THREAD_BLOCKED \<and> todo st c = [])
     \<and> (\<forall>t t' c. Start c \<in> set (todo st t) \<longrightarrow> Start c \<in> set (todo st t') \<longrightarrow> t = t')"

definition sched_ok :: "kernel \<Rightarrow> bool" where
  "sched_ok st \<longleftrightarrow> queues_ok st \<and> starts_ok st \<and> running st \<in> set (all_list st)
     \<and> (\<forall>t \<in> set (all_list st). status_of st t = THREAD_RUNNING \<longleftrightarrow> t = running st)"

lemma set_status_simps [simp]:
  "thr (set_status t s st) = (thr st)(t := (thr st t)\<lparr>status := s\<rparr>)" "running (set_status t s st) = running st"
  "idle_thread (set_status t s st) = idle_thread st" "all_list (set_status t s st) = all_list st"
  "ready_list (set_status t s st) = ready_list st" "thread_ticks (set_status t s st) = thread_ticks st"
  "sema (set_status t s st) = sema st" "holder (set_status t s st) = holder st" "cond (set_status t s st) = cond st"
  "todo (set_status t s st) = todo st"
  by (simp_all add: set_status_def)

lemma set_sema_simps [simp]:
  "thr (set_sema s v st) = thr st" "running (set_sema s v st) = running st"
  "idle_thread (set_sema s v st) = idle_thread st" "all_list (set_sema s v st) = all_list st"
  "ready_list (set_sema s v st) = ready_list st" "thread_ticks (set_sema s v st) = thread_ticks st"
  "sema (set_sema s v st) = (sema st)(s := v)" "holder (set_sema s v st) = holder st" "cond (set_sema s v st) = cond st"
  "todo (set_sema s v st) = todo st"
  by (simp_all add: set_sema_def)

lemma set_todo_simps [simp]:
  "thr (set_todo t as st) = thr st" "running (set_todo t as st) = running st"
  "idle_thread (set_todo t as st) = idle_thread st" "all_list (set_todo t as st) = all_list st"
  "ready_list (set_todo t as st) = ready_list st" "thread_ticks (set_todo t as st) = thread_ticks st"
  "sema (set_todo t as st) = sema st" "holder (set_todo t as st) = holder st" "cond (set_todo t as st) = cond st"
  "todo (set_todo t as st) = (todo st)(t := as)"
  by (simp_all add: set_todo_def)

lemma waits_cong: "todo st' t = todo st t \<Longrightarrow> waits st' t = waits st t"
  by (simp add: waits_def)

lemma queues_ok_cong:
  assumes "all_list st' = all_list st" and "idle_thread st' = idle_thread st" and "ready_list st' = ready_list st"
    and "thread_ticks st' = thread_ticks st" and "todo st' = todo st" and "\<forall>s. waiters (sema st' s) = waiters (sema st s)"
    and "\<forall>t. status_of st' t = status_of st t" and "\<forall>t. magic (thr st' t) = magic (thr st t)"
  shows "queues_ok st' = queues_ok st" and "starts_ok st' = starts_ok st"
  using assms by (simp_all add: queues_ok_def starts_ok_def is_thread_def waits_def)

lemma queues_okD:
  assumes "queues_ok st"
  shows "distinct (all_list st)" and "idle_thread st \<in> set (all_list st)" and "t \<in> set (all_list st) \<Longrightarrow> is_thread st t"
    and "t \<in> set (all_list st) \<Longrightarrow> status_of st t \<noteq> THREAD_DYING" and "distinct (ready_list st)"
    and "t \<in> set (ready_list st) \<longleftrightarrow> t \<in> set (all_list st) \<and> t \<noteq> idle_thread st \<and> status_of st t = THREAD_READY"
    and "distinct (waiters (sema st s))"
    and "t \<in> set (waiters (sema st s)) \<longleftrightarrow> t \<in> set (all_list st) \<and> status_of st t = THREAD_BLOCKED \<and> waits st t = Some s"
    and "t \<in> set (all_list st) \<Longrightarrow> status_of st t = THREAD_BLOCKED \<Longrightarrow> todo st t = [] \<or> waits st t \<noteq> None"
    and "todo st (idle_thread st) = []" and "t \<notin> set (all_list st) \<Longrightarrow> todo st t = []" and "thread_ticks st < TIME_SLICE"
  using assms unfolding queues_ok_def by blast+

lemma queues_okI:
  assumes "distinct (all_list st)" and "idle_thread st \<in> set (all_list st)" and "\<And>t. t \<in> set (all_list st) \<Longrightarrow> is_thread st t"
    and "\<And>t. t \<in> set (all_list st) \<Longrightarrow> status_of st t \<noteq> THREAD_DYING" and "distinct (ready_list st)"
    and "\<And>t. t \<in> set (ready_list st) \<longleftrightarrow> t \<in> set (all_list st) \<and> t \<noteq> idle_thread st \<and> status_of st t = THREAD_READY"
    and "\<And>s. distinct (waiters (sema st s))"
    and "\<And>t s. t \<in> set (waiters (sema st s)) \<longleftrightarrow> t \<in> set (all_list st) \<and> status_of st t = THREAD_BLOCKED \<and> waits st t = Some s"
    and "\<And>t. t \<in> set (all_list st) \<Longrightarrow> status_of st t = THREAD_BLOCKED \<Longrightarrow> todo st t = [] \<or> waits st t \<noteq> None"
    and "todo st (idle_thread st) = []" and "\<And>t. t \<notin> set (all_list st) \<Longrightarrow> todo st t = []" and "thread_ticks st < TIME_SLICE"
  shows "queues_ok st"
  unfolding queues_ok_def by (intro conjI ballI allI impI; rule assms; assumption)

lemma waits_idle: "queues_ok st \<Longrightarrow> waits st (idle_thread st) = None"
  by (simp add: waits_def queues_okD(10))

lemma unat_minus_one_u32: "v \<noteq> 0 \<Longrightarrow> unat (v - 1 :: u32) = unat v - 1"
  by (simp add: unat_sub word_le_nat_alt Suc_leI unat_gt_0)

lemma unat_plus_one_le: "unat (v + 1 :: u32) \<le> unat v + 1"
  by (simp add: unat_word_ariths mod_less_eq_dividend)

section \<open>Scheduling\<close>

text \<open>The scheduler keeps everything but the run queue and the states of the thread it picks.\<close>

lemma schedule_ok:
  assumes q: "queues_ok st" and s: "starts_ok st" and nr: "\<forall>t \<in> set (all_list st). status_of st t \<noteq> THREAD_RUNNING"
    and cur: "status_of st (running st) \<noteq> THREAD_RUNNING"
  obtains nxt st' where "schedule st = Some st'" and "sched_ok st'" and "running st' = nxt"
    and "ready_list st = [] \<and> nxt = idle_thread st \<and> ready_list st' = [] \<or> ready_list st = nxt # ready_list st'"
    and "thr st' = (thr st)(nxt := (thr st nxt)\<lparr>status := THREAD_RUNNING\<rparr>)" and "thread_ticks st' = 0"
    and "all_list st' = all_list st" and "idle_thread st' = idle_thread st" and "sema st' = sema st" and "holder st' = holder st"
    and "todo st' = todo st"
proof -
  define nxt where "nxt = (case ready_list st of [] \<Rightarrow> idle_thread st | t # ts \<Rightarrow> t)"
  define rest where "rest = tl (ready_list st)"
  define st' where "st' = thread_schedule_tail (st\<lparr>ready_list := rest, running := nxt\<rparr>)"
  have r: "ready_list st = [] \<and> nxt = idle_thread st \<and> rest = [] \<or> ready_list st = nxt # rest"
    by (cases "ready_list st") (auto simp: nxt_def rest_def)
  have n: "nxt \<in> set (all_list st)" "status_of st nxt \<noteq> THREAD_BLOCKED \<or> nxt = idle_thread st"
    using r queues_okD(2) [OF q] queues_okD(6) [OF q, of nxt] by auto
  have "schedule st = Some st'"
    using r cur queues_okD(3) [OF q n(1)]
    by (auto simp: schedule_def next_thread_to_run_def st'_def is_thread_def thread_schedule_tail_def set_status_def split: list.splits)
  moreover have st': "thr st' = (thr st)(nxt := (thr st nxt)\<lparr>status := THREAD_RUNNING\<rparr>)" "thread_ticks st' = 0" "running st' = nxt"
      "all_list st' = all_list st" "idle_thread st' = idle_thread st" "sema st' = sema st" "holder st' = holder st" "todo st' = todo st" "ready_list st' = rest"
    by (simp_all add: st'_def thread_schedule_tail_def)
  moreover have "sched_ok st'"
  proof -
    have sta: "status_of st' t = (if t = nxt then THREAD_RUNNING else status_of st t)" "is_thread st' t = is_thread st t" "waits st' t = waits st t" for t
      by (simp_all add: st' is_thread_def waits_def)
    have "distinct rest" using r queues_okD(5) [OF q] by auto
    moreover have "t \<in> set rest \<longleftrightarrow> t \<in> set (all_list st) \<and> t \<noteq> idle_thread st \<and> status_of st' t = THREAD_READY" for t
      using r queues_okD(5) [OF q] queues_okD(6) [OF q, of t] by (auto simp: sta)
    moreover have "t \<in> set (waiters (sema st s)) \<longleftrightarrow> t \<in> set (all_list st) \<and> status_of st' t = THREAD_BLOCKED \<and> waits st t = Some s" for t s
      using n(2) waits_idle [OF q] queues_okD(8) [OF q, of t s] by (auto simp: sta)
    moreover have "todo st t = [] \<or> waits st t \<noteq> None" if "t \<in> set (all_list st)" "status_of st' t = THREAD_BLOCKED" for t
      using that queues_okD(9) [OF q, of t] by (simp add: sta split: if_splits)
    moreover have "status_of st' t \<noteq> THREAD_DYING" if "t \<in> set (all_list st)" for t using that queues_okD(4) [OF q] by (simp add: sta)
    ultimately have "queues_ok st'"
      using queues_okD(1-3,7,10,11) [OF q] unfolding queues_ok_def st'(2,4-6,8,9) sta(2,3) by (simp add: TIME_SLICE_def)
    moreover have "starts_ok st'"
      using s n(2) unfolding starts_ok_def st'(4,5,8) by (metis sta(1))
    moreover have "status_of st' t = THREAD_RUNNING \<longleftrightarrow> t = nxt" if "t \<in> set (all_list st)" for t using that nr by (simp add: sta)
    ultimately show ?thesis using n(1) by (simp add: sched_ok_def st'(3,4))
  qed
  ultimately show thesis using r that by blast
qed

lemma sched_okD:
  assumes "sched_ok st"
  shows "queues_ok st" and "starts_ok st" and "running st \<in> set (all_list st)" and "status_of st (running st) = THREAD_RUNNING"
    and "t \<in> set (all_list st) \<Longrightarrow> status_of st t = THREAD_RUNNING \<longleftrightarrow> t = running st"
    and "is_thread st (running st)" and "thread_current st = Some (running st)"
  using assms queues_okD(3) [of st "running st"] by (auto simp: sched_ok_def thread_current_def)

text \<open>No wakeup is lost: while threads sleep on a semaphore, its value is at most the number of threads that are on their way to take it.\<close>

definition takers :: "kernel \<Rightarrow> sema_id \<Rightarrow> u32 set" where
  "takers st s = {t \<in> set (all_list st). status_of st t \<noteq> THREAD_BLOCKED \<and> waits st t = Some s}"

definition wake_ok :: "kernel \<Rightarrow> bool" where
  "wake_ok st \<longleftrightarrow> (\<forall>s. waiters (sema st s) \<noteq> [] \<longrightarrow> unat (sema_value (sema st s)) \<le> card (takers st s))"

lemma finite_takers [simp]: "finite (takers st s)"
  by (simp add: takers_def)

text \<open>What a context switch leaves as it is.\<close>

definition same_sync :: "kernel \<Rightarrow> kernel \<Rightarrow> bool" where
  "same_sync st st' \<longleftrightarrow> holder st' = holder st \<and> todo st' = todo st \<and> (\<forall>s. sema_value (sema st' s) = sema_value (sema st s))"

text \<open>What a step does to the run queue: it appends threads, and a context switch takes the first thread.\<close>

definition queue_step :: "kernel \<Rightarrow> kernel \<Rightarrow> bool" where
  "queue_step st st' \<longleftrightarrow> (\<exists>new.
     running st' = running st \<and> ready_list st' = ready_list st @ new \<and> thread_ticks st' = thread_ticks st
     \<or> thread_ticks st' = 0 \<and> (case ready_list st @ new of [] \<Rightarrow> ready_list st' = [] | t # ts \<Rightarrow> running st' = t \<and> ready_list st' = ts))"

lemma queue_step_todo [simp]: "queue_step st (set_todo r as st') = queue_step st st'"
  unfolding queue_step_def set_todo_simps ..

lemma switch_ok:
  assumes q: "queues_ok st" and s: "starts_ok st" and nr: "\<forall>t \<in> set (all_list st). status_of st t \<noteq> THREAD_RUNNING"
    and cur: "status_of st (running st) \<noteq> THREAD_RUNNING"
  shows "\<exists>st'. schedule st = Some st' \<and> sched_ok st' \<and> same_sync st st' \<and> (\<forall>s. takers st' s = takers st s \<and> waiters (sema st' s) = waiters (sema st s))
    \<and> all_list st' = all_list st \<and> idle_thread st' = idle_thread st \<and> thread_ticks st' = 0
    \<and> (case ready_list st of [] \<Rightarrow> ready_list st' = [] | t # ts \<Rightarrow> running st' = t \<and> ready_list st' = ts)"
proof -
  obtain nxt st' where st': "schedule st = Some st'" "sched_ok st'" "running st' = nxt"
      "ready_list st = [] \<and> nxt = idle_thread st \<and> ready_list st' = [] \<or> ready_list st = nxt # ready_list st'"
      "thr st' = (thr st)(nxt := (thr st nxt)\<lparr>status := THREAD_RUNNING\<rparr>)" "thread_ticks st' = 0"
      "all_list st' = all_list st" "idle_thread st' = idle_thread st" "sema st' = sema st" "holder st' = holder st" "todo st' = todo st"
    by (rule schedule_ok [OF assms])
  have "nxt = idle_thread st \<or> status_of st nxt = THREAD_READY" using st'(4) queues_okD(6) [OF q, of nxt] by auto
  then have "takers st' s = takers st s" for s
    using waits_idle [OF q] waits_cong [of st' _ st] by (auto simp: takers_def st'(5,7,11))
  then show ?thesis using st' by (auto simp: same_sync_def)
qed

text \<open>Going to sleep on a semaphore.\<close>

lemma sema_down_sleeps:
  assumes ok: "sched_ok st" and v: "sema_value (sema st s) = 0" and w: "waits st (running st) = Some s"
  shows "\<exists>st'. sema_down s st = Some (False, st') \<and> sched_ok st' \<and> same_sync st st' 
    \<and> (wake_ok st \<longrightarrow> wake_ok st') \<and> queue_step st st' \<and> all_list st' = all_list st"
proof -
  let ?r = "running st"
  note d = sched_okD [OF ok]
  define st1 where "st1 = set_sema s ((sema st s)\<lparr>waiters := waiters (sema st s) @ [?r]\<rparr>) st"
  define m where "m = set_status ?r THREAD_BLOCKED st1"
  have ni: "?r \<noteq> idle_thread st" using w waits_idle [OF d(1)] by auto
  have nw: "?r \<notin> set (waiters (sema st x))" for x using queues_okD(8) [OF d(1), of ?r x] d(4) by simp
  have m: "all_list m = all_list st" "idle_thread m = idle_thread st" "ready_list m = ready_list st" "todo m = todo st" "thread_ticks m = thread_ticks st"
      "running m = ?r" "holder m = holder st" "status_of m t = (if t = ?r then THREAD_BLOCKED else status_of st t)" "is_thread m t = is_thread st t" "waits m t = waits st t"
      "waiters (sema m x) = (if x = s then waiters (sema st s) @ [?r] else waiters (sema st x))" "sema_value (sema m x) = sema_value (sema st x)" for t x
    by (simp_all add: m_def st1_def is_thread_def waits_def)
  have "queues_ok m"
  proof (rule queues_okI, unfold m)
    show "t \<in> set (ready_list st) \<longleftrightarrow> t \<in> set (all_list st) \<and> t \<noteq> idle_thread st \<and> (if t = ?r then THREAD_BLOCKED else status_of st t) = THREAD_READY" for t
      using queues_okD(6) [OF d(1), of t] by (auto simp: d(4))
    show "distinct (if x = s then waiters (sema st s) @ [?r] else waiters (sema st x))" for x
      using queues_okD(7) [OF d(1)] nw by simp
    show "t \<in> set (if x = s then waiters (sema st s) @ [?r] else waiters (sema st x)) \<longleftrightarrow>
        t \<in> set (all_list st) \<and> (if t = ?r then THREAD_BLOCKED else status_of st t) = THREAD_BLOCKED \<and> waits st t = Some x" for t x
      using queues_okD(8) [OF d(1), of t x] d(3) w by (auto simp: d(4))
  qed (use queues_okD [OF d(1)] w in \<open>auto split: if_splits\<close>)
  moreover have "starts_ok m" using d(2,4) unfolding starts_ok_def m by auto
  moreover have "\<forall>t \<in> set (all_list m). status_of m t \<noteq> THREAD_RUNNING" "status_of m (running m) \<noteq> THREAD_RUNNING" using d(5) by (auto simp: m)
  ultimately obtain st' where st': "schedule m = Some st'" "sched_ok st'" "same_sync m st'" "\<forall>s. takers st' s = takers m s \<and> waiters (sema st' s) = waiters (sema m s)"
      "all_list st' = all_list m" "thread_ticks st' = 0" "case ready_list m of [] \<Rightarrow> ready_list st' = [] | t # ts \<Rightarrow> running st' = t \<and> ready_list st' = ts"
    using switch_ok [of m] by blast
  have "thread_block st1 = Some st'"
    using st'(1) d(6,7) by (simp add: thread_block_def thread_current_def st1_def is_thread_def m_def d(4))
  then have "sema_down s st = Some (False, st')" using v d(7) by (simp add: sema_down_def st1_def)
  moreover have "same_sync st st'" using st'(3) by (simp add: same_sync_def m)
  moreover have "wake_ok st'" if "wake_ok st"
  proof -
    have "takers m x = takers st x" if "x \<noteq> s" for x using that w by (auto simp: takers_def m)
    then show ?thesis using \<open>wake_ok st\<close> st'(3,4) v unfolding wake_ok_def same_sync_def m by auto
  qed
  moreover have "queue_step st st'"
    unfolding queue_step_def using st'(6,7) by (intro exI [of _ "[]"]) (simp add: m)
  ultimately show ?thesis using st'(2,5) by (auto simp: m)
qed

lemma sched_ok_cong:
  assumes "all_list st' = all_list st" and "idle_thread st' = idle_thread st" and "ready_list st' = ready_list st"
    and "thread_ticks st' = thread_ticks st" and "todo st' = todo st" and "\<forall>s. waiters (sema st' s) = waiters (sema st s)"
    and "\<forall>t. status_of st' t = status_of st t" and "\<forall>t. magic (thr st' t) = magic (thr st t)" and "running st' = running st"
  shows "sched_ok st' = sched_ok st"
  using assms queues_ok_cong [OF assms(1-8)] by (simp add: sched_ok_def)

text \<open>Raising a semaphore.\<close>

lemma sema_up_ok:
  assumes ok: "sched_ok st"
  shows "\<exists>st'. sema_up s st = Some st' \<and> sched_ok st' \<and> running st' = running st \<and> idle_thread st' = idle_thread st \<and> all_list st' = all_list st
    \<and> holder st' = holder st \<and> todo st' = todo st
    \<and> (\<forall>x. sema_value (sema st' x) = (if x = s then sema_value (sema st s) + 1 else sema_value (sema st x)))
    \<and> queue_step st st' \<and> (wake_ok st \<longrightarrow> wake_ok st')"
proof (cases "waiters (sema st s)")
  case Nil
  let ?st = "set_sema s ((sema st s)\<lparr>sema_value := sema_value (sema st s) + 1\<rparr>) st"
  have "sema_up s st = Some ?st" using Nil by (simp add: sema_up_def)
  moreover have "sched_ok ?st" using ok sched_ok_cong [of ?st st] by simp
  moreover have "wake_ok ?st" if "wake_ok st"
    using that Nil by (auto simp: wake_ok_def takers_def waits_def)
  moreover have "queue_step st ?st" by (auto simp: queue_step_def)
  ultimately show ?thesis by auto
next
  case (Cons t ts)
  note d = sched_okD [OF ok]
  have t: "t \<in> set (all_list st)" "status_of st t = THREAD_BLOCKED" "waits st t = Some s" "t \<noteq> running st" "t \<noteq> idle_thread st" "t \<notin> set ts"
    using queues_okD(8) [OF d(1), of t s] Cons d(4) waits_idle [OF d(1)] queues_okD(7) [OF d(1), of s] by auto
  define m where "m = set_sema s ((sema st s)\<lparr>waiters := ts, sema_value := sema_value (sema st s) + 1\<rparr>)
    (set_status t THREAD_READY (st\<lparr>ready_list := ready_list st @ [t]\<rparr>))"
  have m: "all_list m = all_list st" "idle_thread m = idle_thread st" "ready_list m = ready_list st @ [t]" "todo m = todo st" "thread_ticks m = thread_ticks st"
      "running m = running st" "holder m = holder st" "status_of m x = (if x = t then THREAD_READY else status_of st x)" "is_thread m x = is_thread st x"
      "waits m x = waits st x" "waiters (sema m y) = (if y = s then ts else waiters (sema st y))"
      "sema_value (sema m y) = (if y = s then sema_value (sema st s) + 1 else sema_value (sema st y))" for x y
    by (simp_all add: m_def is_thread_def waits_def)
  have "sema_up s st = Some m"
    using Cons t(2) queues_okD(3) [OF d(1) t(1)] by (simp add: sema_up_def thread_unblock_def m_def is_thread_def set_sema_def set_status_def)
  moreover have "queues_ok m"
  proof (rule queues_okI, unfold m)
    show "distinct (ready_list st @ [t])" using queues_okD(5) [OF d(1)] queues_okD(6) [OF d(1), of t] t(2) by simp
    show "x \<in> set (ready_list st @ [t]) \<longleftrightarrow> x \<in> set (all_list st) \<and> x \<noteq> idle_thread st \<and> (if x = t then THREAD_READY else status_of st x) = THREAD_READY" for x
      using queues_okD(6) [OF d(1), of x] t by auto
    show "x \<in> set (if y = s then ts else waiters (sema st y)) \<longleftrightarrow>
        x \<in> set (all_list st) \<and> (if x = t then THREAD_READY else status_of st x) = THREAD_BLOCKED \<and> waits st x = Some y" for x y
      using queues_okD(8) [OF d(1), of x y] t Cons by auto
    show "distinct (if y = s then ts else waiters (sema st y))" for y using queues_okD(7) [OF d(1), of y] Cons by auto
  qed (use queues_okD [OF d(1)] in \<open>auto split: if_splits\<close>)
  moreover have "starts_ok m"
  proof -
    have "todo st t \<noteq> []" using t(3) by (auto simp: waits_def split: list.splits)
    then show ?thesis using d(2) unfolding starts_ok_def m by (metis (no_types))
  qed
  moreover have "status_of m x = THREAD_RUNNING \<longleftrightarrow> x = running st" if "x \<in> set (all_list st)" for x
    using d(5) [OF that] t(4) by (auto simp: m)
  moreover have "queue_step st m" by (auto simp: queue_step_def m)
  moreover have "wake_ok m" if w: "wake_ok st"
  proof -
    have "takers m s = insert t (takers st s)" "t \<notin> takers st s" using t by (auto simp: takers_def m)
    moreover have "takers m y = takers st y" if "y \<noteq> s" for y using t(3) that by (auto simp: takers_def m)
    moreover have "unat (sema_value (sema st s)) \<le> card (takers st s)" using w Cons by (simp add: wake_ok_def)
    ultimately show ?thesis
      using w unat_plus_one_le [of "sema_value (sema st s)"] by (auto simp: wake_ok_def m)
  qed
  ultimately show ?thesis using d(3) unfolding sched_ok_def by (auto simp: m)
qed

section \<open>Plans and locks\<close>

text \<open>The steps inside of \<open>lock_acquire\<close> and \<open>lock_release\<close> are only ever the next step.\<close>

fun inner :: "action \<Rightarrow> bool" where
  "inner (Down_lock l) \<longleftrightarrow> True"
| "inner (Set_holder l) \<longleftrightarrow> True"
| "inner (Up_lock l) \<longleftrightarrow> True"
| "inner _ \<longleftrightarrow> False"

text \<open>\<open>locks_plan H as\<close>: a thread that holds the locks \<open>H\<close> can do the steps \<open>as\<close> without failing an assertion on locks.\<close>

fun locks_plan :: "nat set \<Rightarrow> action list \<Rightarrow> bool" where
  "locks_plan H [] \<longleftrightarrow> True"
| "locks_plan H (Acquire l # as) \<longleftrightarrow> l \<notin> H \<and> locks_plan (insert l H) as"
| "locks_plan H (Down_lock l # as) \<longleftrightarrow> locks_plan (insert l H) as"
| "locks_plan H (Set_holder l # as) \<longleftrightarrow> locks_plan (insert l H) as"
| "locks_plan H (Release l # as) \<longleftrightarrow> l \<in> H \<and> locks_plan (H - {l}) as"
| "locks_plan H (Try_acquire l # as) \<longleftrightarrow> l \<notin> H \<and> as = []"
| "locks_plan H (Assert_held l # as) \<longleftrightarrow> l \<in> H \<and> locks_plan H as"
| "locks_plan H (Broadcast c l # as) \<longleftrightarrow> l \<in> H \<and> locks_plan H as"
| "locks_plan H (a # as) \<longleftrightarrow> locks_plan H as"

fun sema_use :: "u32 \<Rightarrow> action \<Rightarrow> bool" where
  "sema_use r (Down s) \<longleftrightarrow> raw_sema s \<or> s = Waiter r"
| "sema_use r (Up s) \<longleftrightarrow> raw_sema s \<or> (\<exists>w. s = Waiter w)"
| "sema_use r (Try_down s) \<longleftrightarrow> raw_sema s"
| "sema_use r _ \<longleftrightarrow> True"

definition plan_ok :: "u32 \<Rightarrow> nat set \<Rightarrow> action list \<Rightarrow> bool" where
  "plan_ok r H as \<longleftrightarrow> locks_plan H as \<and> (\<forall>a \<in> set (tl as). \<not> inner a) \<and> (\<forall>a \<in> set as. sema_use r a) \<and> (\<forall>c. Start c \<notin> set (butlast as))"

definition plans_ok :: "kernel \<Rightarrow> bool" where
  "plans_ok st \<longleftrightarrow> (\<forall>t. plan_ok t {l. holder st l = t} (todo st t))"

text \<open>
  A thread owns a lock from the step in which it takes the semaphore of the lock to the step in
  which it raises it.  Every lock has its semaphore at 1 and no owner, or at 0 and one owner.
\<close>

fun busy :: "action list \<Rightarrow> nat \<Rightarrow> bool" where
  "busy [] l \<longleftrightarrow> False"
| "busy (a # as) l \<longleftrightarrow> a = Set_holder l \<or> a = Up_lock l"

definition owners :: "kernel \<Rightarrow> nat \<Rightarrow> u32 set" where
  "owners st l = {t. t \<noteq> 0 \<and> holder st l = t \<or> busy (todo st t) l}"

definition locks_ok :: "kernel \<Rightarrow> bool" where
  "locks_ok st \<longleftrightarrow> (\<forall>l.
     (sema_value (sema st (Lock_sema l)) = 1 \<and> owners st l = {} \<or> sema_value (sema st (Lock_sema l)) = 0 \<and> (\<exists>t. owners st l = {t}))
     \<and> (\<forall>t. busy (todo st t) l \<longrightarrow> holder st l = 0))"

definition kernel_ok :: "kernel \<Rightarrow> bool" where
  "kernel_ok st \<longleftrightarrow> sched_ok st \<and> wake_ok st \<and> plans_ok st \<and> locks_ok st"

lemma plans_ok_cong: "holder st' = holder st \<Longrightarrow> todo st' = todo st \<Longrightarrow> plans_ok st' = plans_ok st"
  by (simp add: plans_ok_def)

lemma locks_ok_cong:
  assumes "holder st' = holder st" and "\<forall>t l. busy (todo st' t) l = busy (todo st t) l"
    and "\<forall>l. sema_value (sema st' (Lock_sema l)) = sema_value (sema st (Lock_sema l))"
  shows "locks_ok st' = locks_ok st"
  using assms by (simp add: locks_ok_def owners_def)

lemma locks_okD:
  assumes "locks_ok st"
  shows "busy (todo st t) l \<Longrightarrow> holder st l = 0" and "busy (todo st t) l \<Longrightarrow> t \<in> owners st l"
    and "t \<in> owners st l \<Longrightarrow> sema_value (sema st (Lock_sema l)) = 0" and "t \<in> owners st l \<Longrightarrow> owners st l = {t}"
proof -
  show "busy (todo st t) l \<Longrightarrow> holder st l = 0" using assms unfolding locks_ok_def by blast
  show "busy (todo st t) l \<Longrightarrow> t \<in> owners st l" by (simp add: owners_def)
  show "t \<in> owners st l \<Longrightarrow> sema_value (sema st (Lock_sema l)) = 0" "t \<in> owners st l \<Longrightarrow> owners st l = {t}"
    using assms unfolding locks_ok_def by (metis empty_iff singletonD)+
qed

lemma locks_ok_step:
  assumes "locks_ok st" and "sema_value (sema st' (Lock_sema l)) = 1 \<and> owners st' l = {} \<or> sema_value (sema st' (Lock_sema l)) = 0 \<and> owners st' l = {t}"
    and "\<And>x. x \<noteq> l \<Longrightarrow> owners st' x = owners st x" and "\<And>x. x \<noteq> l \<Longrightarrow> sema_value (sema st' (Lock_sema x)) = sema_value (sema st (Lock_sema x))"
    and "\<And>u x. busy (todo st' u) x \<Longrightarrow> holder st' x = 0"
  shows "locks_ok st'"
  unfolding locks_ok_def
proof (intro allI conjI impI)
  fix x
  show "sema_value (sema st' (Lock_sema x)) = 1 \<and> owners st' x = {} \<or> sema_value (sema st' (Lock_sema x)) = 0 \<and> (\<exists>t. owners st' x = {t})"
    using assms(1,2) assms(3,4) [of x] unfolding locks_ok_def by (cases "x = l") auto
qed (rule assms(5))

lemma not_inner_busy: "\<forall>a \<in> set as. \<not> inner a \<Longrightarrow> \<not> busy as l"
  by (cases as) auto

text \<open>A thread that has been created and that no plan starts yet.\<close>

definition startable :: "kernel \<Rightarrow> u32 \<Rightarrow> bool" where
  "startable st c \<longleftrightarrow> c \<in> set (all_list st) \<and> c \<noteq> idle_thread st \<and> status_of st c = THREAD_BLOCKED \<and> todo st c = []
     \<and> (\<forall>u. Start c \<notin> set (todo st u))"

text \<open>A step that only replaces the plan of the running thread.\<close>

lemma set_todo_sched:
  assumes ok: "sched_ok st" and ni: "running st \<noteq> idle_thread st"
    and st: "\<forall>c. Start c \<in> set as \<longrightarrow> Start c \<in> set (todo st (running st)) \<or> startable st c"
  shows "sched_ok (set_todo (running st) as st)"
proof -
  let ?r = "running st" and ?st = "set_todo (running st) as st"
  note d = sched_okD [OF ok]
  have w: "waits ?st t = waits st t" if "t \<noteq> ?r" for t using that by (simp add: waits_def)
  have "queues_ok ?st"
  proof (rule queues_okI)
    show "t \<in> set (waiters (sema ?st s)) \<longleftrightarrow> t \<in> set (all_list ?st) \<and> status_of ?st t = THREAD_BLOCKED \<and> waits ?st t = Some s" for t s
      using queues_okD(8) [OF d(1), of t s] w [of t] d(4) by (cases "t = ?r") auto
    show "todo ?st t = [] \<or> waits ?st t \<noteq> None" if "t \<in> set (all_list ?st)" "status_of ?st t = THREAD_BLOCKED" for t
      using queues_okD(9) [OF d(1), of t] w [of t] d(4) that by (cases "t = ?r") auto
  qed (use queues_okD(1-7,10-12) [OF d(1)] ni d(3) in \<open>auto simp: is_thread_def\<close>)
  moreover have "starts_ok ?st"
  proof -
    have old: "Start c \<in> set (todo st t) \<or> t = ?r \<and> startable st c" if "Start c \<in> set (todo ?st t)" for t c using that st by (cases "t = ?r") auto
    have "c \<in> set (all_list ?st) \<and> c \<noteq> idle_thread ?st \<and> status_of ?st c = THREAD_BLOCKED \<and> todo ?st c = []"
      if "Start c \<in> set (todo ?st t)" for t c
    proof -
      have "c \<in> set (all_list st) \<and> c \<noteq> idle_thread st \<and> status_of st c = THREAD_BLOCKED \<and> todo st c = []"
        using old [OF that] d(2) unfolding starts_ok_def startable_def by blast
      then show ?thesis using d(4) by auto
    qed
    moreover have "t = t'" if "Start c \<in> set (todo ?st t)" "Start c \<in> set (todo ?st t')" for t t' c
      using old [OF that(1)] old [OF that(2)] d(2) by (auto simp: starts_ok_def startable_def)
    ultimately show ?thesis unfolding starts_ok_def by blast
  qed
  ultimately show ?thesis using d(3,5) by (simp add: sched_ok_def)
qed

lemma wake_more:
  assumes "wake_ok st" and "waits st r = None"
  shows "wake_ok (set_todo r as st)"
proof -
  have "takers st s \<subseteq> takers (set_todo r as st) s" for s using assms(2) by (auto simp: takers_def waits_def)
  then have "card (takers st s) \<le> card (takers (set_todo r as st) s)" for s by (intro card_mono) simp_all
  then show ?thesis using assms(1) order_trans by (fastforce simp: wake_ok_def)
qed

lemma wake_take:
  assumes "wake_ok st" and "sema_value (sema st s) \<noteq> 0" and "waits st r = Some s"
  shows "wake_ok (set_todo r as (set_sema s ((sema st s)\<lparr>sema_value := sema_value (sema st s) - 1\<rparr>) st))" (is "wake_ok ?st")
proof -
  have "takers st x \<subseteq> insert r (takers ?st x)" "x \<noteq> s \<Longrightarrow> takers st x \<subseteq> takers ?st x" for x
    using assms(3) by (auto simp: takers_def waits_def)
  then have c: "card (takers st x) \<le> card (insert r (takers ?st x))" "x \<noteq> s \<Longrightarrow> card (takers st x) \<le> card (takers ?st x)" for x
    by (auto intro!: card_mono)
  have "unat (sema_value (sema ?st x)) \<le> card (takers ?st x)" if "waiters (sema ?st x) \<noteq> []" for x
  proof (cases "x = s")
    case True
    have "card (takers st s) \<le> card (takers ?st s) + 1" using c(1) [of s] card_insert_le_m1 [of "card (takers ?st s) + 1" "takers ?st s" r] by linarith
    moreover have "unat (sema_value (sema st s)) \<le> card (takers st s)" using assms(1) that True by (simp add: wake_ok_def)
    moreover have "unat (sema_value (sema st s) - 1) = unat (sema_value (sema st s)) - 1" using assms(2) by (simp add: unat_minus_one_u32)
    ultimately show ?thesis using True by simp
  next
    case False
    then have "unat (sema_value (sema st x)) \<le> card (takers st x)" using assms(1) that by (simp add: wake_ok_def)
    then show ?thesis using c(2) [OF False] False by simp
  qed
  then show ?thesis by (simp add: wake_ok_def)
qed

text \<open>The end of a step of the running thread, whose next steps are \<open>as\<close>.\<close>

lemma finish_ok:
  assumes "sched_ok st" and "running st \<noteq> idle_thread st" and "\<forall>c. Start c \<in> set as \<longrightarrow> Start c \<in> set (todo st (running st)) \<or> startable st c"
    and "\<forall>t. t \<noteq> running st \<longrightarrow> plan_ok t {l. holder st l = t} (todo st t)" and "plan_ok (running st) {l. holder st l = running st} as"
    and "wake_ok (set_todo (running st) as st)" and "locks_ok (set_todo (running st) as st)"
  shows "kernel_ok (set_todo (running st) as st)"
  using assms set_todo_sched [OF assms(1-3)] by (simp add: kernel_ok_def plans_ok_def)

lemma kernel_okD:
  assumes "kernel_ok st"
  shows "sched_ok st" and "wake_ok st" and "plans_ok st" and "locks_ok st" and "plan_ok t {l. holder st l = t} (todo st t)"
    and "todo st (running st) \<noteq> [] \<Longrightarrow> running st \<noteq> idle_thread st"
  using assms queues_okD(10) [OF sched_okD(1)] unfolding kernel_ok_def plans_ok_def by (blast, blast, blast, blast, blast, metis)

text \<open>What the plan of the running thread says about the steps after the next.\<close>

lemma plan_tail:
  assumes "plan_ok r H (a # as)"
  shows "\<forall>b \<in> set as. \<not> inner b" and "\<not> busy as l" and "\<forall>b \<in> set as. sema_use r b" and "\<forall>c. Start c \<notin> set (butlast as)" and "sema_use r a"
    and "as \<noteq> [] \<Longrightarrow> \<forall>c. a \<noteq> Start c"
proof -
  show b: "\<forall>b \<in> set as. \<not> inner b" "\<forall>b \<in> set as. sema_use r b" "sema_use r a" using assms by (simp_all add: plan_ok_def)
  show "\<not> busy as l" using not_inner_busy [OF b(1)] .
  show "\<forall>c. Start c \<notin> set (butlast as)" "as \<noteq> [] \<Longrightarrow> \<forall>c. a \<noteq> Start c" using assms by (auto simp: plan_ok_def split: if_splits)
qed

lemma plan_okI:
  assumes "plan_ok r H (a # as)" and "locks_plan H' bs" and "bs = as \<or> (\<exists>b. bs = b # as \<and> sema_use r b \<and> (\<forall>c. b \<noteq> Start c))"
  shows "plan_ok r H' bs"
  using plan_tail [OF assms(1)] assms(2,3) by (cases as) (auto simp: plan_ok_def split: if_splits)

section \<open>The steps of calls\<close>

lemma queue_same: "running st' = running st \<Longrightarrow> ready_list st' = ready_list st \<Longrightarrow> thread_ticks st' = thread_ticks st \<Longrightarrow> queue_step st st'"
  by (auto simp: queue_step_def)

text \<open>Steps that change neither the queues nor the semaphores and locks.\<close>

lemma advance:
  assumes ok: "kernel_ok st" and td: "todo st (running st) = a # as" and w: "wait_on a = None" and b: "\<forall>l. \<not> busy [a] l"
    and st1: "all_list st1 = all_list st" "idle_thread st1 = idle_thread st" "ready_list st1 = ready_list st"
      "thread_ticks st1 = thread_ticks st" "todo st1 = todo st" "sema st1 = sema st" "\<forall>t. status_of st1 t = status_of st t"
      "\<forall>t. magic (thr st1 t) = magic (thr st t)" "running st1 = running st" "holder st1 = holder st"
    and bs: "bs = as \<or> (\<exists>b. bs = b # as \<and> sema_use (running st) b \<and> (\<forall>c. b \<noteq> Start c) \<and> (\<forall>l. \<not> busy [b] l))"
    and plan: "locks_plan {l. holder st l = running st} bs"
  shows "kernel_ok (set_todo (running st) bs st1) \<and> queue_step st (set_todo (running st) bs st1)"
proof -
  note k = kernel_okD [OF ok]
  have p: "plan_ok (running st) {l. holder st l = running st} (a # as)" using k(5) [of "running st"] td by simp
  have "sched_ok st1" using k(1) sched_ok_cong [OF st1(1-5) _ st1(7-9)] st1(6) by simp
  moreover have "wake_ok st1" using k(2) st1 by (simp add: wake_ok_def takers_def waits_def)
  then have "wake_ok (set_todo (running st) bs st1)" using wake_more td w st1 by (simp add: waits_def)
  moreover have "\<not> busy bs l" for l using bs plan_tail(2) [OF p] by auto
  then have "locks_ok (set_todo (running st) bs st1)"
    using k(4) locks_ok_cong [of "set_todo (running st) bs st1" st] td b st1 by auto
  moreover have "plan_ok (running st) {l. holder st l = running st} bs" using plan_okI [OF p plan] bs by blast
  moreover have "\<forall>c. Start c \<in> set bs \<longrightarrow> Start c \<in> set (todo st (running st))" using bs td by auto
  ultimately show ?thesis
    using finish_ok [of st1 bs] k(5,6) td st1 queue_same [of "set_todo (running st) bs st1" st] by simp
qed

lemma lock_taken:
  assumes ok: "locks_ok st" and v: "sema_value (sema st (Lock_sema l)) \<noteq> 0" and td: "\<forall>l. \<not> busy (todo st r) l"
  shows "locks_ok (set_todo r (Set_holder l # as) (set_sema (Lock_sema l) ((sema st (Lock_sema l))\<lparr>sema_value := sema_value (sema st (Lock_sema l)) - 1\<rparr>) st))"
    (is "locks_ok ?st")
proof -
  have l: "sema_value (sema st (Lock_sema l)) = 1" "owners st l = {}" using ok v unfolding locks_ok_def by auto
  then have f: "holder st l = 0" "\<And>t. \<not> busy (todo st t) l" by (auto simp: owners_def)
  then have "owners ?st l = {r}" by (auto simp: owners_def)
  moreover have "owners ?st x = owners st x" if "x \<noteq> l" for x using that td by (auto simp: owners_def)
  moreover have "busy (todo ?st t) x \<longrightarrow> holder ?st x = 0" for t x using ok td f by (auto simp: locks_ok_def)
  ultimately show ?thesis using locks_ok_step [OF ok, of ?st l r] l by simp
qed

lemma act_Down:
  assumes ok: "kernel_ok st" and td: "todo st (running st) = a # as" and w: "wait_on a = Some s"
    and bs: "a = Down s \<and> bs = as \<or> (\<exists>l. a = Down_lock l \<and> s = Lock_sema l \<and> bs = Set_holder l # as)"
  shows "\<exists>taken st'. sema_down s st = Some (taken, st') \<and> kernel_ok (if taken then set_todo (running st) bs st' else st')
    \<and> queue_step st (if taken then set_todo (running st) bs st' else st')"
proof (cases "sema_value (sema st s) = 0")
  case True
  note k = kernel_okD [OF ok]
  obtain st' where st': "sema_down s st = Some (False, st')" "sched_ok st'" "same_sync st st'" "wake_ok st'" "queue_step st st'"
    using sema_down_sleeps [OF k(1) True] td w k(2) by (auto simp: waits_def)
  moreover have "plans_ok st'" "locks_ok st'"
    using st'(3) k(3,4) plans_ok_cong [of st' st] locks_ok_cong [of st' st] by (simp_all add: same_sync_def)
  ultimately show ?thesis by (intro exI [of _ False] exI [of _ st']) (simp add: kernel_ok_def)
next
  case False
  note k = kernel_okD [OF ok]
  let ?st = "set_sema s ((sema st s)\<lparr>sema_value := sema_value (sema st s) - 1\<rparr>) st"
  have p: "plan_ok (running st) {l. holder st l = running st} (a # as)" using k(5) [of "running st"] td by simp
  have "sema_down s st = Some (True, ?st)" using False by (simp add: sema_down_def)
  moreover have "sched_ok ?st" using k(1) sched_ok_cong [of ?st st] by simp
  moreover have "wake_ok (set_todo (running st) bs ?st)" using wake_take [OF k(2) False] td w by (simp add: waits_def)
  moreover have "plan_ok (running st) {l. holder st l = running st} bs"
    by (rule plan_okI [OF p]) (use bs p in \<open>auto simp: plan_ok_def\<close>)
  moreover have "locks_ok (set_todo (running st) bs ?st)"
    using bs
  proof
    assume a: "a = Down s \<and> bs = as"
    then have "Lock_sema l \<noteq> s" for l using plan_tail(5) [OF p] by auto
    then show ?thesis
      using a td plan_tail(2) [OF p] k(4) locks_ok_cong [of "set_todo (running st) bs ?st" st] by auto
  next
    assume "\<exists>l. a = Down_lock l \<and> s = Lock_sema l \<and> bs = Set_holder l # as"
    then obtain l where a: "a = Down_lock l" "s = Lock_sema l" "bs = Set_holder l # as" by blast
    show ?thesis using lock_taken [OF k(4), of l] td a False by simp
  qed
  moreover have "\<forall>c. Start c \<in> set bs \<longrightarrow> Start c \<in> set (todo st (running st))" using bs td by auto
  ultimately show ?thesis
    using finish_ok [of ?st bs] k(5,6) td queue_same [of "set_todo (running st) bs ?st" st]
    by (intro exI [of _ True] exI [of _ ?st]) simp
qed

lemma act_Up:
  assumes ok: "kernel_ok st" and td: "todo st (running st) = a # as" and a: "a = Up s \<or> (\<exists>l. a = Up_lock l \<and> s = Lock_sema l)"
  shows "\<exists>st'. sema_up s st = Some st' \<and> running st' = running st \<and> kernel_ok (set_todo (running st) as st') \<and> queue_step st (set_todo (running st) as st')"
proof -
  note k = kernel_okD [OF ok]
  have p: "plan_ok (running st) {l. holder st l = running st} (a # as)" using k(5) [of "running st"] td by simp
  obtain st' where st': "sema_up s st = Some st'" "sched_ok st'" "running st' = running st" "idle_thread st' = idle_thread st"
      "holder st' = holder st" "todo st' = todo st" "queue_step st st'" "wake_ok st'"
      "\<forall>x. sema_value (sema st' x) = (if x = s then sema_value (sema st s) + 1 else sema_value (sema st x))"
    using sema_up_ok [OF k(1), of s] k(2) by blast
  have "wake_ok (set_todo (running st) as st')" using wake_more [OF st'(8)] td a st'(6) by (auto simp: waits_def)
  moreover have "plan_ok (running st) {l. holder st l = running st} as"
    by (rule plan_okI [OF p]) (use a p in \<open>auto simp: plan_ok_def\<close>)
  moreover have "locks_ok (set_todo (running st) as st')"
    using a
  proof
    assume a: "a = Up s"
    then have "Lock_sema l \<noteq> s" for l using plan_tail(5) [OF p] by auto
    then show ?thesis
      using a td plan_tail(2) [OF p] k(4) locks_ok_cong [of "set_todo (running st) as st'" st] st'(5,6,9) by auto
  next
    assume "\<exists>l. a = Up_lock l \<and> s = Lock_sema l"
    then obtain l where a: "a = Up_lock l" "s = Lock_sema l" by blast
    have b: "busy (todo st (running st)) l" using td a by simp
    note r = locks_okD(2,1) [OF k(4) b]
    have v: "sema_value (sema st s) = 0" "owners st l = {running st}" using locks_okD(3,4) [OF k(4) r(1)] a by simp_all
    have "owners (set_todo (running st) as st') l = {}" using v(2) r plan_tail(2) [OF p] by (auto simp: owners_def st'(5,6))
    moreover have "owners (set_todo (running st) as st') x = owners st x" if "x \<noteq> l" for x
      using that td a plan_tail(2) [OF p] by (auto simp: owners_def st'(5,6))
    moreover have "busy (todo (set_todo (running st) as st') t) x \<longrightarrow> holder (set_todo (running st) as st') x = 0" for t x
      using k(4) plan_tail(2) [OF p] by (auto simp: locks_ok_def st'(5,6))
    ultimately show ?thesis using locks_ok_step [OF k(4), of "set_todo (running st) as st'" l] v(1) a(2) by (simp add: st'(9))
  qed
  ultimately have "kernel_ok (set_todo (running st) as st')"
    using finish_ok [of st' as] k(5,6) td st' by simp
  moreover have "queue_step st (set_todo (running st) as st')" using st'(7) by simp
  ultimately show ?thesis using st'(1,3) by blast
qed

lemma plan_other:
  assumes ok: "kernel_ok st" and h: "t \<noteq> 0 \<Longrightarrow> (\<And>x. h x = t \<longleftrightarrow> holder st x = t)"
  shows "plan_ok t {x. h x = t} (todo st t)"
proof (cases "t = 0")
  case True
  have "todo st 0 = []" using queues_okD(3,11) [OF sched_okD(1) [OF kernel_okD(1) [OF ok]], of 0] by (auto simp: is_thread_def)
  then show ?thesis using True by (simp add: plan_ok_def)
next
  case False
  then show ?thesis using kernel_okD(5) [OF ok, of t] h by simp
qed

lemma act_Set_holder:
  assumes ok: "kernel_ok st" and td: "todo st (running st) = Set_holder l # as"
  shows "kernel_ok (set_todo (running st) as (st\<lparr>holder := (holder st)(l := running st)\<rparr>))" (is "kernel_ok (set_todo _ _ ?st)")
proof -
  let ?r = "running st"
  note k = kernel_okD [OF ok]
  have p: "plan_ok ?r {l. holder st l = ?r} (Set_holder l # as)" using k(5) [of ?r] td by simp
  have b: "busy (todo st ?r) l" using td by simp
  have r: "?r \<in> owners st l" "holder st l = 0" "?r \<noteq> 0"
    using locks_okD(1,2) [OF k(4) b] sched_okD(6) [OF k(1)] by (simp_all add: is_thread_def)
  note v = locks_okD(3,4) [OF k(4) r(1)]
  have "sched_ok ?st" using k(1) sched_ok_cong [of ?st st] by simp
  moreover have "wake_ok (set_todo ?r as ?st)"
    by (rule wake_more) (use k(2) td in \<open>simp_all add: wake_ok_def takers_def waits_def\<close>)
  moreover have "{x. holder ?st x = ?r} = insert l {x. holder st x = ?r}" by auto
  then have "plan_ok ?r {x. holder ?st x = ?r} as"
    using plan_okI [OF p, of "insert l {x. holder st x = ?r}" as] p by (simp add: plan_ok_def)
  moreover have "plan_ok t {x. holder ?st x = t} (todo ?st t)" if "t \<noteq> ?r" for t
    using plan_other [OF ok, of t "holder ?st"] that r(2) by simp
  moreover have "locks_ok (set_todo ?r as ?st)"
  proof -
    have "owners (set_todo ?r as ?st) l = {?r}" using v(2) r(3) plan_tail(2) [OF p] by (auto simp: owners_def)
    moreover have "owners (set_todo ?r as ?st) x = owners st x" if "x \<noteq> l" for x
      using that td plan_tail(2) [OF p] by (auto simp: owners_def)
    moreover have "busy (todo (set_todo ?r as ?st) t) x \<longrightarrow> holder (set_todo ?r as ?st) x = 0" for t x
      using locks_okD(1,2) [OF k(4)] plan_tail(2) [OF p] v(2) by auto
    ultimately show ?thesis using locks_ok_step [OF k(4), of "set_todo ?r as ?st" l ?r] v(1) by simp
  qed
  ultimately show ?thesis using finish_ok [of ?st as] k(6) td by simp
qed

lemma act_Release:
  assumes ok: "kernel_ok st" and td: "todo st (running st) = Release l # as"
  shows "holder st l = running st" and "kernel_ok (set_todo (running st) (Up_lock l # as) (st\<lparr>holder := (holder st)(l := 0)\<rparr>))" (is "kernel_ok (set_todo _ _ ?st)")
proof -
  let ?r = "running st"
  note k = kernel_okD [OF ok]
  have p: "plan_ok ?r {l. holder st l = ?r} (Release l # as)" using k(5) [of ?r] td by simp
  then show h: "holder st l = ?r" by (simp add: plan_ok_def)
  have "?r \<noteq> 0" using sched_okD(6) [OF k(1)] by (simp add: is_thread_def)
  then have r: "?r \<in> owners st l" "?r \<noteq> 0" using h by (auto simp: owners_def)
  note v = locks_okD(3,4) [OF k(4) r(1)]
  have "sched_ok ?st" using k(1) sched_ok_cong [of ?st st] by simp
  moreover have "wake_ok (set_todo ?r (Up_lock l # as) ?st)"
    by (rule wake_more) (use k(2) td in \<open>simp_all add: wake_ok_def takers_def waits_def\<close>)
  moreover have "{x. holder ?st x = ?r} = {x. holder st x = ?r} - {l}" using r(2) by auto
  then have "plan_ok ?r {x. holder ?st x = ?r} (Up_lock l # as)"
    using plan_okI [OF p, of "{x. holder st x = ?r} - {l}" "Up_lock l # as"] p by (simp add: plan_ok_def)
  moreover have "plan_ok t {x. holder ?st x = t} (todo ?st t)" if "t \<noteq> ?r" for t
    using plan_other [OF ok, of t "holder ?st"] that h by simp
  moreover have "locks_ok (set_todo ?r (Up_lock l # as) ?st)"
  proof -
    have "owners (set_todo ?r (Up_lock l # as) ?st) l = {?r}" using v(2) h r by (auto simp: owners_def)
    moreover have "owners (set_todo ?r (Up_lock l # as) ?st) x = owners st x" if "x \<noteq> l" for x
      using that td plan_tail(2) [OF p] by (auto simp: owners_def)
    moreover have "busy (todo (set_todo ?r (Up_lock l # as) ?st) t) x \<longrightarrow> holder (set_todo ?r (Up_lock l # as) ?st) x = 0" for t x
      using locks_okD(1,2) [OF k(4)] plan_tail(2) [OF p] v(2) by auto
    ultimately show ?thesis using locks_ok_step [OF k(4), of "set_todo ?r (Up_lock l # as) ?st" l ?r] v(1) by simp
  qed
  ultimately show "kernel_ok (set_todo ?r (Up_lock l # as) ?st)" using finish_ok [of ?st "Up_lock l # as"] k(6) td by simp
qed

end
