(* ===== verification/Kernel_Run.thy ===== *)
theory Kernel_Run
  imports Synch_Inv
begin

text \<open>
  Runs of the kernel of theory Synch: every event that callers may cause keeps the invariants of
  theory Synch_Inv and fails no assertion.  From it follow mutual exclusion, that no wakeup is
  lost, and that every ready thread runs within a bounded number of timer ticks.
\<close>

section \<open>The remaining steps of calls\<close>

lemma queue_step_from: "running st0 = running st \<Longrightarrow> ready_list st0 = ready_list st \<Longrightarrow> thread_ticks st0 = thread_ticks st \<Longrightarrow> queue_step st0 st' = queue_step st st'"
  by (simp add: queue_step_def)

text \<open>Lowering a semaphore without sleeping.\<close>

lemma lower_ok:
  assumes ok: "kernel_ok st" and v: "sema_value (sema st s) > 0"
  shows "sched_ok (set_sema s ((sema st s)\<lparr>sema_value := sema_value (sema st s) - 1\<rparr>) st)"
    and "wake_ok (set_sema s ((sema st s)\<lparr>sema_value := sema_value (sema st s) - 1\<rparr>) st)"
proof -
  let ?st = "set_sema s ((sema st s)\<lparr>sema_value := sema_value (sema st s) - 1\<rparr>) st"
  note k = kernel_okD [OF ok]
  show "sched_ok ?st" using k(1) sched_ok_cong [of ?st st] by simp
  have "unat (sema_value (sema st s) - 1) \<le> unat (sema_value (sema st s))" using v by (simp add: unat_minus_one_u32 word_gt_0)
  moreover have "takers ?st x = takers st x" for x by (simp add: takers_def waits_def)
  ultimately show "wake_ok ?st" using k(2) by (auto simp: wake_ok_def intro: order_trans)
qed

lemma act_Try_down:
  assumes ok: "kernel_ok st" and td: "todo st (running st) = Try_down s # as"
  shows "kernel_ok (set_todo (running st) as (snd (sema_try_down s st)))" and "queue_step st (snd (sema_try_down s st))"
proof -
  note k = kernel_okD [OF ok]
  have p: "plan_ok (running st) {l. holder st l = running st} (Try_down s # as)" using k(5) [of "running st"] td by simp
  let ?st = "snd (sema_try_down s st)"
  have f: "holder ?st = holder st" "todo ?st = todo st" "running ?st = running st" "idle_thread ?st = idle_thread st"
    by (simp_all add: sema_try_down_def)
  show "queue_step st ?st" by (rule queue_same) (simp_all add: sema_try_down_def)
  have "sched_ok ?st" "wake_ok ?st" using lower_ok [OF ok, of s] k(1,2) by (simp_all add: sema_try_down_def)
  moreover from this(2) have "wake_ok (set_todo (running st) as ?st)" by (rule wake_more) (simp add: waits_def f td)
  moreover have "Lock_sema l \<noteq> s" for l using plan_tail(5) [OF p] by auto
  then have "locks_ok (set_todo (running st) as ?st)"
    using k(4) locks_ok_cong [of "set_todo (running st) as ?st" st] td plan_tail(2) [OF p] by (auto simp: sema_try_down_def)
  moreover have "plan_ok (running st) {l. holder st l = running st} as" by (rule plan_okI [OF p]) (use p in \<open>auto simp: plan_ok_def\<close>)
  ultimately show "kernel_ok (set_todo (running st) as ?st)" using finish_ok [of ?st as] k(5,6) td f by simp
qed

lemma act_Try_acquire:
  assumes ok: "kernel_ok st" and td: "todo st (running st) = Try_acquire l # as"
    and r: "sema_try_down (Lock_sema l) st = (success, st1)" and bs: "bs = (if success then Set_holder l # as else as)"
  shows "holder st l \<noteq> running st" and "kernel_ok (set_todo (running st) bs st1)" and "queue_step st st1" and "running st1 = running st"
proof -
  note k = kernel_okD [OF ok]
  have p: "plan_ok (running st) {l. holder st l = running st} (Try_acquire l # as)" using k(5) [of "running st"] td by simp
  then show "holder st l \<noteq> running st" by (simp add: plan_ok_def)
  have as: "as = []" using p by (simp add: plan_ok_def)
  show q: "queue_step st st1" "running st1 = running st"
    using r queue_same [of st1 st] by (auto simp: sema_try_down_def split: if_splits)
  show "kernel_ok (set_todo (running st) bs st1)"
  proof (cases success)
    case False
    then have st1: "st1 = st" "bs = as" using r bs by (auto simp: sema_try_down_def split: if_splits)
    have "wake_ok (set_todo (running st) as st)" by (rule wake_more [OF k(2)]) (simp add: waits_def td)
    moreover have "locks_ok (set_todo (running st) as st)"
      using k(4) locks_ok_cong [of "set_todo (running st) as st" st] td by (simp add: as)
    ultimately show ?thesis using finish_ok [OF k(1), of as] k(5,6) td st1 by (simp add: as plan_ok_def)
  next
    case True
    then have v: "sema_value (sema st (Lock_sema l)) > 0" and bs: "bs = Set_holder l # as"
      and st1: "st1 = set_sema (Lock_sema l) ((sema st (Lock_sema l))\<lparr>sema_value := sema_value (sema st (Lock_sema l)) - 1\<rparr>) st"
      using r bs by (auto simp: sema_try_down_def split: if_splits)
    have "wake_ok (set_todo (running st) bs st1)" using lower_ok(2) [OF ok v] by (intro wake_more) (simp_all add: st1 waits_def td)
    moreover have "locks_ok (set_todo (running st) bs st1)" using lock_taken [OF k(4), of l "running st" as] v td by (simp add: st1 bs word_gt_0)
    ultimately show ?thesis using finish_ok [of st1 bs] lower_ok(1) [OF ok v] k(5,6) td by (simp add: st1 bs as plan_ok_def)
  qed
qed

lemma act_Cond_push:
  assumes ok: "kernel_ok st" and td: "todo st (running st) = Cond_push c # as" and st1: "st1 = (sema_init (Waiter (running st)) 0 st)\<lparr>cond := cs\<rparr>"
  shows "kernel_ok (set_todo (running st) as st1)" and "queue_step st st1"
proof -
  let ?r = "running st"
  note k = kernel_okD [OF ok]
  have p: "plan_ok ?r {l. holder st l = ?r} (Cond_push c # as)" using k(5) [of ?r] td by simp
  have f: "all_list st1 = all_list st" "idle_thread st1 = idle_thread st" "ready_list st1 = ready_list st" "thread_ticks st1 = thread_ticks st"
      "todo st1 = todo st" "thr st1 = thr st" "running st1 = ?r" "holder st1 = holder st"
      "sema st1 = (sema st)(Waiter ?r := \<lparr>sema_value = 0, waiters = []\<rparr>)"
    by (simp_all add: st1 sema_init_def set_sema_def)
  show "queue_step st st1" by (rule queue_same) (simp_all add: f)
  have "waiters (sema st (Waiter ?r)) = []"
  proof (rule ccontr)
    assume "waiters (sema st (Waiter ?r)) \<noteq> []"
    then obtain t where "t \<in> set (waiters (sema st (Waiter ?r)))" by (cases "waiters (sema st (Waiter ?r))") auto
    then have t: "status_of st t = THREAD_BLOCKED" "waits st t = Some (Waiter ?r)" using queues_okD(8) [OF sched_okD(1) [OF k(1)]] by auto
    then obtain bs where "todo st t = Down (Waiter ?r) # bs" by (auto simp: waits_def split: list.splits elim!: wait_on.elims)
    then have "t = ?r" using k(5) [of t] by (simp add: plan_ok_def)
    then show False using t(1) sched_okD(4) [OF k(1)] by simp
  qed
  then have "sched_ok st1" "wake_ok st1"
    using k(1,2) sched_ok_cong [of st1 st] f by (auto simp: wake_ok_def takers_def waits_def)
  moreover from this(2) have "wake_ok (set_todo ?r as st1)" by (rule wake_more) (simp add: waits_def f td)
  moreover have "locks_ok (set_todo ?r as st1)"
    using k(4) locks_ok_cong [of "set_todo ?r as st1" st] td plan_tail(2) [OF p] f by auto
  moreover have "plan_ok ?r {l. holder st l = ?r} as" by (rule plan_okI [OF p]) (use p in \<open>auto simp: plan_ok_def\<close>)
  ultimately show "kernel_ok (set_todo ?r as st1)" using finish_ok [of st1 as] k(5,6) td f by simp
qed

text \<open>A step after which the call is over.\<close>

lemma end_call:
  assumes ok: "kernel_ok st" and td: "todo st (running st) = a # as" and a: "wait_on a = None" "\<forall>l. \<not> busy [a] l"
  shows "kernel_ok (set_todo (running st) [] st)"
proof -
  note k = kernel_okD [OF ok]
  have "wake_ok (set_todo (running st) [] st)" by (rule wake_more [OF k(2)]) (simp add: waits_def td a)
  moreover have "locks_ok (set_todo (running st) [] st)" using k(4) locks_ok_cong [of "set_todo (running st) [] st" st] td a by simp
  ultimately show ?thesis using finish_ok [OF k(1), of "[]"] k(5,6) td by (simp add: plan_ok_def)
qed

lemma kernel_ok_switched:
  assumes "kernel_ok st" and "sched_ok st'" and "same_sync st st'" and "\<forall>s. takers st' s = takers st s \<and> waiters (sema st' s) = waiters (sema st s)"
  shows "kernel_ok st'"
  using assms plans_ok_cong [of st' st] locks_ok_cong [of st' st]
  by (simp add: kernel_ok_def same_sync_def wake_ok_def)

lemma yield_ok:
  assumes ok: "kernel_ok st"
  shows "\<exists>st'. thread_yield st = Some st' \<and> kernel_ok st' \<and> queue_step st st' \<and> thread_ticks st' = 0
    \<and> (ready_list st \<noteq> [] \<longrightarrow> running st' = hd (ready_list st))"
proof -
  let ?r = "running st"
  note d = sched_okD [OF kernel_okD(1) [OF ok]]
  define new where "new = (if ?r \<noteq> idle_thread st then [?r] else [])"
  define m where "m = set_status ?r THREAD_READY (st\<lparr>ready_list := ready_list st @ new\<rparr>)"
  have m: "all_list m = all_list st" "idle_thread m = idle_thread st" "ready_list m = ready_list st @ new" "todo m = todo st" "thread_ticks m = thread_ticks st"
      "running m = ?r" "holder m = holder st" "sema m = sema st" "status_of m t = (if t = ?r then THREAD_READY else status_of st t)"
      "is_thread m t = is_thread st t" "waits m t = waits st t" for t
    by (simp_all add: m_def is_thread_def waits_def)
  have nr: "?r \<notin> set (ready_list st)" using queues_okD(6) [OF d(1), of ?r] d(4) by simp
  have "queues_ok m"
  proof (rule queues_okI, unfold m)
    show "distinct (ready_list st @ new)" using queues_okD(5) [OF d(1)] nr by (simp add: new_def)
    show "t \<in> set (ready_list st @ new) \<longleftrightarrow> t \<in> set (all_list st) \<and> t \<noteq> idle_thread st \<and> (if t = ?r then THREAD_READY else status_of st t) = THREAD_READY" for t
      using queues_okD(6) [OF d(1), of t] d(3,4) by (auto simp: new_def)
    show "t \<in> set (waiters (sema st s)) \<longleftrightarrow> t \<in> set (all_list st) \<and> (if t = ?r then THREAD_READY else status_of st t) = THREAD_BLOCKED \<and> waits st t = Some s" for t s
      using queues_okD(8) [OF d(1), of t s] by (auto simp: d(4))
  qed (use queues_okD [OF d(1)] in \<open>auto split: if_splits\<close>)
  moreover have "starts_ok m"
  proof -
    have "c \<noteq> ?r" if "Start c \<in> set (todo st t)" for c t using that d(2,4) by (auto simp: starts_ok_def)
    then show ?thesis using d(2) unfolding starts_ok_def m by metis
  qed
  moreover have "\<forall>t \<in> set (all_list m). status_of m t \<noteq> THREAD_RUNNING" "status_of m (running m) \<noteq> THREAD_RUNNING" using d(5) by (auto simp: m)
  ultimately obtain st' where st': "schedule m = Some st'" "sched_ok st'" "same_sync m st'" "\<forall>s. takers st' s = takers m s \<and> waiters (sema st' s) = waiters (sema m s)"
      "thread_ticks st' = 0" "case ready_list m of [] \<Rightarrow> ready_list st' = [] | t # ts \<Rightarrow> running st' = t \<and> ready_list st' = ts"
    using switch_ok [of m] by blast
  have "thread_yield st = Some st'"
    using st'(1) d(7) by (cases "?r = idle_thread st") (simp_all add: thread_yield_def m_def new_def)
  moreover have "takers m s = takers st s" for s using d(4) by (auto simp: takers_def m)
  then have "kernel_ok st'" using kernel_ok_switched [OF ok st'(2)] st'(3,4) by (simp add: same_sync_def m)
  moreover have "queue_step st st'" unfolding queue_step_def using st'(5,6) by (intro exI [of _ new]) (simp add: m)
  moreover have "running st' = hd (ready_list st)" if "ready_list st \<noteq> []" using st'(6) that by (cases "ready_list st") (simp_all add: m)
  ultimately show ?thesis using st'(5) by blast
qed

lemma exit_ok:
  assumes ok: "kernel_ok st" and ni: "running st \<noteq> idle_thread st" and td: "todo st (running st) = []"
  shows "\<exists>st'. thread_exit st = Some st' \<and> kernel_ok st' \<and> queue_step st st'"
proof -
  let ?r = "running st"
  note d = sched_okD [OF kernel_okD(1) [OF ok]]
  define m where "m = set_status ?r THREAD_DYING (st\<lparr>all_list := remove1 ?r (all_list st)\<rparr>)"
  have all: "set (remove1 ?r (all_list st)) = set (all_list st) - {?r}" using queues_okD(1) [OF d(1)] by simp
  have m: "all_list m = remove1 ?r (all_list st)" "idle_thread m = idle_thread st" "ready_list m = ready_list st" "todo m = todo st" "thread_ticks m = thread_ticks st"
      "running m = ?r" "holder m = holder st" "sema m = sema st" "status_of m t = (if t = ?r then THREAD_DYING else status_of st t)"
      "is_thread m t = is_thread st t" "waits m t = waits st t" for t
    by (simp_all add: m_def is_thread_def waits_def)
  have "queues_ok m"
  proof (rule queues_okI, unfold m all)
    show "t \<in> set (ready_list st) \<longleftrightarrow> t \<in> set (all_list st) - {?r} \<and> t \<noteq> idle_thread st \<and> (if t = ?r then THREAD_DYING else status_of st t) = THREAD_READY" for t
      using queues_okD(6) [OF d(1), of t] by (auto simp: d(4))
    show "t \<in> set (waiters (sema st s)) \<longleftrightarrow> t \<in> set (all_list st) - {?r} \<and> (if t = ?r then THREAD_DYING else status_of st t) = THREAD_BLOCKED \<and> waits st t = Some s" for t s
      using queues_okD(8) [OF d(1), of t s] by (auto simp: d(4))
    show "todo st t = []" if "t \<notin> set (all_list st) - {?r}" for t using that td queues_okD(11) [OF d(1), of t] by (cases "t = ?r") auto
  qed (use queues_okD [OF d(1)] ni in \<open>auto split: if_splits\<close>)
  moreover have "starts_ok m"
  proof -
    have "c \<noteq> ?r" if "Start c \<in> set (todo st t)" for c t using that d(2,4) by (auto simp: starts_ok_def)
    then show ?thesis using d(2) unfolding starts_ok_def m all by (metis Diff_iff singletonD)
  qed
  moreover have "\<forall>t \<in> set (all_list m). status_of m t \<noteq> THREAD_RUNNING" "status_of m (running m) \<noteq> THREAD_RUNNING" using d(5) unfolding m all by auto
  ultimately obtain st' where st': "schedule m = Some st'" "sched_ok st'" "same_sync m st'" "\<forall>s. takers st' s = takers m s \<and> waiters (sema st' s) = waiters (sema m s)"
      "thread_ticks st' = 0" "case ready_list m of [] \<Rightarrow> ready_list st' = [] | t # ts \<Rightarrow> running st' = t \<and> ready_list st' = ts"
    using switch_ok [of m] by blast
  have "thread_exit st = Some st'" using st'(1) d(7) by (simp add: thread_exit_def m_def)
  moreover have "takers m s = takers st s" for s using td unfolding takers_def m all by (auto simp: waits_def)
  then have "kernel_ok st'" using kernel_ok_switched [OF ok st'(2)] st'(3,4) by (simp add: same_sync_def m)
  moreover have "queue_step st st'" unfolding queue_step_def using st'(5,6) by (intro exI [of _ "[]"]) (simp add: m)
  ultimately show ?thesis by blast
qed

lemma unblock_ok:
  assumes ok: "kernel_ok st" and c: "startable st c"
  shows "\<exists>st'. thread_unblock c st = Some st' \<and> kernel_ok st' \<and> queue_step st st' \<and> running st' = running st"
proof -
  note d = sched_okD [OF kernel_okD(1) [OF ok]]
  have c: "c \<in> set (all_list st)" "c \<noteq> idle_thread st" "status_of st c = THREAD_BLOCKED" "todo st c = []" "\<And>u. Start c \<notin> set (todo st u)"
    using c by (auto simp: startable_def)
  define m where "m = set_status c THREAD_READY (st\<lparr>ready_list := ready_list st @ [c]\<rparr>)"
  have m: "all_list m = all_list st" "idle_thread m = idle_thread st" "ready_list m = ready_list st @ [c]" "todo m = todo st" "thread_ticks m = thread_ticks st"
      "running m = running st" "holder m = holder st" "sema m = sema st" "status_of m t = (if t = c then THREAD_READY else status_of st t)"
      "is_thread m t = is_thread st t" "waits m t = waits st t" for t
    by (simp_all add: m_def is_thread_def waits_def)
  have w: "waits st c = None" using c(4) by (simp add: waits_def)
  have "thread_unblock c st = Some m" using c(1,3) queues_okD(3) [OF d(1) c(1)] by (simp add: thread_unblock_def m_def)
  moreover have "queues_ok m"
  proof (rule queues_okI, unfold m)
    show "distinct (ready_list st @ [c])" using queues_okD(5) [OF d(1)] queues_okD(6) [OF d(1), of c] c(3) by simp
    show "t \<in> set (ready_list st @ [c]) \<longleftrightarrow> t \<in> set (all_list st) \<and> t \<noteq> idle_thread st \<and> (if t = c then THREAD_READY else status_of st t) = THREAD_READY" for t
      using queues_okD(6) [OF d(1), of t] c by auto
    show "t \<in> set (waiters (sema st s)) \<longleftrightarrow> t \<in> set (all_list st) \<and> (if t = c then THREAD_READY else status_of st t) = THREAD_BLOCKED \<and> waits st t = Some s" for t s
      using queues_okD(8) [OF d(1), of t s] w by auto
  qed (use queues_okD [OF d(1)] in \<open>auto split: if_splits\<close>)
  moreover have "starts_ok m" using d(2) c(5) unfolding starts_ok_def m by metis
  moreover have "status_of m t = THREAD_RUNNING \<longleftrightarrow> t = running st" if "t \<in> set (all_list st)" for t
    using d(5) [OF that] c(3) by (auto simp: m)
  ultimately have "sched_ok m" using d(3) by (simp add: sched_ok_def m)
  moreover have "takers m s = takers st s" for s using w by (auto simp: takers_def m)
  ultimately have "kernel_ok m" using kernel_ok_switched [OF ok] by (simp add: same_sync_def m)
  moreover have "queue_step st m" by (auto simp: queue_step_def m)
  ultimately show ?thesis using \<open>thread_unblock c st = Some m\<close> m(6) by blast
qed

text \<open>Counters and the fields of a thread that the invariants do not mention.\<close>

lemma kernel_ok_ticks:
  assumes ok: "kernel_ok st" and n: "n < TIME_SLICE"
  shows "kernel_ok (st\<lparr>thread_ticks := n, idle_ticks := i, kernel_ticks := k, user_ticks := u\<rparr>)" (is "kernel_ok ?st")
proof (rule kernel_ok_switched [OF ok])
  note d = sched_okD [OF kernel_okD(1) [OF ok]]
  have f: "all_list ?st = all_list st" "idle_thread ?st = idle_thread st" "ready_list ?st = ready_list st" "todo ?st = todo st" "thr ?st = thr st"
      "running ?st = running st" "holder ?st = holder st" "sema ?st = sema st" "thread_ticks ?st = n"
      "is_thread ?st t = is_thread st t" "waits ?st t = waits st t" for t
    by (simp_all add: is_thread_def waits_def)
  have "queues_ok ?st" by (rule queues_okI, unfold f) (use queues_okD [OF d(1)] n in blast)+
  moreover have "starts_ok ?st" using d(2) unfolding starts_ok_def f .
  ultimately show "sched_ok ?st" using d(3,5) unfolding sched_ok_def f by blast
  show "same_sync st ?st" by (simp add: same_sync_def)
  show "\<forall>s. takers ?st s = takers st s \<and> waiters (sema ?st s) = waiters (sema st s)" by (simp add: takers_def waits_def)
qed

lemma kernel_ok_thr:
  assumes "\<forall>t. status (f t) = status_of st t \<and> magic (f t) = magic (thr st t)"
  shows "kernel_ok (st\<lparr>thr := f\<rparr>) = kernel_ok st"
proof -
  let ?st = "st\<lparr>thr := f\<rparr>"
  have "sched_ok ?st = sched_ok st" by (rule sched_ok_cong) (use assms in simp_all)
  moreover have "takers ?st s = takers st s" for s using assms by (simp add: takers_def waits_def)
  then have "wake_ok ?st = wake_ok st" by (simp add: wake_ok_def)
  moreover have "plans_ok ?st = plans_ok st" "locks_ok ?st = locks_ok st" using plans_ok_cong [of ?st st] locks_ok_cong [of ?st st] by simp_all
  ultimately show ?thesis by (simp add: kernel_ok_def)
qed

lemma act_Broadcast:
  assumes ok: "kernel_ok st" and td: "todo st (running st) = Broadcast c l # as"
  shows "kernel_ok (set_todo (running st) (Assert_held l # Cond_pop c # Broadcast c l # as) st)"
proof -
  let ?bs = "Assert_held l # Cond_pop c # Broadcast c l # as"
  note k = kernel_okD [OF ok]
  have p: "plan_ok (running st) {l. holder st l = running st} (Broadcast c l # as)" using k(5) [of "running st"] td by simp
  have "wake_ok (set_todo (running st) ?bs st)" by (rule wake_more [OF k(2)]) (simp add: waits_def td)
  moreover have "locks_ok (set_todo (running st) ?bs st)" using k(4) locks_ok_cong [of "set_todo (running st) ?bs st" st] td by simp
  moreover have "plan_ok (running st) {l. holder st l = running st} ?bs" using p plan_tail(1) [OF p] by (simp add: plan_ok_def)
  ultimately show ?thesis using finish_ok [OF k(1), of ?bs] k(5,6) td by simp
qed

lemma unblock_todo: "thread_unblock t (set_todo r as st) = map_option (set_todo r as) (thread_unblock t st)"
  by (cases "is_thread st t \<and> status_of st t = THREAD_BLOCKED") (auto simp: thread_unblock_def set_todo_def set_status_def is_thread_def)

lemma alloc_frames_ok:
  assumes "is_thread st t"
  shows "alloc_frames t st = Some (st\<lparr>thr := (thr st)(t := (thr st t)\<lparr>stack := stack (thr st t) - 44\<rparr>)\<rparr>)"
  using assms by (simp add: alloc_frames_def alloc_frame_def is_thread_def Let_def)

lemma act_Start:
  assumes ok: "kernel_ok st" and td: "todo st (running st) = Start t # as"
  shows "\<exists>st'. do_action (Start t) as st = Some st' \<and> kernel_ok st' \<and> queue_step st st'"
proof -
  let ?r = "running st"
  note k = kernel_okD [OF ok] and d = sched_okD [OF kernel_okD(1) [OF ok]]
  have as: "as = []" using plan_tail(6) [of ?r _ "Start t" as] k(5) [of ?r] td by fastforce
  define f where "f = (thr st)(t := (thr st t)\<lparr>stack := stack (thr st t) - 44\<rparr>)"
  define m where "m = set_todo ?r [] (st\<lparr>thr := f\<rparr>)"
  have mem: "Start t \<in> set (todo st ?r)" by (simp add: td)
  then have t: "t \<in> set (all_list st)" "t \<noteq> idle_thread st" "status_of st t = THREAD_BLOCKED" "todo st t = []"
    using d(2) unfolding starts_ok_def by blast+
  have "u = ?r" if "Start t \<in> set (todo st u)" for u using that mem d(2) unfolding starts_ok_def by blast
  then have "startable m t" using t by (auto simp: startable_def m_def f_def)
  moreover have "kernel_ok m"
  proof -
    have "kernel_ok (set_todo ?r [] st)" by (rule end_call [OF ok td]) simp_all
    then have "kernel_ok ((set_todo ?r [] st)\<lparr>thr := f\<rparr>)" using kernel_ok_thr [of f "set_todo ?r [] st"] by (simp add: f_def)
    moreover have "(set_todo ?r [] st)\<lparr>thr := f\<rparr> = m" by (simp add: m_def set_todo_def)
    ultimately show ?thesis by simp
  qed
  ultimately obtain st' where st': "thread_unblock t m = Some st'" "kernel_ok st'" "queue_step m st'" "running st' = running m" using unblock_ok by blast
  then obtain s1 where s1: "thread_unblock t (st\<lparr>thr := f\<rparr>) = Some s1" "st' = set_todo ?r [] s1" by (auto simp: m_def unblock_todo)
  then have "running s1 = ?r" using st'(4) by (simp add: m_def)
  then have "do_action (Start t) as st = Some st'" using s1 alloc_frames_ok [OF queues_okD(3) [OF d(1) t(1)]] by (simp add: as f_def)
  moreover have "queue_step st st'" using st'(3) queue_step_from [of m st st'] by (simp add: m_def)
  ultimately show ?thesis using st'(2) by blast
qed

text \<open>Every step of a call succeeds, keeps the invariants, and only moves the run queue on.\<close>

lemma do_action_ok:
  assumes ok: "kernel_ok st" and td: "todo st (running st) = a # as"
  shows "\<exists>st'. do_action a as st = Some st' \<and> kernel_ok st' \<and> queue_step st st'"
proof -
  let ?r = "running st"
  note k = kernel_okD [OF ok] and cur = sched_okD(7) [OF kernel_okD(1) [OF ok]]
  have p: "locks_plan {l. holder st l = ?r} (a # as)" using k(5) [of ?r] td by (simp add: plan_ok_def)
  note adv = advance [OF ok td]
  note sync = lock_held_by_current_thread_def cur
  show ?thesis
  proof (cases a)
    case (Down s)
    then show ?thesis using act_Down [OF ok td, of s as] by (auto simp: Let_def)
  next
    case (Up s)
    then show ?thesis using act_Up [OF ok td, of s] by auto
  next
    case (Try_down s)
    then show ?thesis using act_Try_down [OF ok, of s as] td by (simp add: sema_try_down_def)
  next
    case (Acquire l)
    then show ?thesis using adv [of st "Down_lock l # as"] p by (simp add: sync)
  next
    case (Down_lock l)
    then show ?thesis using act_Down [OF ok td, of "Lock_sema l" "Set_holder l # as"] by (auto simp: Let_def)
  next
    case (Set_holder l)
    then show ?thesis using act_Set_holder [OF ok, of l as] td by (auto simp: cur intro!: queue_same)
  next
    case (Release l)
    then show ?thesis using act_Release [OF ok, of l as] td by (auto simp: sync intro!: queue_same)
  next
    case (Up_lock l)
    then show ?thesis using act_Up [OF ok td, of "Lock_sema l"] by auto
  next
    case (Try_acquire l)
    obtain success st1 where "sema_try_down (Lock_sema l) st = (success, st1)" by fastforce
    then show ?thesis using act_Try_acquire [OF ok, of l as success st1] td Try_acquire by (simp add: sync)
  next
    case (Assert_held l)
    then show ?thesis using adv [of st as] p by (simp add: sync)
  next
    case (Cond_push c)
    then show ?thesis using act_Cond_push [OF ok, of c as] td by (simp add: Let_def sema_init_def)
  next
    case (Cond_pop c)
    then show ?thesis using adv [of st as] adv [of "st\<lparr>cond := (cond st)(c := tl (cond st c))\<rparr>" "Up (Waiter (hd (cond st c))) # as"] p
      by (cases "cond st c") simp_all
  next
    case (Broadcast c l)
    then show ?thesis using adv [of st as] act_Broadcast [OF ok, of c l as] p td by (auto intro: queue_same)
  next
    case Yield
    then have st0: "kernel_ok (set_todo ?r as st)" using adv [of st as] p by simp
    from yield_ok [OF this] show ?thesis using Yield queue_step_from [of "set_todo ?r as st" st] by auto
  next
    case Exit
    have "kernel_ok (set_todo ?r [] st)" by (rule end_call [OF ok td]) (simp_all add: Exit)
    from exit_ok [OF this] show ?thesis using Exit k(6) td queue_step_from [of "set_todo ?r [] st" st] by auto
  next
    case (Next_tid t)
    then show ?thesis using adv [of "update_thread t (tid_update (\<lambda>_. next_tid st)) (st\<lparr>next_tid := next_tid st + 1\<rparr>)" as] p
      by (simp add: update_thread_def)
  next
    case (Set_parent t)
    then show ?thesis using adv [of "update_thread t (parent_update (\<lambda>_. ?r)) st" as] p by (simp add: update_thread_def cur)
  next
    case (Push_child t)
    then show ?thesis using adv [of "update_thread (parent (thr st t)) (\<lambda>p. p\<lparr>children := children p @ [t]\<rparr>) st" as] p
      by (simp add: update_thread_def)
  next
    case (Start t)
    then show ?thesis using act_Start [OF ok, of t as] td by simp
  qed
qed

section \<open>Events\<close>

lemma init_ok:
  assumes ok: "kernel_ok st" and u: "unused_page st t" and pri: "PRI_MIN \<le> pri" "pri \<le> PRI_MAX"
  shows "\<exists>st'. init_thread t nm pri st = Some st' \<and> kernel_ok st' \<and> startable st' t \<and> running st' = running st \<and> idle_thread st' = idle_thread st
    \<and> holder st' = holder st \<and> todo st' = todo st \<and> ready_list st' = ready_list st \<and> thread_ticks st' = thread_ticks st"
proof -
  note d = sched_okD [OF kernel_okD(1) [OF ok]]
  have u: "t \<noteq> 0" "t \<notin> set (all_list st)" "waiters (sema st (Child_sema t)) = []" "waiters (sema st (Load_sema t)) = []" "waiters (sema st (Child_list_sema t)) = []"
    using u by (auto simp: unused_page_def)
  obtain st' where st': "init_thread t nm pri st = Some st'" using u(1) pri by (simp add: init_thread_def)
  then have f: "all_list st' = all_list st @ [t]" "idle_thread st' = idle_thread st" "ready_list st' = ready_list st" "todo st' = todo st"
      "thread_ticks st' = thread_ticks st" "running st' = running st" "holder st' = holder st"
      "status_of st' x = (if x = t then THREAD_BLOCKED else status_of st x)" "is_thread st' x = (x = t \<or> is_thread st x)" "waits st' x = waits st x"
      "waiters (sema st' s) = waiters (sema st s)" "s \<notin> {Child_sema t, Load_sema t, Child_list_sema t} \<Longrightarrow> sema st' s = sema st s" for x s
    using u pri by (auto simp: init_thread_def is_thread_def waits_def)
  have t: "t \<noteq> idle_thread st" "t \<noteq> running st" "todo st t = []" "waits st t = None"
    using u(2) queues_okD(2) [OF d(1)] queues_okD(11) [OF d(1) u(2)] d(3) by (auto simp: waits_def)
  have "queues_ok st'"
  proof (rule queues_okI, unfold f)
    show "x \<in> set (ready_list st) \<longleftrightarrow> x \<in> set (all_list st @ [t]) \<and> x \<noteq> idle_thread st \<and> (if x = t then THREAD_BLOCKED else status_of st x) = THREAD_READY" for x
      using queues_okD(6) [OF d(1), of x] u(2) by auto
    show "x \<in> set (waiters (sema st s)) \<longleftrightarrow> x \<in> set (all_list st @ [t]) \<and> (if x = t then THREAD_BLOCKED else status_of st x) = THREAD_BLOCKED \<and> waits st x = Some s" for x s
      using queues_okD(8) [OF d(1), of x s] t(4) u(2) by auto
    show "todo st x = [] \<or> waits st x \<noteq> None" if "x \<in> set (all_list st @ [t])" "(if x = t then THREAD_BLOCKED else status_of st x) = THREAD_BLOCKED" for x
      using that queues_okD(9) [OF d(1), of x] t(3) by (cases "x = t") auto
  qed (use queues_okD [OF d(1)] u(2) in \<open>auto split: if_splits\<close>)
  moreover have "starts_ok st'"
  proof -
    have "c \<noteq> t" if "Start c \<in> set (todo st x)" for c x using that d(2) u(2) by (auto simp: starts_ok_def)
    then show ?thesis using d(2) unfolding starts_ok_def f by (metis UnCI set_append)
  qed
  moreover have "status_of st' x = THREAD_RUNNING \<longleftrightarrow> x = running st" if "x \<in> set (all_list st @ [t])" for x
    using d(5) [of x] that t(2) by (auto simp: f)
  ultimately have sch: "sched_ok st'" using d(3) by (simp add: sched_ok_def f)
  have "takers st' s = takers st s" for s using t(4) by (auto simp: takers_def f)
  then have "wake_ok st'" using kernel_okD(2) [OF ok] u(3-5) f(12) unfolding wake_ok_def f by (metis insertE singletonD)
  moreover have "plans_ok st'" "locks_ok st'" using kernel_okD(3,4) [OF ok] plans_ok_cong [of st' st] locks_ok_cong [of st' st] f by simp_all
  ultimately have "kernel_ok st'" using sch by (simp add: kernel_ok_def)
  moreover have "startable st' t" using t u(2) d(2) unfolding startable_def starts_ok_def f by auto
  ultimately show ?thesis using st' f by blast
qed

lemma start_call:
  assumes ok: "kernel_ok st" and ni: "running st \<noteq> idle_thread st" and td: "todo st (running st) = []"
    and plan: "plan_ok (running st) {l. holder st l = running st} as" and busy: "\<forall>l. \<not> busy as l" and start: "\<forall>c. Start c \<in> set as \<longrightarrow> startable st c"
  shows "kernel_ok (set_todo (running st) as st)"
proof -
  note k = kernel_okD [OF ok]
  have "wake_ok (set_todo (running st) as st)" by (rule wake_more [OF k(2)]) (simp add: waits_def td)
  moreover have "locks_ok (set_todo (running st) as st)" using k(4) locks_ok_cong [of "set_todo (running st) as st" st] td busy by simp
  ultimately show ?thesis using finish_ok [OF k(1) ni, of as] k(5) plan start by simp
qed

lemma call_plan_ok:
  assumes "allowed st c"
  shows "plan_ok (running st) {l. holder st l = running st} (call_plan (running st) c)" and "\<not> busy (call_plan (running st) c) l"
    and "Start t \<in> set (call_plan (running st) c) \<Longrightarrow> t \<noteq> 0 \<and> (\<exists>nm pri. c = Thread_create t nm pri)"
  using assms by (cases c; auto simp: plan_ok_def split: if_splits)+

lemma begin_call_ok:
  assumes ok: "kernel_ok st" and en: "enabled (Call c) st"
  shows "\<exists>st'. begin_call c st = Some st' \<and> kernel_ok st' \<and> queue_step st st'"
proof -
  have en: "running st \<noteq> idle_thread st" "todo st (running st) = []" "allowed st c" using en by (simp_all add: enabled_def)
  note plan = call_plan_ok [OF en(3)]
  define pre where "pre = (case c of Thread_create t nm pri \<Rightarrow> if t = 0 then Some st else init_thread t nm pri st | Thread_set_priority p \<Rightarrow> thread_set_priority p st | _ \<Rightarrow> Some st)"
  have "\<exists>st1. pre = Some st1
    \<and> kernel_ok st1 \<and> running st1 = running st \<and> idle_thread st1 = idle_thread st \<and> holder st1 = holder st \<and> todo st1 = todo st
    \<and> ready_list st1 = ready_list st \<and> thread_ticks st1 = thread_ticks st \<and> (\<forall>t nm pri. c = Thread_create t nm pri \<longrightarrow> t \<noteq> 0 \<longrightarrow> startable st1 t)"
  proof (cases c)
    case (Thread_create t nm pri)
    then show ?thesis using init_ok [OF ok, of t pri nm] en(3) ok by (cases "t = 0") (auto simp: pre_def)
  next
    case (Thread_set_priority p)
    let ?f = "(thr st)(running st := (thr st (running st))\<lparr>priority := p\<rparr>)"
    have "kernel_ok (st\<lparr>thr := ?f\<rparr>)" using kernel_ok_thr [of ?f st] ok by simp
    then show ?thesis using Thread_set_priority sched_okD(7) [OF kernel_okD(1) [OF ok]] by (simp add: thread_set_priority_def pre_def)
  qed (use ok in \<open>simp_all add: pre_def\<close>)
  then obtain st1 where st1: "pre = Some st1" "kernel_ok st1"
      "running st1 = running st" "idle_thread st1 = idle_thread st" "holder st1 = holder st" "todo st1 = todo st"
      "ready_list st1 = ready_list st" "thread_ticks st1 = thread_ticks st" "\<forall>t nm pri. c = Thread_create t nm pri \<longrightarrow> t \<noteq> 0 \<longrightarrow> startable st1 t"
    by blast
  have "begin_call c st = Some (set_todo (running st1) (call_plan (running st1) c) st1)"
    using st1(1) unfolding begin_call_def pre_def by simp
  moreover have "kernel_ok (set_todo (running st1) (call_plan (running st1) c) st1)"
    unfolding st1(3) using start_call [OF st1(2), of "call_plan (running st) c"] en plan st1(9) unfolding st1(3-6) by blast
  moreover have "queue_step st (set_todo (running st1) (call_plan (running st1) c) st1)" using st1 by (intro queue_same) simp_all
  ultimately show ?thesis by blast
qed

lemma idle_ok:
  assumes ok: "kernel_ok st" and i: "running st = idle_thread st"
  shows "\<exists>st'. thread_block st = Some st' \<and> kernel_ok st' \<and> queue_step st st'"
proof -
  let ?r = "running st"
  note d = sched_okD [OF kernel_okD(1) [OF ok]]
  define m where "m = set_status ?r THREAD_BLOCKED st"
  have m: "all_list m = all_list st" "idle_thread m = idle_thread st" "ready_list m = ready_list st" "todo m = todo st" "thread_ticks m = thread_ticks st"
      "running m = ?r" "holder m = holder st" "sema m = sema st" "status_of m t = (if t = ?r then THREAD_BLOCKED else status_of st t)"
      "is_thread m t = is_thread st t" "waits m t = waits st t" for t
    by (simp_all add: m_def is_thread_def waits_def)
  have w: "waits st ?r = None" "todo st ?r = []" using waits_idle [OF d(1)] queues_okD(10) [OF d(1)] i by simp_all
  have "queues_ok m"
  proof (rule queues_okI, unfold m)
    show "t \<in> set (ready_list st) \<longleftrightarrow> t \<in> set (all_list st) \<and> t \<noteq> idle_thread st \<and> (if t = ?r then THREAD_BLOCKED else status_of st t) = THREAD_READY" for t
      using queues_okD(6) [OF d(1), of t] i by auto
    show "t \<in> set (waiters (sema st s)) \<longleftrightarrow> t \<in> set (all_list st) \<and> (if t = ?r then THREAD_BLOCKED else status_of st t) = THREAD_BLOCKED \<and> waits st t = Some s" for t s
      using queues_okD(8) [OF d(1), of t s] w by auto
    show "todo st t = [] \<or> waits st t \<noteq> None" if "t \<in> set (all_list st)" "(if t = ?r then THREAD_BLOCKED else status_of st t) = THREAD_BLOCKED" for t
      using that queues_okD(9) [OF d(1), of t] w by (cases "t = ?r") auto
  qed (use queues_okD [OF d(1)] in \<open>auto split: if_splits\<close>)
  moreover have "starts_ok m" using d(2) unfolding starts_ok_def m by metis
  moreover have "\<forall>t \<in> set (all_list m). status_of m t \<noteq> THREAD_RUNNING" "status_of m (running m) \<noteq> THREAD_RUNNING" using d(5) by (auto simp: m)
  ultimately obtain st' where st': "schedule m = Some st'" "sched_ok st'" "same_sync m st'" "\<forall>s. takers st' s = takers m s \<and> waiters (sema st' s) = waiters (sema m s)"
      "thread_ticks st' = 0" "case ready_list m of [] \<Rightarrow> ready_list st' = [] | t # ts \<Rightarrow> running st' = t \<and> ready_list st' = ts"
    using switch_ok [of m] by blast
  have "thread_block st = Some st'" using st'(1) d(7) by (simp add: thread_block_def m_def)
  moreover have "takers m s = takers st s" for s using w by (auto simp: takers_def m)
  then have "kernel_ok st'" using kernel_ok_switched [OF ok st'(2)] st'(3,4) by (simp add: same_sync_def m)
  moreover have "queue_step st st'" unfolding queue_step_def using st'(5,6) by (intro exI [of _ "[]"]) (simp add: m)
  ultimately show ?thesis by blast
qed

lemma yield_ticks: "thread_yield (st\<lparr>thread_ticks := n\<rparr>) = thread_yield st"
  by (cases "ready_list st"; cases "thread_current st")
    (simp_all add: thread_yield_def schedule_def next_thread_to_run_def thread_schedule_tail_def set_status_def thread_current_def is_thread_def Let_def)

text \<open>A tick either counts, or ends the time slice.\<close>

definition tick_step :: "kernel \<Rightarrow> kernel \<Rightarrow> bool" where
  "tick_step st st' \<longleftrightarrow>
     running st' = running st \<and> ready_list st' = ready_list st \<and> thread_ticks st' = thread_ticks st + 1
     \<or> thread_ticks st + 1 = TIME_SLICE \<and> thread_ticks st' = 0 \<and> queue_step (st\<lparr>thread_ticks := 0\<rparr>) st'
       \<and> (ready_list st \<noteq> [] \<longrightarrow> running st' = hd (ready_list st))"

lemma tick_ok:
  assumes ok: "kernel_ok st"
  shows "\<exists>st'. do_event Tick st = Some st' \<and> kernel_ok st' \<and> tick_step st st'"
proof -
  note d = sched_okD [OF kernel_okD(1) [OF ok]]
  obtain i k u where t: "thread_tick st = Some (TIME_SLICE \<le> thread_ticks st + 1, st\<lparr>thread_ticks := thread_ticks st + 1, idle_ticks := i, kernel_ticks := k, user_ticks := u\<rparr>)"
  proof (cases "running st = idle_thread st")
    case True
    then show ?thesis using d(7) by (intro that [of "user_ticks st" "kernel_ticks st" "idle_ticks st + 1"]) (simp add: thread_tick_def)
  next
    case False
    show ?thesis
    proof (cases "pagedir (thr st (running st)) = 0")
      case True
      then show ?thesis using False d(7) by (intro that [of "user_ticks st" "kernel_ticks st + 1" "idle_ticks st"]) (simp add: thread_tick_def)
    next
      case user: False
      then show ?thesis using False d(7) by (intro that [of "user_ticks st + 1" "kernel_ticks st" "idle_ticks st"]) (simp add: thread_tick_def)
    qed
  qed
  define m where "m = st\<lparr>thread_ticks := thread_ticks st + 1, idle_ticks := i, kernel_ticks := k, user_ticks := u\<rparr>"
  show ?thesis
  proof (cases "thread_ticks st + 1 < TIME_SLICE")
    case True
    then have "kernel_ok m" unfolding m_def by (rule kernel_ok_ticks [OF ok])
    then show ?thesis using True t by (simp add: do_event_def tick_step_def m_def)
  next
    case False
    define m0 where "m0 = st\<lparr>thread_ticks := 0, idle_ticks := i, kernel_ticks := k, user_ticks := u\<rparr>"
    have "kernel_ok m0" unfolding m0_def by (rule kernel_ok_ticks [OF ok]) (simp add: TIME_SLICE_def)
    then obtain st' where st': "thread_yield m0 = Some st'" "kernel_ok st'" "queue_step m0 st'" "thread_ticks st' = 0"
        "ready_list m0 \<noteq> [] \<longrightarrow> running st' = hd (ready_list m0)" using yield_ok by blast
    moreover have "m0 = m\<lparr>thread_ticks := 0\<rparr>" by (simp add: m_def m0_def)
    then have "thread_yield m = thread_yield m0" using yield_ticks by simp
    moreover have "queue_step (st\<lparr>thread_ticks := 0\<rparr>) st'" using st'(3) queue_step_from [of m0 "st\<lparr>thread_ticks := 0\<rparr>"] by (simp add: m0_def)
    moreover have "thread_ticks st + 1 = TIME_SLICE" using False queues_okD(12) [OF d(1)] by simp
    ultimately have "tick_step st st'" "thread_yield m = Some st'" by (auto simp: tick_step_def m0_def)
    moreover have "thread_tick st = Some (True, m)" using False t by (simp add: m_def)
    ultimately show ?thesis using st'(2) by (simp add: do_event_def)
  qed
qed

lemma intr_ok:
  assumes ok: "kernel_ok st" and s: "raw_sema s"
  shows "\<exists>st'. sema_up s st = Some st' \<and> kernel_ok st' \<and> queue_step st st'"
proof -
  note k = kernel_okD [OF ok]
  obtain st' where st': "sema_up s st = Some st'" "sched_ok st'" "holder st' = holder st" "todo st' = todo st" "queue_step st st'" "wake_ok st'"
      "\<forall>x. sema_value (sema st' x) = (if x = s then sema_value (sema st s) + 1 else sema_value (sema st x))"
    using sema_up_ok [OF k(1), of s] k(2) by blast
  have "Lock_sema l \<noteq> s" for l using s by auto
  then have "plans_ok st'" "locks_ok st'" using k(3,4) st'(3,4,7) plans_ok_cong [of st' st] locks_ok_cong [of st' st] by simp_all
  then show ?thesis using st' by (auto simp: kernel_ok_def)
qed

lemma do_event_ok:
  assumes ok: "kernel_ok st" and en: "enabled ev st"
  shows "\<exists>st'. do_event ev st = Some st' \<and> kernel_ok st' \<and> (if ev = Tick then tick_step st st' else queue_step st st')"
proof (cases ev)
  case (Call c)
  then show ?thesis using begin_call_ok [OF ok, of c] en by (simp add: do_event_def)
next
  case Act
  then obtain a as where "todo st (running st) = a # as" using en by (cases "todo st (running st)") (auto simp: enabled_def)
  then show ?thesis using do_action_ok [OF ok, of a as] Act by (simp add: do_event_def)
next
  case Tick
  then show ?thesis using tick_ok [OF ok] by simp
next
  case (Intr s)
  then show ?thesis using intr_ok [OF ok, of s] en by (simp add: do_event_def enabled_def)
next
  case Idle
  then show ?thesis using idle_ok [OF ok] en by (simp add: do_event_def enabled_def)
qed

section \<open>Runs\<close>

lemma run_ok: "kernel_run st evs st' \<Longrightarrow> kernel_ok st \<Longrightarrow> kernel_ok st'"
proof (induction rule: kernel_run.induct)
  case (run_Cons ev st st1 evs st2)
  then show ?case using do_event_ok [of st ev] by auto
qed

text \<open>The number of ticks after which a ready thread runs.\<close>

definition rank :: "kernel \<Rightarrow> u32 \<Rightarrow> nat" where
  "rank st t = TIME_SLICE * length (takeWhile (\<lambda>x. x \<noteq> t) (ready_list st)) + (TIME_SLICE - thread_ticks st)"

lemma queue_step_rank:
  assumes "queue_step st st'" and t: "t \<in> set (ready_list st)" and "thread_ticks st < TIME_SLICE"
  shows "running st' = t \<or> t \<in> set (ready_list st') \<and> (rank st' t < rank st t \<or> rank st' t = rank st t \<and> running st' = running st)"
proof -
  from assms(1) obtain new where
    "running st' = running st \<and> ready_list st' = ready_list st @ new \<and> thread_ticks st' = thread_ticks st
     \<or> thread_ticks st' = 0 \<and> (case ready_list st @ new of [] \<Rightarrow> ready_list st' = [] | t # ts \<Rightarrow> running st' = t \<and> ready_list st' = ts)"
    (is "?same \<or> ?switch") by (auto simp: queue_step_def)
  then show ?thesis
  proof
    assume ?same
    then show ?thesis using t by (simp add: rank_def takeWhile_append1 [of t])
  next
    assume s: ?switch
    obtain x xs where x: "ready_list st = x # xs" using t by (cases "ready_list st") auto
    then have s: "running st' = x" "ready_list st' = xs @ new" "thread_ticks st' = 0" using s by simp_all
    show ?thesis
    proof (cases "x = t")
      case False
      then have "t \<in> set xs" using t x by simp
      then have "t \<in> set (ready_list st')" "rank st' t < rank st t"
        using False x s assms(3) by (simp_all add: rank_def takeWhile_append1 [of t] TIME_SLICE_def)
      then show ?thesis by blast
    qed (simp add: s)
  qed
qed

lemma step_rank:
  assumes ok: "kernel_ok st" and en: "enabled ev st" and ev: "do_event ev st = Some st'" and t: "t \<in> set (ready_list st)"
  shows "running st' = t \<or> t \<in> set (ready_list st') \<and> rank st' t + (if ev = Tick then 1 else 0) \<le> rank st t"
proof -
  note d = sched_okD [OF kernel_okD(1) [OF ok]]
  have ticks: "thread_ticks st < TIME_SLICE" using queues_okD(12) [OF d(1)] .
  have step: "if ev = Tick then tick_step st st' else queue_step st st'" using do_event_ok [OF ok en] ev by auto
  show ?thesis
  proof (cases "ev = Tick")
    case False
    then show ?thesis using step queue_step_rank [OF _ t ticks, of st'] by auto
  next
    case True
    then have "tick_step st st'" using step by simp
    then show ?thesis unfolding tick_step_def
    proof
      assume a: "running st' = running st \<and> ready_list st' = ready_list st \<and> thread_ticks st' = thread_ticks st + 1"
      then have "rank st' t + 1 \<le> rank st t" using ticks unfolding rank_def TIME_SLICE_def by simp
      then show ?thesis using a t True by simp
    next
      let ?st = "st\<lparr>thread_ticks := 0\<rparr>"
      assume a: "thread_ticks st + 1 = TIME_SLICE \<and> thread_ticks st' = 0 \<and> queue_step ?st st' \<and> (ready_list st \<noteq> [] \<longrightarrow> running st' = hd (ready_list st))"
      have ne: "ready_list st \<noteq> []" using t by auto
      then have "hd (ready_list st) \<in> set (ready_list st)" by simp
      then have "running st' \<noteq> running st" using a ne queues_okD(6) [OF d(1), of "hd (ready_list st)"] d(4) by auto
      moreover obtain new where "running st' = running ?st \<and> ready_list st' = ready_list ?st @ new \<and> thread_ticks st' = thread_ticks ?st
        \<or> thread_ticks st' = 0 \<and> (case ready_list ?st @ new of [] \<Rightarrow> ready_list st' = [] | t # ts \<Rightarrow> running st' = t \<and> ready_list st' = ts)"
        using a unfolding queue_step_def by blast
      ultimately have s: "ready_list st' = tl (ready_list st) @ new" "running st' = hd (ready_list st)" "thread_ticks st' = 0" using ne by (cases "ready_list st"; simp)+
      show ?thesis
      proof (cases "hd (ready_list st) = t")
        case False
        then obtain x xs where "ready_list st = x # xs" "x \<noteq> t" "t \<in> set xs" using t by (cases "ready_list st") auto
        then show ?thesis using s a True by (simp add: rank_def takeWhile_append1 [of t] TIME_SLICE_def)
      qed (simp add: s)
    qed
  qed
qed

lemma ready_runs:
  assumes "kernel_run st evs st'" and "kernel_ok st" and "t \<in> set (ready_list st)" and "rank st t \<le> count_list evs Tick"
  shows "\<exists>evs1 evs2 st1. evs = evs1 @ evs2 \<and> kernel_run st evs1 st1 \<and> running st1 = t"
  using assms
proof (induction rule: kernel_run.induct)
  case (run_Nil st)
  then show ?case using queues_okD(12) [OF sched_okD(1) [OF kernel_okD(1)], of st] by (simp add: rank_def)
next
  case (run_Cons ev st st1 evs st2)
  have ok: "kernel_ok st1" using do_event_ok [OF run_Cons.prems(1) run_Cons.hyps(1)] run_Cons.hyps(2) by auto
  consider "running st1 = t" | "t \<in> set (ready_list st1)" "rank st1 t + (if ev = Tick then 1 else 0) \<le> rank st t"
    using step_rank [OF run_Cons.prems(1) run_Cons.hyps(1,2) run_Cons.prems(2)] by blast
  then show ?case
  proof cases
    case 1
    have "kernel_run st [ev] st1" using kernel_run.run_Cons [OF run_Cons.hyps(1,2) kernel_run.run_Nil] .
    then show ?thesis using 1 by (intro exI [of _ "[ev]"] exI [of _ evs] exI [of _ st1]) simp
  next
    case 2
    then have "rank st1 t \<le> count_list evs Tick" using run_Cons.prems(3) by (auto split: if_splits)
    from run_Cons.IH [OF ok 2(1) this] obtain evs1 evs2 st3 where e: "evs = evs1 @ evs2" "kernel_run st1 evs1 st3" "running st3 = t" by blast
    have "kernel_run st (ev # evs1) st3" using kernel_run.run_Cons [OF run_Cons.hyps(1,2) e(2)] .
    then show ?thesis using e by (intro exI [of _ "ev # evs1"] exI [of _ evs2] exI [of _ st3]) simp
  qed
qed

section \<open>Evaluation of runs\<close>

fun do_events :: "event list \<Rightarrow> kernel \<Rightarrow> kernel option" where
  "do_events [] st = Some st"
| "do_events (ev # evs) st = (if enabled ev st then do_event ev st \<bind> do_events evs else None)"

lemma do_events_run: "do_events evs st = Some st' \<longleftrightarrow> kernel_run st evs st'"
proof (induction evs arbitrary: st)
  case Nil
  then show ?case by (auto intro: run_Nil elim: run_NilE)
next
  case (Cons ev evs)
  show ?case
  proof
    assume e: "do_events (ev # evs) st = Some st'"
    then obtain st1 where "enabled ev st" "do_event ev st = Some st1" "do_events evs st1 = Some st'"
      by (cases "do_event ev st") (simp_all split: if_splits)
    then show "kernel_run st (ev # evs) st'" using Cons.IH run_Cons by blast
  next
    assume "kernel_run st (ev # evs) st'"
    then obtain st1 where "enabled ev st" "do_event ev st = Some st1" "kernel_run st1 evs st'" by (rule run_ConsE)
    then show "do_events (ev # evs) st = Some st'" using Cons.IH by simp
  qed
qed

text \<open>The value bound is evaluated before the rest.\<close>

lemma bind_weak: "x = y \<Longrightarrow> Option.bind x f = Option.bind y f"
  by simp

lemmas step_simps = set_status_def set_sema_def set_todo_def sema_init_def lock_init_def thread_current_def is_thread_def schedule_def
  next_thread_to_run_def thread_schedule_tail_def thread_block_def thread_unblock_def init_thread_def sema_down_def sema_up_def
  lock_held_by_current_thread_def begin_call_def update_thread_def PRI_MIN_def PRI_MAX_def PRI_DEFAULT_def tid_lock_def idle_started_def
  alloc_frames_ok Let_def eval_nat_numeral

text \<open>The state after the start of the kernel.\<close>

definition booted :: "u32 \<Rightarrow> u32 \<Rightarrow> kernel" where
  "booted m i = before_boot\<lparr>running := m, idle_thread := i, all_list := [m, i], next_tid := 3,
     thr := (thr before_boot)
       (i := \<lparr>tid = 2, status = THREAD_BLOCKED, name = [0x69, 0x64, 0x6c, 0x65], stack = i + 4052, priority = PRI_MIN, pagedir = 0,
              parent = m, children = [], magic = THREAD_MAGIC\<rparr>,
        m := \<lparr>tid = 1, status = THREAD_RUNNING, name = [0x6d, 0x61, 0x69, 0x6e], stack = m + 4096, priority = PRI_DEFAULT, pagedir = 0,
              parent = 0, children = [i], magic = THREAD_MAGIC\<rparr>),
     sema := (sema before_boot)(Child_list_sema m := \<lparr>sema_value = 1, waiters = []\<rparr>, Child_list_sema i := \<lparr>sema_value = 1, waiters = []\<rparr>)\<rparr>"

lemma boot_result:
  assumes "m \<noteq> 0" and "i \<noteq> 0" and "m \<noteq> i"
  shows "boot m i = Some (booted m i)"
  unfolding boot_def thread_init_def thread_start_def idle_begin_def booted_def before_boot_def
  using assms by (simp add: step_simps cong: bind_weak) (auto simp: fun_eq_iff)

lemma booted_ok:
  assumes "m \<noteq> 0" and "i \<noteq> 0" and "m \<noteq> i"
  shows "kernel_ok (booted m i)"
proof -
  let ?st = "booted m i"
  have f: "all_list ?st = [m, i]" "ready_list ?st = []" "running ?st = m" "idle_thread ?st = i" "todo ?st t = []" "holder ?st l = 0" "waits ?st t = None"
      "waiters (sema ?st s) = []" "sema_value (sema ?st (Lock_sema l)) = 1" "thread_ticks ?st = 0" for t l s
    by (simp_all add: booted_def before_boot_def waits_def)
  have t: "status_of ?st m = THREAD_RUNNING" "status_of ?st i = THREAD_BLOCKED" "is_thread ?st m" "is_thread ?st i"
    using assms by (simp_all add: booted_def is_thread_def)
  have "queues_ok ?st" using assms t by (auto simp: queues_ok_def f TIME_SLICE_def)
  moreover have "starts_ok ?st" by (simp add: starts_ok_def f)
  ultimately have "sched_ok ?st" using assms t by (simp add: sched_ok_def f)
  then show ?thesis by (simp add: kernel_ok_def wake_ok_def plans_ok_def plan_ok_def locks_ok_def owners_def f)
qed

text \<open>A run of any number of ticks, and a state in which a thread waits for the processor.\<close>

lemma ticks_run: "kernel_ok st \<Longrightarrow> \<exists>st'. kernel_run st (replicate n Tick) st'"
proof (induction n arbitrary: st)
  case 0
  show ?case using run_Nil by auto
next
  case (Suc n)
  obtain st1 where "do_event Tick st = Some st1" "kernel_ok st1" using tick_ok [OF Suc.prems] by blast
  moreover from Suc.IH [OF this(2)] obtain st2 where "kernel_run st1 (replicate n Tick) st2" ..
  ultimately show ?case using run_Cons [of Tick st] by (auto simp: enabled_def)
qed

definition create_events :: "u32 \<Rightarrow> event list" where
  "create_events t = Call (Thread_create t [0x74] 31) # replicate 11 Act"

definition lock_events :: "event list" where
  "lock_events = [Call (Lock_acquire 1), Act, Act, Act, Call Thread_yield, Act, Call (Lock_acquire 1), Act, Act]"

lemma pages_differ: "(0x1000 :: u32) \<noteq> 0" "(0x2000 :: u32) \<noteq> 0" "(0x3000 :: u32) \<noteq> 0" "(0x1000 :: u32) \<noteq> 0x2000" "(0x1000 :: u32) \<noteq> 0x3000" "(0x2000 :: u32) \<noteq> 0x3000"
  by simp_all

lemma created:
  assumes "m \<noteq> 0" "i \<noteq> 0" "t \<noteq> 0" "m \<noteq> i" "m \<noteq> t" "i \<noteq> t"
  shows "\<exists>st. kernel_run (booted m i) (create_events t) st \<and> running st = m \<and> ready_list st = [t]"
proof -
  have "\<exists>st. do_events (create_events t) (booted m i) = Some st \<and> running st = m \<and> ready_list st = [t]"
    using assms unfolding create_events_def booted_def before_boot_def
    by (simp add: step_simps enabled_def do_event_def unused_page_def cong: bind_weak)
  then show ?thesis by (simp add: do_events_run)
qed

lemma lock_waits:
  assumes "m \<noteq> 0" "i \<noteq> 0" "t \<noteq> 0" "m \<noteq> i" "m \<noteq> t" "i \<noteq> t"
  shows "\<exists>st. kernel_run (booted m i) (create_events t @ lock_events) st \<and> holder st 1 = m \<and> waiters (sema st (Lock_sema 1)) = [t]"
proof -
  have "\<exists>st. do_events (create_events t @ lock_events) (booted m i) = Some st \<and> holder st 1 = m \<and> waiters (sema st (Lock_sema 1)) = [t]"
    using assms unfolding create_events_def lock_events_def booted_def before_boot_def
    by (simp add: step_simps thread_yield_def enabled_def do_event_def unused_page_def cong: bind_weak)
  then show ?thesis by (simp add: do_events_run)
qed

section \<open>Properties\<close>





text \<open>
  C10: Mutual exclusion.  In every reachable state at most one thread owns a lock, where a thread
  owns it from the step in which it takes the semaphore of the lock, before \<open>holder\<close> is assigned,
  to the step in which it raises the semaphore, after \<open>holder\<close> has been cleared.  The semaphore is
  0 while a thread owns the lock, and 1 otherwise.
\<close>

theorem mutual_exclusion:
  assumes "kernel_ok st" and "kernel_run st evs st'"
  shows "(t \<in> owners st' l \<longrightarrow> u \<in> owners st' l \<longrightarrow> t = u) \<and> sema_value (sema st' (Lock_sema l)) = (if owners st' l = {} then 1 else 0)"
proof -
  have "sema_value (sema st' (Lock_sema l)) = 1 \<and> owners st' l = {} \<or> sema_value (sema st' (Lock_sema l)) = 0 \<and> (\<exists>t. owners st' l = {t})"
    using kernel_okD(4) [OF run_ok [OF assms(2,1)]] unfolding locks_ok_def by blast
  then show ?thesis by auto
qed

theorem mutual_exclusion_witness:
  "\<exists>st. kernel_run (booted 0x1000 0x2000) (create_events 0x3000 @ lock_events) st \<and> holder st 1 = 0x1000
    \<and> waiters (sema st (Lock_sema 1)) = [0x3000] \<and> (\<forall>u \<in> owners st 1. u = 0x1000)"
proof -
  obtain st where st: "kernel_run (booted 0x1000 0x2000) (create_events 0x3000 @ lock_events) st" "holder st 1 = 0x1000"
      "waiters (sema st (Lock_sema 1)) = [0x3000]" using lock_waits [OF pages_differ] by blast
  moreover have "0x1000 \<in> owners st 1" using st(2) by (simp add: owners_def)
  ultimately show ?thesis using mutual_exclusion [OF booted_ok [OF pages_differ(1,2,4)] st(1), of _ 1 "0x1000"] by blast
qed

text \<open>
  C12: No wakeup is lost.  When in a reachable state threads sleep on a semaphore whose value is not
  0, then at least as many threads as the value says are awake and about to take the semaphore;
  in particular a semaphore that nobody is about to take has value 0 or an empty wait list.
\<close>

theorem no_lost_wakeup:
  assumes "kernel_ok st" and "kernel_run st evs st'" and "waiters (sema st' s) \<noteq> []"
  shows "\<exists>ts. distinct ts \<and> length ts = unat (sema_value (sema st' s)) \<and>
    (\<forall>t \<in> set ts. t \<in> set (all_list st') \<and> status_of st' t \<in> {THREAD_RUNNING, THREAD_READY} \<and> (\<exists>a as. todo st' t = a # as \<and> wait_on a = Some s))"
proof -
  note k = kernel_okD [OF run_ok [OF assms(2,1)]]
  have "unat (sema_value (sema st' s)) \<le> card (takers st' s)" using k(2) assms(3) by (simp add: wake_ok_def)
  then obtain T where T: "T \<subseteq> takers st' s" "card T = unat (sema_value (sema st' s))" using obtain_subset_with_card_n by metis
  then have "finite T" using finite_subset [OF T(1)] by simp
  then obtain ts where ts: "set ts = T" "distinct ts" using finite_distinct_list by blast
  have "t \<in> set (all_list st') \<and> status_of st' t \<in> {THREAD_RUNNING, THREAD_READY} \<and> (\<exists>a as. todo st' t = a # as \<and> wait_on a = Some s)" if "t \<in> T" for t
  proof -
    have t: "t \<in> set (all_list st')" "status_of st' t \<noteq> THREAD_BLOCKED" "waits st' t = Some s" using that T(1) by (auto simp: takers_def)
    moreover have "status_of st' t \<noteq> THREAD_DYING" using queues_okD(4) [OF sched_okD(1) [OF k(1)] t(1)] .
    ultimately show ?thesis by (cases "status_of st' t") (auto simp: waits_def split: list.splits)
  qed
  then show ?thesis using ts T(2) distinct_card [OF ts(2)] by (intro exI [of _ ts]) auto
qed

theorem no_lost_wakeup_witness:
  "\<exists>st. kernel_run (booted 0x1000 0x2000) (create_events 0x3000 @ lock_events) st \<and> waiters (sema st (Lock_sema 1)) = [0x3000]
    \<and> (\<exists>ts. distinct ts \<and> length ts = unat (sema_value (sema st (Lock_sema 1)))
      \<and> (\<forall>t \<in> set ts. \<exists>a as. todo st t = a # as \<and> wait_on a = Some (Lock_sema 1)))"
proof -
  obtain st where st: "kernel_run (booted 0x1000 0x2000) (create_events 0x3000 @ lock_events) st" "waiters (sema st (Lock_sema 1)) = [0x3000]"
    using lock_waits [OF pages_differ] by blast
  have "waiters (sema st (Lock_sema 1)) \<noteq> []" using st(2) by simp
  from no_lost_wakeup [OF booted_ok [OF pages_differ(1,2,4)] st(1) this] show ?thesis using st by blast
qed

text \<open>
  C13: One list at a time.  \<open>elem\<close> of a thread serves the run queue and the wait lists; in every
  reachable state a thread is in at most one of them and in it only once, a thread in the run queue is
  ready, a thread in a wait list is blocked, and the running thread is in none of them.  Every
  thread but the idle thread is running, in a list, or has not been started yet.
\<close>

theorem elem_in_one_list:
  assumes "kernel_ok st" and "kernel_run st evs st'"
  shows "distinct (ready_list st') \<and> distinct (waiters (sema st' s))
    \<and> (t \<in> set (ready_list st') \<longrightarrow> status_of st' t = THREAD_READY \<and> t \<notin> set (waiters (sema st' s)) \<and> t \<noteq> running st')
    \<and> (t \<in> set (waiters (sema st' s)) \<longrightarrow> status_of st' t = THREAD_BLOCKED \<and> t \<noteq> running st' \<and> (\<forall>s'. t \<in> set (waiters (sema st' s')) \<longrightarrow> s' = s))
    \<and> (t \<in> set (all_list st') \<longrightarrow> t = idle_thread st' \<or> t = running st' \<or> t \<in> set (ready_list st') \<or> (\<exists>s. t \<in> set (waiters (sema st' s)))
        \<or> status_of st' t = THREAD_BLOCKED \<and> todo st' t = [])"
proof -
  note d = sched_okD [OF kernel_okD(1) [OF run_ok [OF assms(2,1)]]]
  note q = queues_okD [OF d(1)]
  have "t = idle_thread st' \<or> t = running st' \<or> t \<in> set (ready_list st') \<or> (\<exists>s. t \<in> set (waiters (sema st' s))) \<or> status_of st' t = THREAD_BLOCKED \<and> todo st' t = []"
    if t: "t \<in> set (all_list st')"
    using q(4) [OF t] q(6) [of t] q(8) [of t] q(9) [OF t] d(5) [OF t] t by (cases "status_of st' t") auto
  moreover have "t \<in> set (ready_list st') \<longrightarrow> status_of st' t = THREAD_READY \<and> t \<notin> set (waiters (sema st' s)) \<and> t \<noteq> running st'"
    using q(6) [of t] q(8) [of t s] d(4) by auto
  moreover have "t \<in> set (waiters (sema st' s)) \<longrightarrow> status_of st' t = THREAD_BLOCKED \<and> t \<noteq> running st' \<and> (\<forall>s'. t \<in> set (waiters (sema st' s')) \<longrightarrow> s' = s)"
    using q(8) [of t] d(4) by auto
  ultimately show ?thesis using q(5) q(7) [of s] by blast
qed

theorem elem_in_one_list_witness:
  "\<exists>st. kernel_run (booted 0x1000 0x2000) (create_events 0x3000 @ lock_events) st \<and> waiters (sema st (Lock_sema 1)) = [0x3000]
    \<and> status_of st 0x3000 = THREAD_BLOCKED \<and> 0x3000 \<notin> set (ready_list st) \<and> 0x3000 \<noteq> running st"
proof -
  obtain st where st: "kernel_run (booted 0x1000 0x2000) (create_events 0x3000 @ lock_events) st" "waiters (sema st (Lock_sema 1)) = [0x3000]"
    using lock_waits [OF pages_differ] by blast
  then show ?thesis using elem_in_one_list [OF booted_ok [OF pages_differ(1,2,4)] st(1), of "Lock_sema 1" "0x3000"] by auto
qed

text \<open>
  C11: No thread starves.  A thread at position \<open>k\<close> of the run queue becomes the running thread
  within \<open>TIME_SLICE * (k + 1)\<close> timer ticks, whatever the other threads and the interrupt handlers
  do in between; and the ticks never get stuck.
\<close>

theorem ready_thread_runs:
  assumes ok: "kernel_ok st" and k: "k < length (ready_list st)" and run: "kernel_run st evs st'" and n: "TIME_SLICE * (k + 1) \<le> count_list evs Tick"
  shows "\<exists>evs1 evs2 st1. evs = evs1 @ evs2 \<and> kernel_run st evs1 st1 \<and> running st1 = ready_list st ! k
    \<and> (\<exists>st2. kernel_run st' (replicate m Tick) st2)"
proof -
  have "length (takeWhile (\<lambda>x. x \<noteq> ready_list st ! k) (ready_list st)) \<le> k"
  proof (rule ccontr)
    assume "\<not> ?thesis"
    then have l: "k < length (takeWhile (\<lambda>x. x \<noteq> ready_list st ! k) (ready_list st))" by simp
    show False using nth_mem [OF l] takeWhile_nth [OF l] set_takeWhileD by metis
  qed
  then have "rank st (ready_list st ! k) \<le> TIME_SLICE * (k + 1)" by (simp add: rank_def TIME_SLICE_def)
  then show ?thesis using ready_runs [OF run ok, of "ready_list st ! k"] k n ticks_run [OF run_ok [OF run ok], of m] by fastforce
qed

theorem ready_thread_runs_witness:
  "\<exists>st st'. kernel_run (booted 0x1000 0x2000) (create_events 0x3000) st \<and> running st = 0x1000 \<and> ready_list st = [0x3000]
    \<and> kernel_run st (replicate 4 Tick) st' \<and> (\<exists>evs1 evs2 st1. replicate 4 Tick = evs1 @ evs2 \<and> kernel_run st evs1 st1 \<and> running st1 = 0x3000)"
proof -
  obtain st where st: "kernel_run (booted 0x1000 0x2000) (create_events 0x3000) st" "running st = 0x1000" "ready_list st = [0x3000]" 
    using created [OF pages_differ] by blast
  then have ok: "kernel_ok st" using run_ok booted_ok [OF pages_differ(1,2,4)] by blast
  then obtain st' where run: "kernel_run st (replicate 4 Tick) st'" using ticks_run by blast
  have "0 < length (ready_list st)" "TIME_SLICE * (0 + 1) \<le> count_list (replicate 4 Tick) Tick" using st by (simp_all add: TIME_SLICE_def eval_nat_numeral)
  then show ?thesis using ready_thread_runs [OF ok _ run, of 0] st run by (metis nth_Cons_0)
qed

end
