(* ===== verification/Inode.thy ===== *)
theory Inode
  imports Block Bitmap Kmem
begin

text \<open>
  filesys/inode.c: files on disk.  An inode occupies one sector and names the first of the
  consecutive sectors that hold the data.  The state \<open>fs\<close> has what the modules of the file system
  keep in memory: the open inodes and files, addressed like in the heap, the free map, and the
  block device.  \<open>heap\<close> has the results of the calls of \<open>malloc\<close> and \<open>calloc\<close> to come: any address, or 0
  when there is no memory.

  Offsets are natural numbers, as no caller passes a negative one (\<open>file_seek\<close> asserts it); the length
  on disk is a signed 32-bit number.
\<close>

section \<open>The state\<close>

definition INODE_MAGIC :: u32 where "INODE_MAGIC = 0x494e4f44"

record inode_disk =
  d_start :: u32
  d_length :: int
  d_magic :: u32

record inode =
  i_sector :: u32
  open_cnt :: int
  removed :: bool
  deny_write_cnt :: int
  i_data :: inode_disk

record open_file =
  f_inode :: nat
  f_pos :: nat
  f_deny_write :: bool

record fs =
  fs_bd :: blockdev
  fs_device :: block
  inodes :: "nat \<Rightarrow> inode"
  open_inodes :: "nat list"
  files :: "nat \<Rightarrow> open_file"
  free_map :: bitmap
  free_map_file :: nat
  heap :: "nat \<Rightarrow> nat"

definition malloc :: "fs \<Rightarrow> nat \<times> fs" where
  "malloc st = (heap st 0, st\<lparr>heap := (\<lambda>i. heap st (Suc i))\<rparr>)"

section \<open>Numbers and inodes on disk\<close>

definition le32 :: "u32 \<Rightarrow> u8 list" where
  "le32 v = [ucast v, ucast (drop_bit 8 v), ucast (drop_bit 16 v), ucast (drop_bit 24 v)]"

definition of_le32 :: "u8 list \<Rightarrow> u32" where
  "of_le32 bs = ucast (bs ! 0) OR push_bit 8 (ucast (bs ! 1)) OR push_bit 16 (ucast (bs ! 2)) OR push_bit 24 (ucast (bs ! 3))"

lemma of_le32_le32 [simp]: "of_le32 (le32 v @ bs) = v" "of_le32 (le32 v) = v"
  by (simp_all add: le32_def of_le32_def numeral_2_eq_2 numeral_3_eq_3 word_of_bytes)

lemma length_le32 [simp]: "length (le32 v) = 4"
  by (simp add: le32_def)

text \<open>\<open>disk_bytes\<close> is the memory of a \<open>struct inode_disk\<close> that \<open>calloc\<close> cleared, \<open>disk_inode\<close> what is read from a sector.\<close>

definition disk_bytes :: "inode_disk \<Rightarrow> sector" where
  "disk_bytes d = le32 (d_start d) @ le32 (word_of_int (d_length d)) @ le32 (d_magic d) @ replicate 500 0"

definition disk_inode :: "sector \<Rightarrow> inode_disk" where
  "disk_inode bs = \<lparr>d_start = of_le32 bs, d_length = sint (of_le32 (drop 4 bs)), d_magic = of_le32 (drop 8 bs)\<rparr>"

lemma length_disk_bytes [simp]: "length (disk_bytes d) = 512"
  by (simp add: disk_bytes_def)

lemma disk_inode_bytes:
  assumes "0 \<le> d_length d" and "d_length d < 2 ^ 31"
  shows "disk_inode (disk_bytes d) = d"
proof -
  have "sint (word_of_int (d_length d) :: u32) = d_length d"
    using assms by (simp add: int_word_sint)
  then show ?thesis by (simp add: disk_inode_def disk_bytes_def)
qed

section \<open>Reading and writing\<close>

definition byte_to_sector :: "inode_disk \<Rightarrow> nat \<Rightarrow> u32" where
  "byte_to_sector d pos = (if int pos < d_length d then d_start d + of_nat (pos div BLOCK_SECTOR_SIZE) else -1)"

text \<open>The size of the next chunk: what is asked for, what is left of the file and of the sector.\<close>

definition chunk_size :: "inode_disk \<Rightarrow> nat \<Rightarrow> nat \<Rightarrow> nat" where
  "chunk_size d sz offset =
     (let inode_left = d_length d - int offset;
          sector_left = int (BLOCK_SECTOR_SIZE - offset mod BLOCK_SECTOR_SIZE);
          min_left = (if inode_left < sector_left then inode_left else sector_left)
      in nat (if int sz < min_left then int sz else min_left))"

text \<open>
  \<open>mem\<close>: whether there is memory for the bounce buffer, for which \<open>malloc\<close> is asked at most once in a
  call.  The bytes that were read are the result.
\<close>

function read_loop :: "block \<Rightarrow> inode_disk \<Rightarrow> bool \<Rightarrow> nat \<Rightarrow> nat \<Rightarrow> blockdev \<Rightarrow> (u8 list \<times> blockdev) option" where
  "read_loop dev d mem sz offset bd =
     (let sector_ofs = offset mod BLOCK_SECTOR_SIZE; chunk = chunk_size d sz offset in
      if sz = 0 \<or> chunk = 0 then Some ([], bd)
      else if sector_ofs = 0 \<and> chunk = BLOCK_SECTOR_SIZE then do {
        (buffer, bd) \<leftarrow> block_read dev (byte_to_sector d offset) bd;
        (rest, bd) \<leftarrow> read_loop dev d mem (sz - chunk) (offset + chunk) bd;
        Some (buffer @ rest, bd)
      } else if \<not> mem then Some ([], bd)
      else do {
        (bounce, bd) \<leftarrow> block_read dev (byte_to_sector d offset) bd;
        (rest, bd) \<leftarrow> read_loop dev d mem (sz - chunk) (offset + chunk) bd;
        Some (take chunk (drop sector_ofs bounce) @ rest, bd)
      })"
  by pat_completeness auto
termination
  by (relation "measure (\<lambda>(dev, d, mem, sz, offset, bd). sz)") auto

definition inode_read_at :: "nat \<Rightarrow> nat \<Rightarrow> nat \<Rightarrow> fs \<Rightarrow> (u8 list \<times> fs) option" where
  "inode_read_at ip sz offset st = do {
     let (bounce, st) = malloc st;
     (bs, bd) \<leftarrow> read_loop (fs_device st) (i_data (inodes st ip)) (bounce \<noteq> 0) sz offset (fs_bd st);
     Some (bs, st\<lparr>fs_bd := bd\<rparr>)
   }"

text \<open>\<open>buffer\<close> holds the bytes that are left to write.\<close>

function write_loop :: "block \<Rightarrow> inode_disk \<Rightarrow> bool \<Rightarrow> u8 list \<Rightarrow> nat \<Rightarrow> blockdev \<Rightarrow> (nat \<times> blockdev) option" where
  "write_loop dev d mem buffer offset bd =
     (let sector_ofs = offset mod BLOCK_SECTOR_SIZE; sector_left = BLOCK_SECTOR_SIZE - sector_ofs;
          chunk = chunk_size d (length buffer) offset; sector_idx = byte_to_sector d offset in
      if buffer = [] \<or> chunk = 0 then Some (0, bd)
      else if sector_ofs = 0 \<and> chunk = BLOCK_SECTOR_SIZE then do {
        bd \<leftarrow> block_write dev sector_idx (take chunk buffer) bd;
        (n, bd) \<leftarrow> write_loop dev d mem (drop chunk buffer) (offset + chunk) bd;
        Some (chunk + n, bd)
      } else if \<not> mem then Some (0, bd)
      else do {
        (bounce, bd) \<leftarrow> (if sector_ofs > 0 \<or> chunk < sector_left then block_read dev sector_idx bd
                         else Some (replicate BLOCK_SECTOR_SIZE 0, bd));
        let bounce = take sector_ofs bounce @ take chunk buffer @ drop (sector_ofs + chunk) bounce;
        bd \<leftarrow> block_write dev sector_idx bounce bd;
        (n, bd) \<leftarrow> write_loop dev d mem (drop chunk buffer) (offset + chunk) bd;
        Some (chunk + n, bd)
      })"
  by pat_completeness auto
termination
  by (relation "measure (\<lambda>(dev, d, mem, buffer, offset, bd). length buffer)") auto

definition inode_write_at :: "nat \<Rightarrow> u8 list \<Rightarrow> nat \<Rightarrow> fs \<Rightarrow> (nat \<times> fs) option" where
  "inode_write_at ip buffer offset st =
     (if deny_write_cnt (inodes st ip) \<noteq> 0 then Some (0, st)
      else do {
        let (bounce, st) = malloc st;
        (n, bd) \<leftarrow> write_loop (fs_device st) (i_data (inodes st ip)) (bounce \<noteq> 0) buffer offset (fs_bd st);
        Some (n, st\<lparr>fs_bd := bd\<rparr>)
      })"

section \<open>Open inodes\<close>

definition set_inode :: "nat \<Rightarrow> inode \<Rightarrow> fs \<Rightarrow> fs" where
  "set_inode ip i st = st\<lparr>inodes := (inodes st)(ip := i)\<rparr>"

definition inode_init :: "fs \<Rightarrow> fs" where
  "inode_init st = st\<lparr>open_inodes := []\<rparr>"

definition inode_reopen :: "nat \<Rightarrow> fs \<Rightarrow> nat \<times> fs" where
  "inode_reopen ip st =
     (ip, if ip \<noteq> 0 then set_inode ip ((inodes st ip)\<lparr>open_cnt := open_cnt (inodes st ip) + 1\<rparr>) st else st)"

definition inode_open :: "u32 \<Rightarrow> fs \<Rightarrow> (nat \<times> fs) option" where
  "inode_open sector st =
     (case List.find (\<lambda>ip. i_sector (inodes st ip) = sector) (open_inodes st) of
        Some ip \<Rightarrow> Some (inode_reopen ip st)
      | None \<Rightarrow>
          let (addr, st) = malloc st in
          if addr = 0 then Some (0, st)
          else do {
            let st = st\<lparr>open_inodes := addr # open_inodes st\<rparr>;
            (bs, bd) \<leftarrow> block_read (fs_device st) sector (fs_bd st);
            Some (addr, set_inode addr \<lparr>i_sector = sector, open_cnt = 1, removed = False, deny_write_cnt = 0, i_data = disk_inode bs\<rparr>
                          (st\<lparr>fs_bd := bd\<rparr>))
          })"

definition inode_get_inumber :: "nat \<Rightarrow> fs \<Rightarrow> u32" where
  "inode_get_inumber ip st = i_sector (inodes st ip)"

definition inode_remove :: "nat \<Rightarrow> fs \<Rightarrow> fs option" where
  "inode_remove ip st = do {
     ASSERT (ip \<noteq> 0);
     Some (set_inode ip ((inodes st ip)\<lparr>removed := True\<rparr>) st)
   }"

definition inode_deny_write :: "nat \<Rightarrow> fs \<Rightarrow> fs option" where
  "inode_deny_write ip st = do {
     let i = (inodes st ip)\<lparr>deny_write_cnt := deny_write_cnt (inodes st ip) + 1\<rparr>;
     ASSERT (deny_write_cnt i \<le> open_cnt i);
     Some (set_inode ip i st)
   }"

definition inode_allow_write :: "nat \<Rightarrow> fs \<Rightarrow> fs option" where
  "inode_allow_write ip st = do {
     let i = inodes st ip;
     ASSERT (deny_write_cnt i > 0);
     ASSERT (deny_write_cnt i \<le> open_cnt i);
     Some (set_inode ip (i\<lparr>deny_write_cnt := deny_write_cnt i - 1\<rparr>) st)
   }"

definition inode_length :: "nat \<Rightarrow> fs \<Rightarrow> int" where
  "inode_length ip st = d_length (i_data (inodes st ip))"

section \<open>The bytes of a file\<close>

declare read_loop.simps [simp del] write_loop.simps [simp del]

text \<open>
  \<open>full_dev\<close>: every sector has its 512 bytes.  \<open>in_dev\<close>: the data sectors of the inode are on the
  device.  \<open>file_bytes\<close> are the contents of the file.
\<close>

definition full_dev :: "block \<Rightarrow> blockdev \<Rightarrow> bool" where
  "full_dev dev bd \<longleftrightarrow> valid_block dev \<and> (\<forall>s. length (dev_sector dev bd s) = 512)"

definition data_sectors :: "inode_disk \<Rightarrow> nat" where
  "data_sectors d = (nat (d_length d) + 511) div 512"

definition in_dev :: "block \<Rightarrow> inode_disk \<Rightarrow> bool" where
  "in_dev dev d \<longleftrightarrow> unat (d_start d) + data_sectors d \<le> unat (blk_size dev)"

definition file_byte :: "(u32 \<Rightarrow> sector) \<Rightarrow> inode_disk \<Rightarrow> nat \<Rightarrow> u8" where
  "file_byte sec d i = sec (d_start d + of_nat (i div 512)) ! (i mod 512)"

definition file_bytes :: "(u32 \<Rightarrow> sector) \<Rightarrow> inode_disk \<Rightarrow> u8 list" where
  "file_bytes sec d = map (file_byte sec d) [0..<nat (d_length d)]"

lemma length_file_bytes [simp]: "length (file_bytes sec d) = nat (d_length d)"
  by (simp add: file_bytes_def)

lemma sector_index: "i < nat (d_length d) \<Longrightarrow> i div 512 < data_sectors d"
  by (simp add: data_sectors_def less_eq_div_iff_mult_less_eq Suc_le_eq [symmetric])

lemma sector_in_dev:
  assumes "in_dev dev d" and "i < nat (d_length d)"
  shows "unat (d_start d + of_nat (i div 512)) = unat (d_start d) + i div 512" and "d_start d + of_nat (i div 512) < blk_size dev"
proof -
  have "i div 512 < data_sectors d" using sector_index [OF assms(2)] .
  then have b: "unat (d_start d) + i div 512 < unat (blk_size dev)" using assms(1) by (simp add: in_dev_def)
  then have "unat (of_nat (i div 512) :: u32) = i div 512" using unat_bound [of "blk_size dev"] by (simp add: unat_of_nat)
  then show e: "unat (d_start d + of_nat (i div 512)) = unat (d_start d) + i div 512"
    using b unat_bound [of "blk_size dev"] by (simp add: unat_word_ariths)
  then show "d_start d + of_nat (i div 512) < blk_size dev" using b by (simp add: word_less_nat_alt)
qed

lemma chunk_bounds:
  assumes "0 < sz" and "offset < nat (d_length d)"
  shows "0 < chunk_size d sz offset" and "chunk_size d sz offset \<le> sz" and "offset + chunk_size d sz offset \<le> nat (d_length d)"
    and "offset mod 512 + chunk_size d sz offset \<le> 512"
  using assms by (auto simp: chunk_size_def Let_def)

lemma chunk_end: "nat (d_length d) \<le> offset \<Longrightarrow> chunk_size d sz offset = 0"
  by (auto simp: chunk_size_def Let_def)

text \<open>A chunk lies in one sector.\<close>

lemma same_sector:
  assumes "p mod 512 + i < (512 :: nat)"
  shows "(p + i) div 512 = p div 512" and "(p + i) mod 512 = p mod 512 + i"
proof -
  have e: "p + i = (p mod 512 + i) + p div 512 * 512" by (simp add: mult.commute)
  show "(p + i) div 512 = p div 512" using assms by (subst e, subst div_mult_self1) simp_all
  show "(p + i) mod 512 = p mod 512 + i" using assms by (subst e, subst mod_mult_self1) simp_all
qed

lemma chunk_bytes:
  assumes "p mod 512 + c \<le> 512" and "length (sec (d_start d + of_nat (p div 512))) = 512"
  shows "map (file_byte sec d) [p..<p + c] = take c (drop (p mod 512) (sec (d_start d + of_nat (p div 512))))"
proof (rule nth_equalityI)
  fix i
  assume "i < length (map (file_byte sec d) [p..<p + c])"
  then have i: "i < c" by simp
  then have "(p + i) div 512 = p div 512" "(p + i) mod 512 = p mod 512 + i"
    using assms(1) same_sector [of p i] by simp_all
  then show "map (file_byte sec d) [p..<p + c] ! i = take c (drop (p mod 512) (sec (d_start d + of_nat (p div 512)))) ! i"
    using i assms by (simp add: file_byte_def)
qed (use assms in simp)

lemma read_loop_ok:
  assumes "full_dev dev bd" and "in_dev dev d"
  shows "\<exists>bd'. read_loop dev d True sz p bd = Some (map (file_byte (dev_sector dev bd) d) [p..<p + min sz (nat (d_length d) - p)], bd')
    \<and> dev_sector dev bd' = dev_sector dev bd"
  using assms(1)
proof (induction sz arbitrary: p bd rule: less_induct)
  case (less sz)
  let ?c = "chunk_size d sz p" and ?s = "byte_to_sector d p"
  show ?case
  proof (cases "0 < sz \<and> p < nat (d_length d)")
    case False
    then show ?thesis using chunk_end [of d p sz] by (auto simp: read_loop.simps [of dev d] Let_def)
  next
    case True
    note c = chunk_bounds [of sz p d] and full = less.prems
    have s: "?s = d_start d + of_nat (p div 512)" using True by (auto simp: byte_to_sector_def)
    obtain bd1 where bd1: "block_read dev ?s bd = Some (dev_sector dev bd ?s, bd1)" "dev_sector dev bd1 = dev_sector dev bd"
      using blk.read_law [of dev ?s bd] full sector_in_dev(2) [OF assms(2), of p] True s by (auto simp: full_dev_def)
    have full1: "full_dev dev bd1" using full bd1(2) by (simp add: full_dev_def)
    obtain bd2 where bd2: "read_loop dev d True (sz - ?c) (p + ?c) bd1
        = Some (map (file_byte (dev_sector dev bd) d) [p + ?c..<p + ?c + min (sz - ?c) (nat (d_length d) - (p + ?c))], bd2)"
      "dev_sector dev bd2 = dev_sector dev bd"
      using less.IH [OF _ full1, of "sz - ?c" "p + ?c"] True c(1) bd1(2) by auto
    have split: "map (file_byte (dev_sector dev bd) d) [p..<p + min sz (nat (d_length d) - p)]
        = map (file_byte (dev_sector dev bd) d) [p..<p + ?c] @ map (file_byte (dev_sector dev bd) d) [p + ?c..<p + ?c + min (sz - ?c) (nat (d_length d) - (p + ?c))]"
    proof -
      have "min sz (nat (d_length d) - p) = ?c + min (sz - ?c) (nat (d_length d) - (p + ?c))" using c True by (auto simp: min_def)
      then show ?thesis using upt_add_eq_append [of p "p + ?c" "min (sz - ?c) (nat (d_length d) - (p + ?c))"] by (simp add: add.assoc)
    qed
    have "map (file_byte (dev_sector dev bd) d) [p..<p + ?c] = take ?c (drop (p mod 512) (dev_sector dev bd ?s))"
      using chunk_bytes [of p ?c "dev_sector dev bd" d] c True full s by (simp add: full_dev_def)
    moreover have "length (dev_sector dev bd ?s) = 512" using full by (simp add: full_dev_def)
    ultimately show ?thesis using bd1 bd2 c True unfolding split
      by (cases "p mod 512 = 0 \<and> ?c = 512"; subst read_loop.simps) (auto simp: Let_def)
  qed
qed

text \<open>Writing a chunk changes the bytes of the chunk.\<close>

lemma nth_patch:
  assumes "length old = 512" and "r0 + c \<le> 512" and "c \<le> length buf" and "r < 512"
  shows "(take r0 old @ take c buf @ drop (r0 + c) old) ! r = (if r0 \<le> r \<and> r < r0 + c then buf ! (r - r0) else old ! r)"
  using assms by (auto simp: nth_append)

lemma write_chunk:
  assumes "in_dev dev d" and "length (sec (d_start d + of_nat (p div 512))) = 512" and "p < nat (d_length d)" and "i < nat (d_length d)"
    and "p mod 512 + c \<le> 512" and "c \<le> length buf"
  shows "file_byte (sec(d_start d + of_nat (p div 512) := take (p mod 512) (sec (d_start d + of_nat (p div 512))) @ take c buf
           @ drop (p mod 512 + c) (sec (d_start d + of_nat (p div 512))))) d i
    = (if p \<le> i \<and> i < p + c then buf ! (i - p) else file_byte sec d i)"
proof (cases "i div 512 = p div 512")
  case True
  have "p \<le> i \<and> i < p + c \<longleftrightarrow> p mod 512 \<le> i mod 512 \<and> i mod 512 < p mod 512 + c" "i - p = i mod 512 - p mod 512"
    using True div_mult_mod_eq [of i 512] div_mult_mod_eq [of p 512] by linarith+
  then show ?thesis using True nth_patch [OF assms(2,5,6), of "i mod 512"] by (simp add: file_byte_def)
next
  case False
  have "d_start d + of_nat (i div 512) \<noteq> d_start d + (of_nat (p div 512) :: u32)"
    using False sector_in_dev(1) [OF assms(1,3)] sector_in_dev(1) [OF assms(1,4)] by (metis add_left_cancel)
  moreover have "\<not> (p \<le> i \<and> i < p + c)"
  proof
    assume "p \<le> i \<and> i < p + c"
    then have "(p + (i - p)) div 512 = p div 512" using assms(5) by (intro same_sector(1)) auto
    then show False using False \<open>p \<le> i \<and> i < p + c\<close> by simp
  qed
  ultimately show ?thesis unfolding file_byte_def by auto
qed

lemma write_loop_ok:
  assumes "full_dev dev bd" and "in_dev dev d"
  shows "\<exists>bd'. write_loop dev d True buf p bd = Some (min (length buf) (nat (d_length d) - p), bd') \<and> full_dev dev bd'
    \<and> (\<forall>i < nat (d_length d). file_byte (dev_sector dev bd') d i
         = (if p \<le> i \<and> i < p + min (length buf) (nat (d_length d) - p) then buf ! (i - p) else file_byte (dev_sector dev bd) d i))
    \<and> (\<forall>s. unat s < unat (d_start d) \<or> unat (d_start d) + data_sectors d \<le> unat s \<longrightarrow> dev_sector dev bd' s = dev_sector dev bd s)"
  using assms(1)
proof (induction "length buf" arbitrary: buf p bd rule: less_induct)
  case (less buf)
  let ?c = "chunk_size d (length buf) p" and ?s = "byte_to_sector d p"
  show ?case
  proof (cases "0 < length buf \<and> p < nat (d_length d)")
    case False
    then show ?thesis using chunk_end [of d p "length buf"] less.prems by (auto simp: write_loop.simps [of dev d] Let_def)
  next
    case True
    note c = chunk_bounds [of "length buf" p d] and full = less.prems
    have s: "?s = d_start d + of_nat (p div 512)" using True by (auto simp: byte_to_sector_def)
    note sd = sector_in_dev [OF assms(2), of p]
    let ?D = "take (p mod 512) (dev_sector dev bd ?s) @ take ?c buf @ drop (p mod 512 + ?c) (dev_sector dev bd ?s)"
    have lD: "length ?D = 512" using c True full by (simp add: full_dev_def)
    obtain bd0 where bd0: "block_read dev ?s bd = Some (dev_sector dev bd ?s, bd0)" "dev_sector dev bd0 = dev_sector dev bd"
      using blk.read_law [of dev ?s bd] full sd(2) True s by (auto simp: full_dev_def)
    obtain bd1 where bd1: "(if p mod 512 = 0 \<and> ?c = 512 then block_write dev ?s ?D bd else block_write dev ?s ?D bd0) = Some bd1"
        "dev_sector dev bd1 = (dev_sector dev bd)(?s := ?D)"
      using blk.write_law [of dev ?s ?D bd] blk.write_law [of dev ?s ?D bd0] bd0(2) full sd(2) True s
      by (cases "p mod 512 = 0 \<and> ?c = 512") (auto simp: full_dev_def)
    have full1: "full_dev dev bd1" using full bd1(2) lD by (simp add: full_dev_def)
    have lt: "length (drop ?c buf) < length buf" using c(1) True by simp
    obtain bd2 where bd2: "write_loop dev d True (drop ?c buf) (p + ?c) bd1 = Some (min (length buf - ?c) (nat (d_length d) - (p + ?c)), bd2)"
        "full_dev dev bd2"
        "\<forall>i < nat (d_length d). file_byte (dev_sector dev bd2) d i = (if p + ?c \<le> i \<and> i < p + ?c + min (length buf - ?c) (nat (d_length d) - (p + ?c))
           then drop ?c buf ! (i - (p + ?c)) else file_byte (dev_sector dev bd1) d i)"
        "\<forall>s. unat s < unat (d_start d) \<or> unat (d_start d) + data_sectors d \<le> unat s \<longrightarrow> dev_sector dev bd2 s = dev_sector dev bd1 s"
      using less.hyps [OF lt full1, of "p + ?c"] unfolding length_drop by (elim exE conjE) (rule that)
    have k: "min (length buf) (nat (d_length d) - p) = ?c + min (length buf - ?c) (nat (d_length d) - (p + ?c))" using c True by (auto simp: min_def)
    have bytes: "file_byte (dev_sector dev bd2) d i = (if p \<le> i \<and> i < p + min (length buf) (nat (d_length d) - p) then buf ! (i - p) else file_byte (dev_sector dev bd) d i)"
      if "i < nat (d_length d)" for i
    proof -
      have "file_byte (dev_sector dev bd1) d i = (if p \<le> i \<and> i < p + ?c then buf ! (i - p) else file_byte (dev_sector dev bd) d i)"
        using write_chunk [OF assms(2), of "dev_sector dev bd" p i ?c buf] that c True full bd1(2) s by (simp add: full_dev_def)
      moreover have "drop ?c buf ! (i - (p + ?c)) = buf ! (i - p)" if "p + ?c \<le> i" using that c True by simp
      ultimately show ?thesis using bd2(3) that unfolding k by auto
    qed
    have other: "dev_sector dev bd2 x = dev_sector dev bd x" if "unat x < unat (d_start d) \<or> unat (d_start d) + data_sectors d \<le> unat x" for x
    proof -
      have "p div 512 < data_sectors d" using True sector_index by blast
      then have "x \<noteq> ?s" using that sd(1) True s by auto
      moreover have "dev_sector dev bd2 x = dev_sector dev bd1 x" using bd2(4) that by blast
      ultimately show ?thesis using bd1(2) by simp
    qed
    have "write_loop dev d True buf p bd = Some (?c + min (length buf - ?c) (nat (d_length d) - (p + ?c)), bd2)"
    proof (cases "p mod 512 = 0 \<and> ?c = 512")
      case whole: True
      then have "take ?c buf = ?D" using full by (simp add: full_dev_def)
      then show ?thesis using bd1(1) bd2(1) c True whole by (subst write_loop.simps) (simp add: Let_def)
    next
      case False
      then have "0 < p mod 512 \<or> ?c < 512 - p mod 512" using c True by auto
      moreover note w = bd1(1) [unfolded if_not_P [OF False]]
      ultimately show ?thesis using bd0(1) bd2(1) c True by (subst write_loop.simps) (simp add: Let_def if_not_P [OF False])
    qed
    then show ?thesis using bd2(2) bytes other unfolding k by blast
  qed
qed

text \<open>The same for an open inode.\<close>

abbreviation disk :: "fs \<Rightarrow> u32 \<Rightarrow> sector" where
  "disk st \<equiv> dev_sector (fs_device st) (fs_bd st)"

definition inode_ok :: "fs \<Rightarrow> nat \<Rightarrow> bool" where
  "inode_ok st ip \<longleftrightarrow> full_dev (fs_device st) (fs_bd st) \<and> in_dev (fs_device st) (i_data (inodes st ip))"

definition contents :: "fs \<Rightarrow> nat \<Rightarrow> u8 list" where
  "contents st ip = file_bytes (disk st) (i_data (inodes st ip))"

lemma length_contents [simp]: "length (contents st ip) = nat (inode_length ip st)"
  by (simp add: contents_def inode_length_def)

definition overwrite :: "nat \<Rightarrow> u8 list \<Rightarrow> u8 list \<Rightarrow> u8 list" where
  "overwrite offset buf bs = take offset bs @ take (length bs - offset) buf @ drop (offset + length buf) bs"

lemma length_overwrite [simp]: "length (overwrite offset buf bs) = length bs"
  by (auto simp: overwrite_def min_def)

lemma nth_overwrite: "i < length bs \<Longrightarrow> overwrite offset buf bs ! i = (if offset \<le> i \<and> i < offset + length buf then buf ! (i - offset) else bs ! i)"
  by (auto simp: overwrite_def nth_append min_def)

lemma inode_read_ok:
  assumes "inode_ok st ip" and "heap st 0 \<noteq> 0"
  shows "\<exists>bd'. inode_read_at ip sz offset st = Some (take sz (drop offset (contents st ip)), st\<lparr>fs_bd := bd', heap := (\<lambda>i. heap st (Suc i))\<rparr>)
    \<and> dev_sector (fs_device st) bd' = disk st"
proof -
  let ?d = "i_data (inodes st ip)"
  obtain bd' where "read_loop (fs_device st) ?d True sz offset (fs_bd st)
      = Some (map (file_byte (disk st) ?d) [offset..<offset + min sz (nat (d_length ?d) - offset)], bd')" "dev_sector (fs_device st) bd' = disk st"
    using read_loop_ok assms(1) unfolding inode_ok_def by blast
  moreover have "map (file_byte (disk st) ?d) [offset..<offset + min sz (nat (d_length ?d) - offset)] = take sz (drop offset (contents st ip))"
    by (rule nth_equalityI) (auto simp: contents_def file_bytes_def)
  ultimately show ?thesis using assms(2) by (intro exI [of _ bd']) (simp add: inode_read_at_def malloc_def)
qed

lemma inode_write_ok:
  assumes "inode_ok st ip" and "heap st 0 \<noteq> 0" and "deny_write_cnt (inodes st ip) = 0"
  shows "\<exists>bd'. inode_write_at ip buf offset st
      = Some (min (length buf) (nat (inode_length ip st) - offset), st\<lparr>fs_bd := bd', heap := (\<lambda>i. heap st (Suc i))\<rparr>)
    \<and> full_dev (fs_device st) bd'
    \<and> file_bytes (dev_sector (fs_device st) bd') (i_data (inodes st ip)) = overwrite offset buf (contents st ip)
    \<and> (\<forall>s. unat s < unat (d_start (i_data (inodes st ip))) \<or> unat (d_start (i_data (inodes st ip))) + data_sectors (i_data (inodes st ip)) \<le> unat s
         \<longrightarrow> dev_sector (fs_device st) bd' s = disk st s)"
proof -
  let ?d = "i_data (inodes st ip)" and ?dev = "fs_device st"
  obtain bd' where w: "write_loop ?dev ?d True buf offset (fs_bd st) = Some (min (length buf) (nat (d_length ?d) - offset), bd')" "full_dev ?dev bd'"
      and bytes: "\<forall>i < nat (d_length ?d). file_byte (dev_sector ?dev bd') ?d i
         = (if offset \<le> i \<and> i < offset + min (length buf) (nat (d_length ?d) - offset) then buf ! (i - offset) else file_byte (disk st) ?d i)"
      and other: "\<forall>s. unat s < unat (d_start ?d) \<or> unat (d_start ?d) + data_sectors ?d \<le> unat s \<longrightarrow> dev_sector ?dev bd' s = disk st s"
    using write_loop_ok [of ?dev "fs_bd st" ?d buf offset] assms(1) unfolding inode_ok_def by (elim conjE) blast
  have "file_bytes (dev_sector ?dev bd') ?d = overwrite offset buf (contents st ip)"
    by (rule nth_equalityI) (use bytes in \<open>auto simp: nth_overwrite contents_def file_bytes_def inode_length_def\<close>)
  moreover have "inode_write_at ip buf offset st = Some (min (length buf) (nat (inode_length ip st) - offset), st\<lparr>fs_bd := bd', heap := (\<lambda>i. heap st (Suc i))\<rparr>)"
    using w(1) assms(2,3) by (simp add: inode_write_at_def malloc_def inode_length_def)
  ultimately show ?thesis using w(2) other by blast
qed

end
