(* ===== verification/Files.thy ===== *)
theory Files
  imports Inode
begin

text \<open>
  filesys/file.c and filesys/free-map.c, and the operations of filesys/inode.c that use the free
  map.  A bitmap is written to its file as the little-endian words of its elements.
\<close>

section \<open>Files\<close>

definition bytes_to_sectors :: "int \<Rightarrow> nat option" where
  "bytes_to_sectors sz = do {
     ASSERT (sz + 512 < 2 ^ 31);
     Some (nat ((sz + 512 - 1) div 512))
   }"

definition set_file :: "nat \<Rightarrow> open_file \<Rightarrow> fs \<Rightarrow> fs" where
  "set_file fp f st = st\<lparr>files := (files st)(fp := f)\<rparr>"

definition file_get_inode :: "nat \<Rightarrow> fs \<Rightarrow> nat" where
  "file_get_inode fp st = f_inode (files st fp)"

definition file_read_at :: "nat \<Rightarrow> nat \<Rightarrow> nat \<Rightarrow> fs \<Rightarrow> (u8 list \<times> fs) option" where
  "file_read_at fp sz file_ofs st = inode_read_at (f_inode (files st fp)) sz file_ofs st"

definition file_read :: "nat \<Rightarrow> nat \<Rightarrow> fs \<Rightarrow> (u8 list \<times> fs) option" where
  "file_read fp sz st = do {
     let f = files st fp;
     (bs, st) \<leftarrow> inode_read_at (f_inode f) sz (f_pos f) st;
     Some (bs, set_file fp (f\<lparr>f_pos := f_pos f + length bs\<rparr>) st)
   }"

definition file_write_at :: "nat \<Rightarrow> u8 list \<Rightarrow> nat \<Rightarrow> fs \<Rightarrow> (nat \<times> fs) option" where
  "file_write_at fp buffer file_ofs st = inode_write_at (f_inode (files st fp)) buffer file_ofs st"

definition file_write :: "nat \<Rightarrow> u8 list \<Rightarrow> fs \<Rightarrow> (nat \<times> fs) option" where
  "file_write fp buffer st = do {
     let f = files st fp;
     (n, st) \<leftarrow> inode_write_at (f_inode f) buffer (f_pos f) st;
     Some (n, set_file fp (f\<lparr>f_pos := f_pos f + n\<rparr>) st)
   }"

definition file_deny_write :: "nat \<Rightarrow> fs \<Rightarrow> fs option" where
  "file_deny_write fp st = do {
     ASSERT (fp \<noteq> 0);
     let f = files st fp;
     if \<not> f_deny_write f then inode_deny_write (f_inode f) (set_file fp (f\<lparr>f_deny_write := True\<rparr>) st)
     else Some st
   }"

definition file_allow_write :: "nat \<Rightarrow> fs \<Rightarrow> fs option" where
  "file_allow_write fp st = do {
     ASSERT (fp \<noteq> 0);
     let f = files st fp;
     if f_deny_write f then inode_allow_write (f_inode f) (set_file fp (f\<lparr>f_deny_write := False\<rparr>) st)
     else Some st
   }"

definition file_length :: "nat \<Rightarrow> fs \<Rightarrow> int option" where
  "file_length fp st = do { ASSERT (fp \<noteq> 0); Some (inode_length (f_inode (files st fp)) st) }"

definition file_seek :: "nat \<Rightarrow> int \<Rightarrow> fs \<Rightarrow> fs option" where
  "file_seek fp new_pos st = do {
     ASSERT (fp \<noteq> 0);
     ASSERT (new_pos \<ge> 0);
     Some (set_file fp ((files st fp)\<lparr>f_pos := nat new_pos\<rparr>) st)
   }"

definition file_tell :: "nat \<Rightarrow> fs \<Rightarrow> nat option" where
  "file_tell fp st = do { ASSERT (fp \<noteq> 0); Some (f_pos (files st fp)) }"

section \<open>The free map\<close>

definition FREE_MAP_SECTOR :: u32 where "FREE_MAP_SECTOR = 0"
definition ROOT_DIR_SECTOR :: u32 where "ROOT_DIR_SECTOR = 1"

text \<open>The memory of the elements of a bitmap.\<close>

definition words_bytes :: "u32 list \<Rightarrow> u8 list" where
  "words_bytes ws = concat (map le32 ws)"

fun bytes_words :: "u8 list \<Rightarrow> u32 list" where
  "bytes_words (a # b # c # d # bs) = of_le32 [a, b, c, d] # bytes_words bs"
| "bytes_words _ = []"

definition bitmap_write :: "bitmap \<Rightarrow> nat \<Rightarrow> fs \<Rightarrow> (bool \<times> fs) option" where
  "bitmap_write b fp st = do {
     let sz = byte_cnt (bit_cnt b);
     (n, st) \<leftarrow> file_write_at fp (take sz (words_bytes (bits b))) 0 st;
     Some (n = sz, st)
   }"

definition bitmap_read :: "bitmap \<Rightarrow> nat \<Rightarrow> fs \<Rightarrow> (bool \<times> bitmap \<times> fs) option" where
  "bitmap_read b fp st =
     (if bit_cnt b > 0 then do {
        let sz = byte_cnt (bit_cnt b);
        (bs, st) \<leftarrow> file_read_at fp sz 0 st;
        let ws = bytes_words (bs @ drop (length bs) (words_bytes (bits b)));
        let i = elem_cnt (bit_cnt b) - 1;
        w \<leftarrow> rd ws i;
        ws \<leftarrow> wr ws i (w AND last_mask b);
        Some (length bs = sz, b\<lparr>bits := ws\<rparr>, st)
      } else Some (True, b, st))"

text \<open>\<open>m\<close> is the memory that \<open>malloc\<close> returned for the elements of the bitmap.\<close>

definition free_map_init :: "bool \<Rightarrow> u32 list option \<Rightarrow> fs \<Rightarrow> fs option" where
  "free_map_init mem m st = do {
     b \<leftarrow> bitmap_create mem m (unat (blk_size (fs_device st)));
     b \<leftarrow> b;
     b \<leftarrow> bitmap_mark b (unat FREE_MAP_SECTOR);
     b \<leftarrow> bitmap_mark b (unat ROOT_DIR_SECTOR);
     Some (st\<lparr>free_map := b\<rparr>)
   }"

text \<open>The sector is \<open>BITMAP_ERROR\<close> when the call fails.\<close>

definition free_map_allocate :: "nat \<Rightarrow> fs \<Rightarrow> (nat \<times> fs) option" where
  "free_map_allocate cnt st = do {
     (sector, b) \<leftarrow> bitmap_scan_and_flip (free_map st) 0 cnt False;
     let st = st\<lparr>free_map := b\<rparr>;
     if sector \<noteq> BITMAP_ERROR \<and> free_map_file st \<noteq> 0 then do {
       (ok, st) \<leftarrow> bitmap_write b (free_map_file st) st;
       if ok then Some (sector, st)
       else do {
         b \<leftarrow> bitmap_set_multiple b sector cnt False;
         Some (BITMAP_ERROR, st\<lparr>free_map := b\<rparr>)
       }
     } else Some (sector, st)
   }"

definition free_map_release :: "nat \<Rightarrow> nat \<Rightarrow> fs \<Rightarrow> fs option" where
  "free_map_release sector cnt st = do {
     all_used \<leftarrow> bitmap_all (free_map st) sector cnt;
     ASSERT all_used;
     b \<leftarrow> bitmap_set_multiple (free_map st) sector cnt False;
     (_, st) \<leftarrow> bitmap_write b (free_map_file st) (st\<lparr>free_map := b\<rparr>);
     Some st
   }"

section \<open>Creating and closing inodes\<close>

fun zero_loop :: "nat \<Rightarrow> u32 \<Rightarrow> fs \<Rightarrow> fs option" where
  "zero_loop 0 sector st = Some st"
| "zero_loop (Suc n) sector st = do {
     bd \<leftarrow> block_write (fs_device st) sector (replicate BLOCK_SECTOR_SIZE 0) (fs_bd st);
     zero_loop n (sector + 1) (st\<lparr>fs_bd := bd\<rparr>)
   }"

definition inode_create :: "u32 \<Rightarrow> int \<Rightarrow> fs \<Rightarrow> (bool \<times> fs) option" where
  "inode_create sector len st = do {
     ASSERT (len \<ge> 0);
     let (disk, st) = malloc st;
     if disk \<noteq> 0 then do {
       sectors \<leftarrow> bytes_to_sectors len;
       (start, st) \<leftarrow> free_map_allocate sectors st;
       if start \<noteq> BITMAP_ERROR then do {
         bd \<leftarrow> block_write (fs_device st) sector (disk_bytes \<lparr>d_start = of_nat start, d_length = len, d_magic = INODE_MAGIC\<rparr>) (fs_bd st);
         st \<leftarrow> zero_loop sectors (of_nat start) (st\<lparr>fs_bd := bd\<rparr>);
         Some (True, st)
       } else Some (False, st)
     } else Some (False, st)
   }"

definition inode_close :: "nat \<Rightarrow> fs \<Rightarrow> fs option" where
  "inode_close ip st =
     (if ip = 0 then Some st
      else do {
        let i = (inodes st ip)\<lparr>open_cnt := open_cnt (inodes st ip) - 1\<rparr>;
        let st = set_inode ip i st;
        if open_cnt i = 0 then do {
          let st = st\<lparr>open_inodes := remove1 ip (open_inodes st)\<rparr>;
          if removed i then do {
            st \<leftarrow> free_map_release (unat (i_sector i)) 1 st;
            sectors \<leftarrow> bytes_to_sectors (d_length (i_data i));
            free_map_release (unat (d_start (i_data i))) sectors st
          } else Some st
        } else Some st
      })"

section \<open>Opening and closing files\<close>

definition file_open :: "nat \<Rightarrow> fs \<Rightarrow> (nat \<times> fs) option" where
  "file_open ip st = do {
     let (fp, st) = malloc st;
     if ip \<noteq> 0 \<and> fp \<noteq> 0 then Some (fp, set_file fp \<lparr>f_inode = ip, f_pos = 0, f_deny_write = False\<rparr> st)
     else do {
       st \<leftarrow> inode_close ip st;
       Some (0, st)
     }
   }"

definition file_reopen :: "nat \<Rightarrow> fs \<Rightarrow> (nat \<times> fs) option" where
  "file_reopen fp st = (let (ip, st) = inode_reopen (f_inode (files st fp)) st in file_open ip st)"

definition file_close :: "nat \<Rightarrow> fs \<Rightarrow> fs option" where
  "file_close fp st =
     (if fp \<noteq> 0 then do {
        st \<leftarrow> file_allow_write fp st;
        inode_close (f_inode (files st fp)) st
      } else Some st)"

definition free_map_open :: "fs \<Rightarrow> fs option" where
  "free_map_open st = do {
     (ip, st) \<leftarrow> inode_open FREE_MAP_SECTOR st;
     (fp, st) \<leftarrow> file_open ip st;
     let st = st\<lparr>free_map_file := fp\<rparr>;
     ASSERT (fp \<noteq> 0);
     (ok, b, st) \<leftarrow> bitmap_read (free_map st) fp st;
     ASSERT ok;
     Some (st\<lparr>free_map := b\<rparr>)
   }"

definition free_map_close :: "fs \<Rightarrow> fs option" where
  "free_map_close st = file_close (free_map_file st) st"

definition free_map_create :: "fs \<Rightarrow> fs option" where
  "free_map_create st = do {
     (ok, st) \<leftarrow> inode_create FREE_MAP_SECTOR (int (bitmap_file_size (free_map st))) st;
     ASSERT ok;
     (ip, st) \<leftarrow> inode_open FREE_MAP_SECTOR st;
     (fp, st) \<leftarrow> file_open ip st;
     let st = st\<lparr>free_map_file := fp\<rparr>;
     ASSERT (fp \<noteq> 0);
     (ok, st) \<leftarrow> bitmap_write (free_map st) fp st;
     ASSERT ok;
     Some st
   }"

end
