(* ===== verification/Directory.thy ===== *)
theory Directory
  imports Files
begin

text \<open>
  filesys/directory.c and filesys/filesys.c.  A directory is a file of entries of 20 bytes: the
  sector of the inode, 15 bytes for the name with its null byte, and whether the entry is in use.
  Names are given as the bytes before the null byte.
\<close>

section \<open>Entries\<close>

definition NAME_MAX :: nat where "NAME_MAX = 14"
definition dir_entry_size :: nat where "dir_entry_size = 20"

definition e_inode_sector :: "u8 list \<Rightarrow> u32" where "e_inode_sector e = of_le32 (take 4 e)"
definition e_name :: "u8 list \<Rightarrow> u8 list" where "e_name e = take 15 (drop 4 e)"
definition e_in_use :: "u8 list \<Rightarrow> bool" where "e_in_use e \<longleftrightarrow> e ! 19 \<noteq> 0"

text \<open>\<open>strcmp (name, e.name) == 0\<close>; \<open>None\<close> when the name in the entry has no null byte and the comparison leaves it.\<close>

fun name_eq :: "u8 list \<Rightarrow> u8 list \<Rightarrow> bool option" where
  "name_eq [] (c # cs) = Some (c = 0)"
| "name_eq (b # bs) (c # cs) = (if b = c then name_eq bs cs else Some False)"
| "name_eq _ [] = None"

text \<open>The entry with the three members assigned: \<open>strlcpy\<close> leaves the bytes after the null byte.\<close>

definition fill_entry :: "u8 list \<Rightarrow> u8 list \<Rightarrow> u32 \<Rightarrow> u8 list" where
  "fill_entry e nm sector = le32 sector @ nm @ [0] @ drop (length nm + 1) (e_name e) @ [1]"

section \<open>Directories\<close>

record dir =
  dir_inode :: nat
  dir_pos :: nat

definition dir_create :: "u32 \<Rightarrow> nat \<Rightarrow> fs \<Rightarrow> (bool \<times> fs) option" where
  "dir_create sector entry_cnt st = inode_create sector (int (entry_cnt * dir_entry_size)) st"

definition dir_open :: "nat \<Rightarrow> fs \<Rightarrow> (dir option \<times> fs) option" where
  "dir_open ip st = do {
     let (dp, st) = malloc st;
     if ip \<noteq> 0 \<and> dp \<noteq> 0 then Some (Some \<lparr>dir_inode = ip, dir_pos = 0\<rparr>, st)
     else do {
       st \<leftarrow> inode_close ip st;
       Some (None, st)
     }
   }"

definition dir_open_root :: "fs \<Rightarrow> (dir option \<times> fs) option" where
  "dir_open_root st = do {
     (ip, st) \<leftarrow> inode_open ROOT_DIR_SECTOR st;
     dir_open ip st
   }"

definition dir_reopen :: "dir \<Rightarrow> fs \<Rightarrow> (dir option \<times> fs) option" where
  "dir_reopen d st = (let (ip, st) = inode_reopen (dir_inode d) st in dir_open ip st)"

definition dir_close :: "dir option \<Rightarrow> fs \<Rightarrow> fs option" where
  "dir_close d st = (case d of None \<Rightarrow> Some st | Some d \<Rightarrow> inode_close (dir_inode d) st)"

definition dir_get_inode :: "dir \<Rightarrow> nat" where
  "dir_get_inode d = dir_inode d"

text \<open>The loop of \<open>lookup\<close> from offset \<open>ofs\<close>: the entry and its offset.\<close>

partial_function (option) lookup_loop :: "nat \<Rightarrow> u8 list \<Rightarrow> nat \<Rightarrow> fs \<Rightarrow> ((u8 list \<times> nat) option \<times> fs) option" where
  "lookup_loop ip nm ofs st = do {
     (e, st) \<leftarrow> inode_read_at ip dir_entry_size ofs st;
     if length e = dir_entry_size then do {
       eq \<leftarrow> (if e_in_use e then name_eq nm (e_name e) else Some False);
       if eq then Some (Some (e, ofs), st) else lookup_loop ip nm (ofs + dir_entry_size) st
     } else Some (None, st)
   }"

definition lookup :: "dir \<Rightarrow> u8 list \<Rightarrow> fs \<Rightarrow> ((u8 list \<times> nat) option \<times> fs) option" where
  "lookup d nm st = lookup_loop (dir_inode d) nm 0 st"

definition dir_lookup :: "dir \<Rightarrow> u8 list \<Rightarrow> fs \<Rightarrow> (nat \<times> fs) option" where
  "dir_lookup d nm st = do {
     (r, st) \<leftarrow> lookup d nm st;
     (case r of
        Some (e, ofs) \<Rightarrow> inode_open (e_inode_sector e) st
      | None \<Rightarrow> Some (0, st))
   }"

text \<open>The loop of \<open>dir_add\<close> that looks for a free slot.  The entry \<open>e\<close> is on the stack; a short read changes its first bytes.\<close>

partial_function (option) slot_loop :: "nat \<Rightarrow> u8 list \<Rightarrow> nat \<Rightarrow> fs \<Rightarrow> (u8 list \<times> nat \<times> fs) option" where
  "slot_loop ip e ofs st = do {
     (bs, st) \<leftarrow> inode_read_at ip dir_entry_size ofs st;
     let e = bs @ drop (length bs) e;
     if length bs = dir_entry_size \<and> e_in_use e then slot_loop ip e (ofs + dir_entry_size) st
     else Some (e, ofs, st)
   }"

text \<open>\<open>e\<close> is what the stack holds before.\<close>

definition dir_add :: "u8 list \<Rightarrow> dir \<Rightarrow> u8 list \<Rightarrow> u32 \<Rightarrow> fs \<Rightarrow> (bool \<times> fs) option" where
  "dir_add e d nm inode_sector st =
     (if nm = [] \<or> length nm > NAME_MAX then Some (False, st)
      else do {
        (r, st) \<leftarrow> lookup d nm st;
        if r \<noteq> None then Some (False, st)
        else do {
          (e, ofs, st) \<leftarrow> slot_loop (dir_inode d) e 0 st;
          (n, st) \<leftarrow> inode_write_at (dir_inode d) (fill_entry e nm inode_sector) ofs st;
          Some (n = dir_entry_size, st)
        }
      })"

definition dir_remove :: "dir \<Rightarrow> u8 list \<Rightarrow> fs \<Rightarrow> (bool \<times> fs) option" where
  "dir_remove d nm st = do {
     (r, st) \<leftarrow> lookup d nm st;
     (case r of
        None \<Rightarrow> Some (False, st)
      | Some (e, ofs) \<Rightarrow> do {
          (ip, st) \<leftarrow> inode_open (e_inode_sector e) st;
          if ip = 0 then Some (False, st)
          else do {
            (n, st) \<leftarrow> inode_write_at (dir_inode d) (e[19 := 0]) ofs st;
            (success, st) \<leftarrow>
              (if n \<noteq> dir_entry_size then Some (False, st)
               else do { st \<leftarrow> inode_remove ip st; Some (True, st) });
            st \<leftarrow> inode_close ip st;
            Some (success, st)
          }
        })
   }"

text \<open>The name that was read next, and the directory with its new position.\<close>

partial_function (option) dir_readdir :: "dir \<Rightarrow> fs \<Rightarrow> (u8 list option \<times> dir \<times> fs) option" where
  "dir_readdir d st = do {
     (e, st) \<leftarrow> inode_read_at (dir_inode d) dir_entry_size (dir_pos d) st;
     if length e = dir_entry_size then do {
       let d = d\<lparr>dir_pos := dir_pos d + dir_entry_size\<rparr>;
       if e_in_use e then Some (Some (take NAME_MAX (takeWhile (\<lambda>c. c \<noteq> 0) (e_name e))), d, st)
       else dir_readdir d st
     } else Some (None, d, st)
   }"

section \<open>The file system\<close>

definition do_format :: "fs \<Rightarrow> fs option" where
  "do_format st = do {
     st \<leftarrow> free_map_create st;
     (ok, st) \<leftarrow> dir_create ROOT_DIR_SECTOR 16 st;
     ASSERT ok;
     free_map_close st
   }"

text \<open>\<open>mem\<close> and \<open>m\<close> are the results of the requests for the free map.\<close>

definition filesys_init :: "bool \<Rightarrow> bool \<Rightarrow> u32 list option \<Rightarrow> fs \<Rightarrow> fs option" where
  "filesys_init fmt mem m st = do {
     dev \<leftarrow> block_get_role BLOCK_FILESYS (fs_bd st);
     dev \<leftarrow> dev;
     let st = inode_init (st\<lparr>fs_device := dev\<rparr>);
     st \<leftarrow> free_map_init mem m st;
     st \<leftarrow> (if fmt then do_format st else Some st);
     free_map_open st
   }"

definition filesys_done :: "fs \<Rightarrow> fs option" where
  "filesys_done st = free_map_close st"

definition filesys_create :: "u8 list \<Rightarrow> u8 list \<Rightarrow> int \<Rightarrow> fs \<Rightarrow> (bool \<times> fs) option" where
  "filesys_create e nm initial_size st = do {
     (dir, st) \<leftarrow> dir_open_root st;
     (success, inode_sector, st) \<leftarrow>
       (case dir of
          None \<Rightarrow> Some (False, 0, st)
        | Some d \<Rightarrow> do {
            (sector, st) \<leftarrow> free_map_allocate 1 st;
            if sector = BITMAP_ERROR then Some (False, 0, st)
            else do {
              (ok, st) \<leftarrow> inode_create (of_nat sector) initial_size st;
              if \<not> ok then Some (False, sector, st)
              else do {
                (ok, st) \<leftarrow> dir_add e d nm (of_nat sector) st;
                Some (ok, sector, st)
              }
            }
          });
     st \<leftarrow> (if \<not> success \<and> inode_sector \<noteq> 0 then free_map_release inode_sector 1 st else Some st);
     st \<leftarrow> dir_close dir st;
     Some (success, st)
   }"

definition filesys_open :: "u8 list \<Rightarrow> fs \<Rightarrow> (nat \<times> fs) option" where
  "filesys_open nm st = do {
     (dir, st) \<leftarrow> dir_open_root st;
     d \<leftarrow> dir;
     (ip, st) \<leftarrow> dir_lookup d nm st;
     st \<leftarrow> dir_close dir st;
     file_open ip st
   }"

definition filesys_remove :: "u8 list \<Rightarrow> fs \<Rightarrow> (bool \<times> fs) option" where
  "filesys_remove nm st = do {
     (dir, st) \<leftarrow> dir_open_root st;
     (success, st) \<leftarrow> (case dir of None \<Rightarrow> Some (False, st) | Some d \<Rightarrow> dir_remove d nm st);
     st \<leftarrow> dir_close dir st;
     Some (success, st)
   }"

end
