(* ===== verification/Dir_Map.thy ===== *)
theory Dir_Map
  imports Directory
begin

text \<open>
  A directory is a finite map from names to the sectors of inodes.  \<open>dir_map\<close> is the map that the
  entries on disk stand for; looking up, adding and removing names refine its operations.
\<close>

section \<open>Reading leaves the file system as it is\<close>

definition same_fs :: "fs \<Rightarrow> fs \<Rightarrow> bool" where
  "same_fs st st' \<longleftrightarrow> (\<exists>bd k. st' = st\<lparr>fs_bd := bd, heap := (\<lambda>i. heap st (k + i))\<rparr> \<and> dev_sector (fs_device st) bd = disk st)"

text \<open>There is memory for all requests.\<close>

definition rich :: "fs \<Rightarrow> bool" where
  "rich st \<longleftrightarrow> (\<forall>i. heap st i \<noteq> 0)"

lemma same_fsD:
  assumes "same_fs st st'"
  shows "fs_device st' = fs_device st" and "disk st' = disk st" and "inodes st' = inodes st" and "open_inodes st' = open_inodes st"
    and "files st' = files st" and "free_map st' = free_map st" and "free_map_file st' = free_map_file st"
    and "contents st' = contents st" and "inode_ok st' = inode_ok st" and "inode_length ip st' = inode_length ip st"
proof -
  obtain bd k where st': "st' = st\<lparr>fs_bd := bd, heap := (\<lambda>i. heap st (k + i))\<rparr>" and e: "dev_sector (fs_device st) bd = disk st" using assms by (auto simp: same_fs_def)
  show "fs_device st' = fs_device st" "disk st' = disk st" "inodes st' = inodes st" "open_inodes st' = open_inodes st" "files st' = files st"
    "free_map st' = free_map st" "free_map_file st' = free_map_file st" "inode_length ip st' = inode_length ip st"
    by (simp_all add: st' e inode_length_def)
  show "contents st' = contents st" "inode_ok st' = inode_ok st" by (rule ext, simp add: st' e contents_def inode_ok_def full_dev_def)+
qed

lemma same_fs_refl [simp]: "same_fs st st"
  unfolding same_fs_def by (intro exI [of _ "fs_bd st"] exI [of _ 0]) simp

lemma same_fs_trans: "same_fs st st1 \<Longrightarrow> same_fs st1 st2 \<Longrightarrow> same_fs st st2"
proof -
  assume "same_fs st st1" "same_fs st1 st2"
  then obtain bd k bd' k' where "st1 = st\<lparr>fs_bd := bd, heap := (\<lambda>i. heap st (k + i))\<rparr>" "dev_sector (fs_device st) bd = disk st"
      "st2 = st1\<lparr>fs_bd := bd', heap := (\<lambda>i. heap st1 (k' + i))\<rparr>" "dev_sector (fs_device st1) bd' = disk st1"
    unfolding same_fs_def by blast
  then show "same_fs st st2" unfolding same_fs_def by (intro exI [of _ bd'] exI [of _ "k + k'"]) (simp add: add.assoc)
qed

lemma read_same:
  assumes "inode_ok st ip" and "rich st"
  shows "\<exists>st'. inode_read_at ip sz offset st = Some (take sz (drop offset (contents st ip)), st') \<and> same_fs st st' \<and> rich st'"
proof -
  obtain bd where "inode_read_at ip sz offset st = Some (take sz (drop offset (contents st ip)), st\<lparr>fs_bd := bd, heap := (\<lambda>i. heap st (Suc i))\<rparr>)"
      "dev_sector (fs_device st) bd = disk st" using inode_read_ok [OF assms(1), of sz offset] assms(2) by (auto simp: rich_def)
  moreover from this(2) have "same_fs st (st\<lparr>fs_bd := bd, heap := (\<lambda>i. heap st (Suc i))\<rparr>)"
    unfolding same_fs_def by (intro exI [of _ bd] exI [of _ 1]) simp
  ultimately show ?thesis using assms(2) by (auto simp: rich_def)
qed

section \<open>Entries\<close>

definition entry :: "fs \<Rightarrow> nat \<Rightarrow> nat \<Rightarrow> u8 list" where
  "entry st ip k = take 20 (drop (20 * k) (contents st ip))"

definition entry_cnt :: "fs \<Rightarrow> nat \<Rightarrow> nat" where
  "entry_cnt st ip = nat (inode_length ip st) div 20"

definition e_string :: "u8 list \<Rightarrow> u8 list" where
  "e_string e = takeWhile (\<lambda>c. c \<noteq> 0) (e_name e)"

definition holds :: "u8 list \<Rightarrow> u8 list \<Rightarrow> bool" where
  "holds e nm \<longleftrightarrow> e_in_use e \<and> e_string e = nm"

text \<open>The size is a multiple of the size of an entry, names end in a null byte, and no name is in use twice.\<close>

definition dir_ok :: "fs \<Rightarrow> nat \<Rightarrow> bool" where
  "dir_ok st ip \<longleftrightarrow> inode_ok st ip \<and> nat (inode_length ip st) = 20 * entry_cnt st ip
     \<and> (\<forall>k < entry_cnt st ip. e_in_use (entry st ip k) \<longrightarrow> 0 \<in> set (e_name (entry st ip k)))
     \<and> (\<forall>j < entry_cnt st ip. \<forall>k < entry_cnt st ip. e_in_use (entry st ip j) \<longrightarrow> e_in_use (entry st ip k)
          \<longrightarrow> e_string (entry st ip j) = e_string (entry st ip k) \<longrightarrow> j = k)"

definition find_name :: "fs \<Rightarrow> nat \<Rightarrow> u8 list \<Rightarrow> nat option" where
  "find_name st ip nm = List.find (\<lambda>k. holds (entry st ip k) nm) [0..<entry_cnt st ip]"

definition dir_map :: "fs \<Rightarrow> nat \<Rightarrow> u8 list \<Rightarrow> u32 option" where
  "dir_map st ip nm = map_option (\<lambda>k. e_inode_sector (entry st ip k)) (find_name st ip nm)"

lemma same_dir:
  assumes "same_fs st st'"
  shows "entry st' ip k = entry st ip k" and "entry_cnt st' ip = entry_cnt st ip" and "dir_ok st' ip = dir_ok st ip" and "find_name st' ip = find_name st ip"
    and "dir_map st' ip = dir_map st ip"
  using same_fsD [OF assms] by (simp_all add: entry_def entry_cnt_def dir_ok_def find_name_def dir_map_def fun_eq_iff)

lemma length_entry:
  assumes "dir_ok st ip" and "k < entry_cnt st ip"
  shows "length (entry st ip k) = 20"
  using assms by (simp add: entry_def dir_ok_def)

lemma dir_ok_unique:
  assumes "dir_ok st ip" and "j < entry_cnt st ip" and "k < entry_cnt st ip" and "e_in_use (entry st ip j)" and "e_in_use (entry st ip k)"
    and "e_string (entry st ip j) = e_string (entry st ip k)"
  shows "j = k"
  using assms unfolding dir_ok_def by blast

lemma name_eq_string:
  assumes "0 \<notin> set nm" and "0 \<in> set cs"
  shows "name_eq nm cs = Some (takeWhile (\<lambda>c. c \<noteq> 0) cs = nm)"
  using assms by (induction nm cs rule: name_eq.induct) auto

lemma find_upt:
  "List.find P [k..<n] = (if k < n then if P k then Some k else List.find P [Suc k..<n] else None)"
  by (simp add: upt_rec [of k n])

lemma lookup_loop_ok:
  assumes "dir_ok st ip" and "rich st" and "0 \<notin> set nm" and "k \<le> entry_cnt st ip"
  shows "\<exists>st'. lookup_loop ip nm (20 * k) st
      = Some (map_option (\<lambda>j. (entry st ip j, 20 * j)) (List.find (\<lambda>k. holds (entry st ip k) nm) [k..<entry_cnt st ip]), st') \<and> same_fs st st' \<and> rich st'"
  using assms
proof (induction "entry_cnt st ip - k" arbitrary: k st)
  case 0
  then have k: "k = entry_cnt st ip" and ok: "inode_ok st ip" and len: "nat (inode_length ip st) = 20 * entry_cnt st ip" by (simp_all add: dir_ok_def)
  obtain st' where "inode_read_at ip 20 (20 * k) st = Some ([], st')" "same_fs st st'" "rich st'"
    using read_same [OF ok 0(3), of 20 "20 * k"] k len by auto
  then show ?case using k by (simp add: lookup_loop.simps dir_entry_size_def)
next
  case (Suc n)
  let ?e = "entry st ip k"
  have k: "k < entry_cnt st ip" using Suc(2) by simp
  have ok: "inode_ok st ip" using Suc(3) by (simp add: dir_ok_def)
  obtain st1 where st1: "inode_read_at ip 20 (20 * k) st = Some (?e, st1)" "same_fs st st1" "rich st1"
    using read_same [OF ok Suc(4), of 20 "20 * k"] by (auto simp: entry_def)
  note same = same_dir [OF st1(2)]
  have len: "length ?e = 20" using length_entry [OF Suc(3) k] .
  have eq: "(if e_in_use ?e then name_eq nm (e_name ?e) else Some False) = Some (holds ?e nm)"
    using Suc(3) k name_eq_string [OF Suc(5), of "e_name ?e"] by (simp add: dir_ok_def holds_def e_string_def)
  show ?case
  proof (cases "holds ?e nm")
    case True
    then show ?thesis using st1 len eq k by (simp add: lookup_loop.simps [of ip nm "20 * k"] dir_entry_size_def find_upt [of _ k])
  next
    case False
    have n: "n = entry_cnt st1 ip - Suc k" using Suc(2) k same(2) by simp
    obtain st2 where st2: "lookup_loop ip nm (20 * Suc k) st1
        = Some (map_option (\<lambda>j. (entry st ip j, 20 * j)) (List.find (\<lambda>k. holds (entry st ip k) nm) [Suc k..<entry_cnt st ip]), st2)"
        "same_fs st1 st2" "rich st2"
      using Suc(1) [OF n] Suc(3,5) k st1(3) same by auto
    then have "same_fs st st2" using same_fs_trans st1(2) by blast
    moreover have "lookup_loop ip nm (20 * k) st = lookup_loop ip nm (20 * Suc k) st1"
      using st1(1) len eq False by (simp add: lookup_loop.simps [of ip nm "20 * k"] dir_entry_size_def add.commute)
    moreover have "List.find (\<lambda>k. holds (entry st ip k) nm) [k..<entry_cnt st ip] = List.find (\<lambda>k. holds (entry st ip k) nm) [Suc k..<entry_cnt st ip]"
      using False k by (simp add: find_upt [of _ k])
    ultimately show ?thesis using st2 by auto
  qed
qed

lemma lookup_ok:
  assumes "dir_ok st (dir_inode d)" and "rich st" and "0 \<notin> set nm"
  shows "\<exists>st'. lookup d nm st = Some (map_option (\<lambda>j. (entry st (dir_inode d) j, 20 * j)) (find_name st (dir_inode d) nm), st')
    \<and> same_fs st st' \<and> rich st'"
  using lookup_loop_ok [OF assms, of 0] by (simp add: lookup_def find_name_def)

section \<open>Adding a name\<close>

lemma slot_loop_ok:
  assumes "dir_ok st ip" and "rich st" and "length e = 20" and "k \<le> entry_cnt st ip"
  shows "\<exists>st' e'. slot_loop ip e (20 * k) st
      = Some (e', 20 * (case List.find (\<lambda>k. \<not> e_in_use (entry st ip k)) [k..<entry_cnt st ip] of None \<Rightarrow> entry_cnt st ip | Some j \<Rightarrow> j), st')
    \<and> length e' = 20 \<and> same_fs st st' \<and> rich st'"
  using assms
proof (induction "entry_cnt st ip - k" arbitrary: k st e)
  case 0
  then have k: "k = entry_cnt st ip" and ok: "inode_ok st ip" and len: "nat (inode_length ip st) = 20 * entry_cnt st ip" by (simp_all add: dir_ok_def)
  obtain st' where "inode_read_at ip 20 (20 * k) st = Some ([], st')" "same_fs st st'" "rich st'"
    using read_same [OF ok 0(3), of 20 "20 * k"] k len by auto
  then show ?case using k 0(4) by (simp add: slot_loop.simps dir_entry_size_def)
next
  case (Suc n)
  let ?e = "entry st ip k"
  have k: "k < entry_cnt st ip" using Suc(2) by simp
  have ok: "inode_ok st ip" using Suc(3) by (simp add: dir_ok_def)
  obtain st1 where st1: "inode_read_at ip 20 (20 * k) st = Some (?e, st1)" "same_fs st st1" "rich st1"
    using read_same [OF ok Suc(4), of 20 "20 * k"] by (auto simp: entry_def)
  note same = same_dir [OF st1(2)]
  have len: "length ?e = 20" using length_entry [OF Suc(3) k] .
  show ?case
  proof (cases "e_in_use ?e")
    case False
    then show ?thesis using st1 len k Suc(5) by (simp add: slot_loop.simps [of ip e "20 * k"] dir_entry_size_def find_upt [of _ k])
  next
    case True
    have n: "n = entry_cnt st1 ip - Suc k" using Suc(2) k same(2) by simp
    obtain st2 e2 where st2: "slot_loop ip ?e (20 * Suc k) st1
        = Some (e2, 20 * (case List.find (\<lambda>k. \<not> e_in_use (entry st ip k)) [Suc k..<entry_cnt st ip] of None \<Rightarrow> entry_cnt st ip | Some j \<Rightarrow> j), st2)"
        "length e2 = 20" "same_fs st1 st2" "rich st2"
      using Suc(1) [OF n, of ?e, unfolded same] Suc(3) k st1(3) len by auto
    then have "same_fs st st2" using same_fs_trans st1(2) by blast
    moreover have "slot_loop ip e (20 * k) st = slot_loop ip ?e (20 * Suc k) st1"
      using st1(1) len True Suc(5) by (simp add: slot_loop.simps [of ip e "20 * k"] dir_entry_size_def add.commute)
    moreover have "List.find (\<lambda>k. \<not> e_in_use (entry st ip k)) [k..<entry_cnt st ip] = List.find (\<lambda>k. \<not> e_in_use (entry st ip k)) [Suc k..<entry_cnt st ip]"
      using True k by (simp add: find_upt [of _ k])
    ultimately show ?thesis using st2 by auto
  qed
qed

lemma takeWhile_zero: "0 \<notin> set xs \<Longrightarrow> takeWhile (\<lambda>c. c \<noteq> 0) (xs @ 0 # ys) = xs"
  by (induction xs) auto

lemma fill_entry_simps:
  assumes "length e = 20" and "length nm \<le> 14" and "0 \<notin> set nm"
  shows "length (fill_entry e nm s) = 20" and "e_inode_sector (fill_entry e nm s) = s" and "e_in_use (fill_entry e nm s)"
    and "e_string (fill_entry e nm s) = nm" and "0 \<in> set (e_name (fill_entry e nm s))"
proof -
  show len: "length (fill_entry e nm s) = 20" using assms by (simp add: fill_entry_def e_name_def)
  show "e_inode_sector (fill_entry e nm s) = s" by (simp add: fill_entry_def e_inode_sector_def)
  have "length (le32 s @ nm @ [0] @ drop (length nm + 1) (e_name e)) = 19" using assms by (simp add: e_name_def)
  then have "((le32 s @ nm @ [0] @ drop (length nm + 1) (e_name e)) @ [1]) ! 19 = 1" by (metis nth_append_length)
  then show "e_in_use (fill_entry e nm s)" by (simp add: fill_entry_def e_in_use_def)
  have nm: "e_name (fill_entry e nm s) = nm @ [0] @ drop (length nm + 1) (e_name e)"
  proof -
    define y where "y = nm @ [0] @ drop (length nm + 1) (e_name e)"
    have "length y = 15" using assms by (simp add: y_def e_name_def)
    moreover have "fill_entry e nm s = le32 s @ y @ [1]" by (simp add: fill_entry_def y_def)
    ultimately show ?thesis unfolding y_def [symmetric] by (simp add: e_name_def)
  qed
  show "0 \<in> set (e_name (fill_entry e nm s))" by (simp add: nm)
  show "e_string (fill_entry e nm s) = nm" using assms(3) by (simp add: e_string_def nm takeWhile_zero)
qed

text \<open>Replacing entry \<open>j\<close>.\<close>

lemma entry_overwrite:
  assumes "length c = 20 * n" and "j < n" and "k < n" and "length buf = 20"
  shows "take 20 (drop (20 * k) (overwrite (20 * j) buf c)) = (if k = j then buf else take 20 (drop (20 * k) c))"
proof (rule nth_equalityI)
  have "20 * k + 20 \<le> 20 * n" using assms(3) by linarith
  then show l: "length (take 20 (drop (20 * k) (overwrite (20 * j) buf c))) = length (if k = j then buf else take 20 (drop (20 * k) c))"
    using assms by simp
  fix i
  assume "i < length (take 20 (drop (20 * k) (overwrite (20 * j) buf c)))"
  then have i: "i < 20" "20 * k + i < length c" using assms by auto
  have "20 * j \<le> 20 * k + i \<and> 20 * k + i < 20 * j + 20 \<longleftrightarrow> k = j" using i(1) by auto
  then show "take 20 (drop (20 * k) (overwrite (20 * j) buf c)) ! i = (if k = j then buf else take 20 (drop (20 * k) c)) ! i"
    using i assms by (simp add: nth_overwrite)
qed

lemma find_unique:
  assumes "j < n" and "P j" and "\<And>k. k < n \<Longrightarrow> P k \<Longrightarrow> k = j"
  shows "List.find P [0..<n] = Some j"
  unfolding find_Some_iff
proof (intro exI [of _ j] conjI allI impI)
  fix i
  assume "i < j"
  then show "\<not> P ([0..<n] ! i)" using assms(1) assms(3) [of i] by (cases "P i") auto
qed (use assms(1,2) in simp_all)

lemma find_name_Some: "find_name st ip nm = Some j \<Longrightarrow> j < entry_cnt st ip \<and> holds (entry st ip j) nm"
  by (auto simp: find_name_def find_Some_iff)

lemma find_name_None: "find_name st ip nm = None \<longleftrightarrow> (\<forall>k < entry_cnt st ip. \<not> holds (entry st ip k) nm)"
  by (auto simp: find_name_def find_None_iff)

text \<open>The directory after entry \<open>j\<close> has been replaced by \<open>e\<close>.\<close>

lemma replace_entry:
  assumes ok: "dir_ok st ip" and j: "j < entry_cnt st ip" and e: "length e = 20"
    and st': "contents st' ip = overwrite (20 * j) e (contents st ip)" "inode_length ip st' = inode_length ip st" "inode_ok st' ip"
  shows "entry_cnt st' ip = entry_cnt st ip" and "k < entry_cnt st ip \<Longrightarrow> entry st' ip k = (if k = j then e else entry st ip k)"
    and "(e_in_use e \<longrightarrow> 0 \<in> set (e_name e) \<and> (\<forall>k < entry_cnt st ip. k \<noteq> j \<longrightarrow> \<not> holds (entry st ip k) (e_string e))) \<Longrightarrow> dir_ok st' ip"
proof -
  have len: "length (contents st ip) = 20 * entry_cnt st ip" using ok by (simp add: dir_ok_def)
  show cnt: "entry_cnt st' ip = entry_cnt st ip" by (simp add: entry_cnt_def st')
  have en: "entry st' ip k = (if k = j then e else entry st ip k)" if "k < entry_cnt st ip" for k
    using entry_overwrite [OF len j that e] by (simp add: entry_def st')
  then show "k < entry_cnt st ip \<Longrightarrow> entry st' ip k = (if k = j then e else entry st ip k)" .
  assume new: "e_in_use e \<longrightarrow> 0 \<in> set (e_name e) \<and> (\<forall>k < entry_cnt st ip. k \<noteq> j \<longrightarrow> \<not> holds (entry st ip k) (e_string e))"
  have "j1 = k" if "j1 < entry_cnt st ip" "k < entry_cnt st ip" "e_in_use (entry st' ip j1)" "e_in_use (entry st' ip k)" "e_string (entry st' ip j1) = e_string (entry st' ip k)" for j1 k
    using that en new ok unfolding dir_ok_def holds_def by (metis (full_types))
  then show "dir_ok st' ip" using ok new en unfolding dir_ok_def cnt st' by (auto simp: st')
qed

lemma same_contents:
  assumes "contents st' ip = contents st ip" and "inode_length ip st' = inode_length ip st" and "inode_ok st' ip" and "inode_ok st ip"
  shows "dir_ok st' ip = dir_ok st ip" and "dir_map st' ip = dir_map st ip"
  using assms by (simp_all add: dir_ok_def dir_map_def find_name_def entry_def entry_cnt_def fun_eq_iff)

text \<open>What writing to an inode leaves as it is.\<close>

definition only_data :: "nat \<Rightarrow> fs \<Rightarrow> fs \<Rightarrow> bool" where
  "only_data ip st st' \<longleftrightarrow> (\<exists>bd k. st' = st\<lparr>fs_bd := bd, heap := (\<lambda>i. heap st (k + i))\<rparr>)
     \<and> (\<forall>s. unat s < unat (d_start (i_data (inodes st ip)))
          \<or> unat (d_start (i_data (inodes st ip))) + data_sectors (i_data (inodes st ip)) \<le> unat s \<longrightarrow> disk st' s = disk st s)"

lemma only_dataD: "only_data ip st st' \<Longrightarrow> inodes st' = inodes st \<and> open_inodes st' = open_inodes st \<and> fs_device st' = fs_device st
    \<and> inode_length jp st' = inode_length jp st"
  by (auto simp: only_data_def inode_length_def)

lemma same_then_write: "same_fs st st1 \<Longrightarrow> only_data ip st1 st2 \<Longrightarrow> only_data ip st st2"
proof -
  assume a: "same_fs st st1" "only_data ip st1 st2"
  obtain bd k where st1: "st1 = st\<lparr>fs_bd := bd, heap := (\<lambda>i. heap st (k + i))\<rparr>" using a(1) by (auto simp: same_fs_def)
  obtain bd' k' where st2: "st2 = st1\<lparr>fs_bd := bd', heap := (\<lambda>i. heap st1 (k' + i))\<rparr>" using a(2) by (auto simp: only_data_def)
  have "\<exists>bd k. st2 = st\<lparr>fs_bd := bd, heap := (\<lambda>i. heap st (k + i))\<rparr>"
    by (intro exI [of _ bd'] exI [of _ "k + k'"]) (simp add: st1 st2 add.assoc)
  then show ?thesis using a(2) same_fsD(2,3) [OF a(1)] by (simp add: only_data_def)
qed

lemma same_only: "same_fs st st1 \<Longrightarrow> only_data ip st st1"
  using same_fsD(2) [of st st1] by (auto simp: only_data_def same_fs_def)

lemma write_same:
  assumes "inode_ok st ip" and "rich st" and "deny_write_cnt (inodes st ip) = 0"
  shows "\<exists>st'. inode_write_at ip buf offset st = Some (min (length buf) (nat (inode_length ip st) - offset), st')
    \<and> only_data ip st st' \<and> rich st' \<and> inode_ok st' ip \<and> contents st' ip = overwrite offset buf (contents st ip)"
proof -
  obtain bd' where w: "inode_write_at ip buf offset st = Some (min (length buf) (nat (inode_length ip st) - offset), st\<lparr>fs_bd := bd', heap := (\<lambda>i. heap st (Suc i))\<rparr>)"
      "full_dev (fs_device st) bd'" "file_bytes (dev_sector (fs_device st) bd') (i_data (inodes st ip)) = overwrite offset buf (contents st ip)"
      "\<forall>s. unat s < unat (d_start (i_data (inodes st ip))) \<or> unat (d_start (i_data (inodes st ip))) + data_sectors (i_data (inodes st ip)) \<le> unat s
         \<longrightarrow> dev_sector (fs_device st) bd' s = disk st s"
    using inode_write_ok [OF assms(1) _ assms(3), of buf offset] assms(2) unfolding rich_def by blast
  let ?st = "st\<lparr>fs_bd := bd', heap := (\<lambda>i. heap st (Suc i))\<rparr>"
  have "only_data ip st ?st" unfolding only_data_def using w(4) by (intro conjI exI [of _ bd'] exI [of _ 1]) auto
  moreover have "inode_ok ?st ip" "rich ?st" using w(2) assms(1,2) by (simp_all add: inode_ok_def rich_def)
  moreover have "contents ?st ip = overwrite offset buf (contents st ip)" using w(3) by (simp add: contents_def)
  ultimately show ?thesis using w(1) by blast
qed

lemma overwrite_end [simp]: "overwrite (length c) buf c = c"
  by (simp add: overwrite_def)

text \<open>A name in a free slot.\<close>

lemma fill_slot_map:
  assumes ok: "dir_ok st ip" and j: "j < entry_cnt st ip" "\<not> e_in_use (entry st ip j)" and None: "find_name st ip nm = None"
    and nm: "length nm \<le> 14" "0 \<notin> set nm" and e: "length e = 20"
    and c: "contents st' ip = overwrite (20 * j) (fill_entry e nm s) (contents st ip)" and len: "inode_length ip st' = inode_length ip st" "inode_ok st' ip"
  shows "dir_ok st' ip" and "dir_map st' ip = (dir_map st ip)(nm \<mapsto> s)"
proof -
  note fill = fill_entry_simps [OF e nm, of s]
  note rep = replace_entry [OF ok j(1) fill(1) c len]
  have absent: "\<not> holds (entry st ip k) nm" if "k < entry_cnt st ip" for k using None that by (simp add: find_name_None)
  show "dir_ok st' ip" using rep(3) fill absent by simp
  have "find_name st' ip nm = Some j"
    unfolding find_name_def rep(1) using j rep(2) absent fill by (intro find_unique) (auto simp: holds_def split: if_splits)
  then have "dir_map st' ip nm = Some s" using rep(2) [OF j(1)] fill(2) by (simp add: dir_map_def)
  moreover have "dir_map st' ip x = dir_map st ip x" if "x \<noteq> nm" for x
  proof -
    have "holds (entry st' ip k) x = holds (entry st ip k) x" if "k < entry_cnt st ip" for k
      using rep(2) [OF that] fill j(2) \<open>x \<noteq> nm\<close> by (auto simp: holds_def)
    then have "find_name st' ip x = find_name st ip x" unfolding find_name_def rep(1) by (intro find_cong) auto
    moreover have "find_name st ip x \<noteq> Some j" using find_name_Some [of st ip x j] j(2) by (auto simp: holds_def)
    ultimately show ?thesis using rep(2) find_name_Some [of st ip x] by (cases "find_name st ip x") (auto simp: dir_map_def)
  qed
  ultimately show "dir_map st' ip = (dir_map st ip)(nm \<mapsto> s)" by auto
qed

lemma dir_add_ok:
  assumes ok: "dir_ok st ip" and rich: "rich st" and deny: "deny_write_cnt (inodes st ip) = 0" and ip: "ip = dir_inode d"
    and nm: "nm \<noteq> []" "length nm \<le> 14" "0 \<notin> set nm" and e: "length e = 20"
  shows "\<exists>st'. dir_add e d nm s st = Some (dir_map st ip nm = None \<and> (\<exists>k < entry_cnt st ip. \<not> e_in_use (entry st ip k)), st')
    \<and> dir_ok st' ip \<and> rich st' \<and> only_data ip st st'
    \<and> dir_map st' ip = (if dir_map st ip nm = None \<and> (\<exists>k < entry_cnt st ip. \<not> e_in_use (entry st ip k)) then (dir_map st ip)(nm \<mapsto> s) else dir_map st ip)"
proof -
  obtain st1 where st1: "lookup d nm st = Some (map_option (\<lambda>j. (entry st ip j, 20 * j)) (find_name st ip nm), st1)" "same_fs st st1" "rich st1"
    using lookup_ok [of st d nm] ok rich nm ip by blast
  note same1 = same_dir [OF st1(2)] same_fsD [OF st1(2)]
  show ?thesis
  proof (cases "find_name st ip nm")
    case (Some j)
    then have "dir_add e d nm s st = Some (False, st1)" using st1(1) nm by (simp add: dir_add_def NAME_MAX_def)
    then show ?thesis using Some st1 ok same1 same_only by (simp add: dir_map_def)
  next
    case None
    obtain st2 e2 where st2: "slot_loop ip e 0 st1 = Some (e2, 20 * (case List.find (\<lambda>k. \<not> e_in_use (entry st ip k)) [0..<entry_cnt st ip] of None \<Rightarrow> entry_cnt st ip | Some j \<Rightarrow> j), st2)"
        "length e2 = 20" "same_fs st1 st2" "rich st2"
      using slot_loop_ok [of st1 ip e 0, unfolded same1] ok st1(3) e by auto
    have s2: "same_fs st st2" using same_fs_trans st1(2) st2(3) by blast
    note same2 = same_dir [OF s2] same_fsD [OF s2]
    let ?b = "fill_entry e2 nm s" and ?o = "20 * (case List.find (\<lambda>k. \<not> e_in_use (entry st ip k)) [0..<entry_cnt st ip] of None \<Rightarrow> entry_cnt st ip | Some j \<Rightarrow> j)"
    note fill = fill_entry_simps [OF st2(2) nm(2,3), of s]
    obtain st3 where st3: "inode_write_at ip ?b ?o st2 = Some (min 20 (nat (inode_length ip st) - ?o), st3)" "only_data ip st2 st3" "rich st3" "inode_ok st3 ip"
        "contents st3 ip = overwrite ?o ?b (contents st ip)"
      using write_same [of st2 ip ?b ?o] st2(4) ok deny same2 fill(1) by (auto simp: dir_ok_def)
    have run: "dir_add e d nm s st = Some (min 20 (nat (inode_length ip st) - ?o) = 20, st3)"
      using st1(1) st2(1) st3(1) None nm ip by (simp add: dir_add_def NAME_MAX_def dir_entry_size_def)
    have od: "only_data ip st st3" using same_then_write [OF s2 st3(2)] .
    have len: "inode_length ip st3 = inode_length ip st" "nat (inode_length ip st) = 20 * entry_cnt st ip" "inode_ok st ip" using only_dataD [OF od] ok by (simp_all add: dir_ok_def)
    show ?thesis
    proof (cases "List.find (\<lambda>k. \<not> e_in_use (entry st ip k)) [0..<entry_cnt st ip]")
      case full: None
      then have full': "\<not> (\<exists>k < entry_cnt st ip. \<not> e_in_use (entry st ip k))" by (auto simp: find_None_iff)
      have "contents st3 ip = contents st ip" using st3(5) full len(2) overwrite_end [of "contents st ip" ?b] by simp
      then show ?thesis using same_contents [of st3 ip st] run full full' st3 od len ok by auto
    next
      case (Some j)
      then have j: "j < entry_cnt st ip" "\<not> e_in_use (entry st ip j)" by (auto simp: find_Some_iff)
      have c: "contents st3 ip = overwrite (20 * j) ?b (contents st ip)" using st3(5) Some by simp
      note new = fill_slot_map [OF ok j None nm(2,3) st2(2) c len(1) st3(4)]
      have "min 20 (nat (inode_length ip st) - 20 * j) = 20" using j(1) len(2) by auto
      then show ?thesis using run Some j None new st3(3) od by (auto simp: dir_map_def)
    qed
  qed
qed

section \<open>Removing a name\<close>

lemma clear_entry_simps: "length e = 20 \<Longrightarrow> length (e[19 := 0]) = 20 \<and> \<not> e_in_use (e[19 := 0])"
  by (simp add: e_in_use_def)

lemma clear_slot_map:
  assumes ok: "dir_ok st ip" and j: "find_name st ip nm = Some j"
    and c: "contents st' ip = overwrite (20 * j) ((entry st ip j)[19 := 0]) (contents st ip)" and len: "inode_length ip st' = inode_length ip st" "inode_ok st' ip"
  shows "dir_ok st' ip" and "dir_map st' ip = (dir_map st ip)(nm := None)"
proof -
  have j: "j < entry_cnt st ip" "holds (entry st ip j) nm" using find_name_Some [OF j] by auto
  note clear = clear_entry_simps [OF length_entry [OF ok j(1)]]
  note rep = replace_entry [OF ok j(1) conjunct1 [OF clear] c len]
  show "dir_ok st' ip" using rep(3) clear by simp
  have only: "k = j" if "k < entry_cnt st ip" "holds (entry st ip k) nm" for k
    using dir_ok_unique [OF ok that(1) j(1)] that(2) j(2) by (simp add: holds_def)
  have "\<not> holds (entry st' ip k) nm" if k: "k < entry_cnt st ip" for k
    using rep(2) [OF k] clear only [OF k] by (cases "k = j") (auto simp: holds_def)
  then have "find_name st' ip nm = None" unfolding find_name_None rep(1) by blast
  then have "dir_map st' ip nm = None" by (simp add: dir_map_def)
  moreover have "dir_map st' ip x = dir_map st ip x" if "x \<noteq> nm" for x
  proof -
    have "holds (entry st' ip k) x = holds (entry st ip k) x" if "k < entry_cnt st ip" for k
      using rep(2) [OF that] clear j(2) \<open>x \<noteq> nm\<close> by (auto simp: holds_def)
    then have "find_name st' ip x = find_name st ip x" unfolding find_name_def rep(1) by (intro find_cong) auto
    moreover have "find_name st ip x \<noteq> Some j" using find_name_Some [of st ip x j] j(2) that by (auto simp: holds_def)
    ultimately show ?thesis using rep(2) find_name_Some [of st ip x] by (cases "find_name st ip x") (auto simp: dir_map_def)
  qed
  ultimately show "dir_map st' ip = (dir_map st ip)(nm := None)" by auto
qed

text \<open>Removing a file that is open: the name goes at once, the inode stays open and is marked for removal.\<close>

lemma inode_open_again:
  assumes "List.find (\<lambda>ip. i_sector (inodes st ip) = sector) (open_inodes st) = Some ip" and "ip \<noteq> 0"
  shows "inode_open sector st = Some (ip, set_inode ip ((inodes st ip)\<lparr>open_cnt := open_cnt (inodes st ip) + 1\<rparr>) st)"
  using assms by (simp add: inode_open_def inode_reopen_def)

lemma dir_remove_open:
  assumes ok: "dir_ok st ip" and rich: "rich st" and deny: "deny_write_cnt (inodes st ip) = 0" and ip: "ip = dir_inode d"
    and nm: "0 \<notin> set nm" "dir_map st ip nm = Some s"
    and jp: "List.find (\<lambda>ip. i_sector (inodes st ip) = s) (open_inodes st) = Some jp" "jp \<noteq> 0" "jp \<noteq> ip" "open_cnt (inodes st jp) > 0"
  shows "\<exists>st'. dir_remove d nm st = Some (True, st') \<and> dir_ok st' ip \<and> rich st' \<and> dir_map st' ip = (dir_map st ip)(nm := None)
    \<and> inodes st' = (inodes st)(jp := (inodes st jp)\<lparr>removed := True\<rparr>) \<and> open_inodes st' = open_inodes st \<and> fs_device st' = fs_device st
    \<and> (\<forall>s. unat s < unat (d_start (i_data (inodes st ip)))
          \<or> unat (d_start (i_data (inodes st ip))) + data_sectors (i_data (inodes st ip)) \<le> unat s \<longrightarrow> disk st' s = disk st s)"
proof -
  obtain j where j: "find_name st ip nm = Some j" "e_inode_sector (entry st ip j) = s" using nm(2) by (auto simp: dir_map_def)
  obtain st1 where st1: "lookup d nm st = Some (Some (entry st ip j, 20 * j), st1)" "same_fs st st1" "rich st1"
    using lookup_ok [of st d nm] ok rich nm ip j(1) by auto
  note same1 = same_dir [OF st1(2)] same_fsD [OF st1(2)]
  define st2 where "st2 = set_inode jp ((inodes st jp)\<lparr>open_cnt := open_cnt (inodes st jp) + 1\<rparr>) st1"
  have op: "inode_open s st1 = Some (jp, st2)" using inode_open_again [of st1 s jp] jp(1,2) same1 by (simp add: st2_def)
  have k2: "contents st2 ip = contents st ip" "inode_ok st2 ip" "rich st2" "deny_write_cnt (inodes st2 ip) = 0" "inode_length ip st2 = inode_length ip st"
    using jp(3) same1 st1(3) ok deny by (simp_all add: st2_def set_inode_def contents_def inode_ok_def full_dev_def rich_def inode_length_def dir_ok_def)
  let ?e = "(entry st ip j)[19 := 0]"
  have jl: "j < entry_cnt st ip" using find_name_Some [OF j(1)] by simp
  obtain st3 where st3: "inode_write_at ip ?e (20 * j) st2 = Some (min 20 (nat (inode_length ip st) - 20 * j), st3)" "only_data ip st2 st3" "rich st3" "inode_ok st3 ip"
      "contents st3 ip = overwrite (20 * j) ?e (contents st ip)"
    using write_same [OF k2(2-4), of ?e "20 * j"] k2(1,5) clear_entry_simps [OF length_entry [OF ok jl]] by auto
  have n: "min 20 (nat (inode_length ip st) - 20 * j) = 20" using jl ok by (auto simp: dir_ok_def)
  define st4 where "st4 = st3\<lparr>inodes := (inodes st)(jp := (inodes st jp)\<lparr>removed := True\<rparr>)\<rparr>"
  note od = only_dataD [OF st3(2)]
  have i3: "inodes st3 = (inodes st)(jp := (inodes st jp)\<lparr>open_cnt := open_cnt (inodes st jp) + 1\<rparr>)" using od same1 by (simp add: st2_def set_inode_def)
  have "inode_remove jp st3 \<bind> inode_close jp = Some st4"
    using jp(2,4) i3 by (simp add: inode_remove_def inode_close_def set_inode_def st4_def)
  then have "dir_remove d nm st = Some (True, st4)"
    using st1(1) op st3(1) n j(2) jp(2) ip by (cases "inode_remove jp st3") (simp_all add: dir_remove_def dir_entry_size_def)
  moreover have "contents st4 ip = overwrite (20 * j) ?e (contents st ip)" "inode_ok st4 ip" "inode_length ip st4 = inode_length ip st" "rich st4"
  proof -
    have "inodes st4 ip = inodes st3 ip" "inodes st4 ip = inodes st ip" using i3 jp(3) by (simp_all add: st4_def)
    moreover have "fs_device st4 = fs_device st3" "fs_bd st4 = fs_bd st3" "heap st4 = heap st3" by (simp_all add: st4_def)
    ultimately show "contents st4 ip = overwrite (20 * j) ?e (contents st ip)" "inode_ok st4 ip" "inode_length ip st4 = inode_length ip st" "rich st4"
      using st3(3-5) by (simp_all add: contents_def inode_ok_def inode_length_def rich_def)
  qed
  moreover from this have "dir_ok st4 ip" "dir_map st4 ip = (dir_map st ip)(nm := None)" using clear_slot_map [OF ok j(1)] by blast+
  moreover have "open_inodes st4 = open_inodes st" "fs_device st4 = fs_device st" using od same1 by (simp_all add: st4_def st2_def set_inode_def)
  moreover have "disk st4 x = disk st x" if "unat x < unat (d_start (i_data (inodes st ip))) \<or> unat (d_start (i_data (inodes st ip))) + data_sectors (i_data (inodes st ip)) \<le> unat x" for x
    using that st3(2) jp(3) same1 od by (auto simp: only_data_def st4_def st2_def set_inode_def)
  moreover have "inodes st4 = (inodes st)(jp := (inodes st jp)\<lparr>removed := True\<rparr>)" by (simp add: st4_def)
  ultimately show ?thesis by blast
qed

end
