(* ===== verification/Filesys_Ok.thy ===== *)
theory Filesys_Ok
  imports Dir_Map
begin

text \<open>
  The file system as a whole: the free map and its file, creating an inode, and creating and
  opening a file by its name.
\<close>

section \<open>Writing the free map\<close>

lemma length_words_bytes [simp]: "length (words_bytes ws) = 4 * length ws"
  by (induction ws) (simp_all add: words_bytes_def)

lemma byte_cnt_le: "bm_rep b xs \<Longrightarrow> byte_cnt (bit_cnt b) \<le> 4 * length (bits b)"
  by (auto simp: bm_rep_def bm_ok_def byte_cnt_def elem_cnt_def)

text \<open>The sectors that hold the data of an inode.\<close>

definition data_span :: "inode_disk \<Rightarrow> nat set" where
  "data_span d = span (unat (d_start d), data_sectors d)"

abbreviation fm_inode :: "fs \<Rightarrow> nat" where
  "fm_inode st \<equiv> f_inode (files st (free_map_file st))"

abbreviation fm_span :: "fs \<Rightarrow> nat set" where
  "fm_span st \<equiv> data_span (i_data (inodes st (fm_inode st)))"

text \<open>\<open>fm_ok st xs\<close>: the free map stands for \<open>xs\<close>, one bit for each sector, and its file is open, can hold the map, and has its sectors marked.\<close>

definition fm_ok :: "fs \<Rightarrow> bool list \<Rightarrow> bool" where
  "fm_ok st xs \<longleftrightarrow> bm_rep (free_map st) xs \<and> length xs = unat (blk_size (fs_device st)) \<and> free_map_file st \<noteq> 0
     \<and> inode_ok st (fm_inode st) \<and> deny_write_cnt (inodes st (fm_inode st)) = 0
     \<and> byte_cnt (bit_cnt (free_map st)) \<le> nat (inode_length (fm_inode st) st) \<and> fm_span st \<subseteq> marked xs"

lemma outside_span: "unat s \<notin> data_span d \<longleftrightarrow> unat s < unat (d_start d) \<or> unat (d_start d) + data_sectors d \<le> unat s"
  by (auto simp: data_span_def span_def)

lemma bitmap_write_ok:
  assumes "fm_ok st xs" and "rich st" and "bm_rep b ys" and "bit_cnt b = bit_cnt (free_map st)"
  shows "\<exists>bd h. bitmap_write b (free_map_file st) st = Some (True, st\<lparr>fs_bd := bd, heap := h\<rparr>) \<and> (\<forall>i. h i = heap st (Suc i))
    \<and> full_dev (fs_device st) bd \<and> (\<forall>s. unat s \<notin> fm_span st \<longrightarrow> dev_sector (fs_device st) bd s = disk st s)"
proof -
  let ?sz = "byte_cnt (bit_cnt b)" and ?ip = "fm_inode st"
  have l: "length (take ?sz (words_bytes (bits b))) = ?sz" using byte_cnt_le [OF assms(3)] by simp
  obtain bd' where "inode_write_at ?ip (take ?sz (words_bytes (bits b))) 0 st
      = Some (min ?sz (nat (inode_length ?ip st)), st\<lparr>fs_bd := bd', heap := (\<lambda>i. heap st (Suc i))\<rparr>)" "full_dev (fs_device st) bd'"
      "\<forall>s. unat s \<notin> fm_span st \<longrightarrow> dev_sector (fs_device st) bd' s = disk st s"
    using inode_write_ok [of st ?ip "take ?sz (words_bytes (bits b))" 0] assms(1,2) unfolding fm_ok_def rich_def outside_span l by auto
  moreover have "min ?sz (nat (inode_length ?ip st)) = ?sz" using assms(1,4) by (simp add: fm_ok_def)
  ultimately show ?thesis by (auto simp: bitmap_write_def file_write_at_def)
qed

section \<open>Allocating and releasing sectors\<close>

text \<open>What the operations on the free map change.\<close>

definition fm_step :: "fs \<Rightarrow> fs \<Rightarrow> bool" where
  "fm_step st st' \<longleftrightarrow> (\<exists>bd k b. st' = st\<lparr>fs_bd := bd, heap := (\<lambda>i. heap st (k + i)), free_map := b\<rparr>)
     \<and> full_dev (fs_device st) (fs_bd st') \<and> (\<forall>s. unat s \<notin> fm_span st \<longrightarrow> disk st' s = disk st s)"

lemma fm_step_ok:
  assumes "fm_ok st xs" and "fm_step st st'" and "bm_rep (free_map st') ys" and "length ys = length xs" and "fm_span st \<subseteq> marked ys"
  shows "fm_ok st' ys"
proof -
  obtain bd k b where st': "st' = st\<lparr>fs_bd := bd, heap := (\<lambda>i. heap st (k + i)), free_map := b\<rparr>" "full_dev (fs_device st) bd" using assms(2) by (auto simp: fm_step_def)
  have "bit_cnt (free_map st') = bit_cnt (free_map st)" using assms(1,3,4) bm_rep_length by (fastforce simp: fm_ok_def)
  then show ?thesis using assms st' by (simp add: fm_ok_def inode_ok_def inode_length_def)
qed

lemma fm_write:
  assumes ok: "fm_ok st xs" and rich: "rich st" and b: "bm_rep b ys" and len: "length ys = length xs"
  shows "\<exists>st'. bitmap_write b (free_map_file st) (st\<lparr>free_map := b\<rparr>) = Some (True, st') \<and> fm_step st st' \<and> free_map st' = b \<and> rich st'"
proof -
  have cnt: "bit_cnt b = bit_cnt (free_map st)" using ok b len bm_rep_length [of b ys] bm_rep_length [of "free_map st" xs] by (simp add: fm_ok_def)
  let ?st = "st\<lparr>free_map := b\<rparr>"
  have "\<exists>bd h. bitmap_write b (free_map_file st) st = Some (True, st\<lparr>fs_bd := bd, heap := h\<rparr>) \<and> (\<forall>i. h i = heap st (Suc i))
    \<and> full_dev (fs_device st) bd \<and> (\<forall>s. unat s \<notin> fm_span st \<longrightarrow> dev_sector (fs_device st) bd s = disk st s)"
    using bitmap_write_ok [OF ok rich b cnt] .
  then obtain bd h where w: "bitmap_write b (free_map_file st) st = Some (True, st\<lparr>fs_bd := bd, heap := h\<rparr>)" "\<forall>i. h i = heap st (Suc i)"
      "full_dev (fs_device st) bd" "\<forall>s. unat s \<notin> fm_span st \<longrightarrow> dev_sector (fs_device st) bd s = disk st s" by blast
  have "bitmap_write b (free_map_file st) ?st = map_option (\<lambda>(r, st). (r, st\<lparr>free_map := b\<rparr>)) (bitmap_write b (free_map_file st) st)"
    by (cases "deny_write_cnt (inodes st (fm_inode st)) = 0";
        cases "write_loop (fs_device st) (i_data (inodes st (fm_inode st))) (heap st 0 \<noteq> 0) (take (byte_cnt (bit_cnt b)) (words_bytes (bits b))) 0 (fs_bd st)")
      (auto simp: bitmap_write_def file_write_at_def inode_write_at_def malloc_def)
  then have "bitmap_write b (free_map_file st) ?st = Some (True, st\<lparr>fs_bd := bd, heap := h, free_map := b\<rparr>)" using w(1) by simp
  moreover have "fm_step st (st\<lparr>fs_bd := bd, heap := h, free_map := b\<rparr>)"
    unfolding fm_step_def using w(2-4) by (intro conjI exI [of _ bd] exI [of _ 1] exI [of _ b]) (auto simp: fun_eq_iff)
  moreover have "rich (st\<lparr>fs_bd := bd, heap := h, free_map := b\<rparr>)" using rich w(2) by (simp add: rich_def)
  ultimately show ?thesis by auto
qed

lemma free_map_allocate_ok:
  assumes ok: "fm_ok st xs" and rich: "rich st" and run: "\<exists>i. run_at xs i n False"
  shows "\<exists>i st'. free_map_allocate n st = Some (i, st') \<and> i \<noteq> BITMAP_ERROR \<and> run_at xs i n False
    \<and> (\<forall>j < i. \<not> run_at xs j n False) \<and> fm_ok st' (fill xs i n True) \<and> fm_step st st' \<and> rich st'"
proof -
  have rep: "bm_rep (free_map st) xs" "fm_span st \<subseteq> marked xs" "free_map_file st \<noteq> 0" using ok by (simp_all add: fm_ok_def)
  obtain i b where b: "bitmap_scan_and_flip (free_map st) 0 n False = Some (i, b)" "i \<noteq> BITMAP_ERROR" "run_at xs i n False" "bm_rep b (fill xs i n True)"
      "\<forall>j < i. \<not> run_at xs j n False"
    using bm.alloc_total [OF rep(1), of n] run by metis
  obtain st' where st': "bitmap_write b (free_map_file st) (st\<lparr>free_map := b\<rparr>) = Some (True, st')" "fm_step st st'" "free_map st' = b" "rich st'"
    using fm_write [OF ok rich b(4)] by auto
  have "free_map_allocate n st = Some (i, st')" using b st' rep(3) by (simp add: free_map_allocate_def)
  moreover have "fm_span st \<subseteq> marked (fill xs i n True)" using rep(2) b(3) by (auto simp: marked_fill_True run_at_def)
  then have "fm_ok st' (fill xs i n True)" using fm_step_ok [OF ok st'(2)] st'(3) b(4) by simp
  ultimately show ?thesis using b st' by blast
qed

text \<open>No run of free sectors is long enough.\<close>

lemma free_map_allocate_full:
  assumes "fm_ok st xs" and "\<forall>i. \<not> run_at xs i n False"
  shows "free_map_allocate n st = Some (BITMAP_ERROR, st)"
  using assms bm.alloc_full [of "free_map st" xs n] by (simp add: fm_ok_def free_map_allocate_def)

lemma free_map_release_ok:
  assumes ok: "fm_ok st xs" and rich: "rich st" and run: "run_at xs i n True" and apart: "span (i, n) \<inter> fm_span st = {}"
  shows "\<exists>st'. free_map_release i n st = Some st' \<and> fm_ok st' (fill xs i n False) \<and> fm_step st st' \<and> rich st'"
proof -
  have rep: "bm_rep (free_map st) xs" "fm_span st \<subseteq> marked xs" "i + n \<le> length xs" using ok run by (simp_all add: fm_ok_def run_at_def)
  obtain b where b: "bitmap_set_multiple (free_map st) i n False = Some b" "bm_rep b (fill xs i n False)" using bm.release_run [OF rep(1,3)] by blast
  have "bitmap_all (free_map st) i n = Some True" using rep(1) run by (auto simp: bitmap_all_def bitmap_contains_rep run_at_def)
  moreover obtain st' where st': "bitmap_write b (free_map_file st) (st\<lparr>free_map := b\<rparr>) = Some (True, st')" "fm_step st st'" "free_map st' = b" "rich st'"
    using fm_write [OF ok rich b(2)] by auto
  ultimately have "free_map_release i n st = Some st'" using b by (simp add: free_map_release_def)
  moreover have "fm_span st \<subseteq> marked (fill xs i n False)" using rep(2) apart by (auto simp: marked_fill_False)
  then have "fm_ok st' (fill xs i n False)" using fm_step_ok [OF ok st'(2)] st'(3) b(2) by simp
  ultimately show ?thesis using st' by blast
qed

section \<open>Creating an inode\<close>

lemma full_dev_write:
  assumes "full_dev dev bd" and "s < blk_size dev" and "length v = 512"
  shows "\<exists>bd'. block_write dev s v bd = Some bd' \<and> full_dev dev bd' \<and> dev_sector dev bd' = (dev_sector dev bd)(s := v)"
  using blk.write_law [of dev s v bd] assms by (auto simp: full_dev_def)

lemma zero_loop_ok:
  assumes "full_dev (fs_device st) (fs_bd st)" and "unat start + n \<le> unat (blk_size (fs_device st))"
  shows "\<exists>bd. zero_loop n start st = Some (st\<lparr>fs_bd := bd\<rparr>) \<and> full_dev (fs_device st) bd
    \<and> (\<forall>s. dev_sector (fs_device st) bd s = (if unat s \<in> span (unat start, n) then replicate 512 0 else disk st s))"
  using assms
proof (induction n arbitrary: start st)
  case 0
  then show ?case by (intro exI [of _ "fs_bd st"]) (simp add: span_def)
next
  case (Suc n)
  have s: "start < blk_size (fs_device st)" using Suc.prems(2) by (simp add: word_less_nat_alt)
  then have u: "unat (start + 1) = unat start + 1"
    using Suc.prems(2) unat_bound [of "blk_size (fs_device st)"] by (simp add: unat_word_ariths)
  obtain bd1 where bd1: "block_write (fs_device st) start (replicate 512 0) (fs_bd st) = Some bd1" "full_dev (fs_device st) bd1"
      "dev_sector (fs_device st) bd1 = (disk st)(start := replicate 512 0)"
    using full_dev_write [OF Suc.prems(1) s, of "replicate 512 0"] by auto
  obtain bd2 where bd2: "zero_loop n (start + 1) (st\<lparr>fs_bd := bd1\<rparr>) = Some (st\<lparr>fs_bd := bd2\<rparr>)" "full_dev (fs_device st) bd2"
      "\<forall>s. dev_sector (fs_device st) bd2 s = (if unat s \<in> span (unat (start + 1), n) then replicate 512 0 else dev_sector (fs_device st) bd1 s)"
    using Suc.IH [of "st\<lparr>fs_bd := bd1\<rparr>" "start + 1"] bd1(2) Suc.prems(2) u by auto
  have "dev_sector (fs_device st) bd2 x = (if unat x \<in> span (unat start, Suc n) then replicate 512 0 else disk st x)" for x
  proof (cases "x = start")
    case False
    then have "unat x \<noteq> unat start" by (simp add: word_unat_eq_iff)
    then show ?thesis using bd2(3) bd1(3) False u by (auto simp: span_def)
  qed (use bd2(3) bd1(3) u in \<open>simp add: span_def\<close>)
  then show ?case using bd1(1) bd2(1,2) by auto
qed

lemma inode_create_ok:
  assumes ok: "fm_ok st xs" and rich: "rich st" and sec: "unat sector \<in> marked xs" "unat sector \<notin> fm_span st"
    and len: "0 \<le> len" "len + 512 < 2 ^ 31" and run: "\<exists>i. run_at xs i ((nat len + 511) div 512) False"
  shows "\<exists>i st' d. inode_create sector len st = Some (True, st') \<and> run_at xs i (data_sectors d) False \<and> fm_ok st' (fill xs i (data_sectors d) True) \<and> rich st'
    \<and> (\<exists>bd k b. st' = st\<lparr>fs_bd := bd, heap := (\<lambda>i. heap st (k + i)), free_map := b\<rparr>)
    \<and> disk_inode (disk st' sector) = d \<and> d = \<lparr>d_start = of_nat i, d_length = len, d_magic = INODE_MAGIC\<rparr> \<and> unat (d_start d) = i
    \<and> file_bytes (disk st') d = replicate (nat len) 0
    \<and> (\<forall>s. unat s \<notin> fm_span st \<longrightarrow> s \<noteq> sector \<longrightarrow> unat s \<notin> data_span d \<longrightarrow> disk st' s = disk st s)"
proof -
  define n where "n = (nat len + 511) div 512"
  define st0 where "st0 = st\<lparr>heap := (\<lambda>i. heap st (Suc i))\<rparr>"
  have st0: "fm_ok st0 xs" "rich st0" "fm_span st0 = fm_span st" using ok rich by (simp_all add: st0_def fm_ok_def rich_def inode_ok_def inode_length_def)
  have sectors: "bytes_to_sectors len = Some n"
    using len by (simp add: bytes_to_sectors_def n_def nat_div_distrib nat_add_distrib)
  obtain i st1 where a: "free_map_allocate n st0 = Some (i, st1)" "i \<noteq> BITMAP_ERROR" "run_at xs i n False" "fm_ok st1 (fill xs i n True)" "fm_step st0 st1" "rich st1"
    using free_map_allocate_ok [OF st0(1,2), of n] run unfolding n_def by blast
  obtain bd k b where "st1 = st0\<lparr>fs_bd := bd, heap := (\<lambda>i. heap st0 (k + i)), free_map := b\<rparr>" using a(5) unfolding fm_step_def by blast
  then have st1: "st1 = st\<lparr>fs_bd := bd, heap := (\<lambda>i. heap st (Suc k + i)), free_map := b\<rparr>" by (simp add: st0_def)
  define d where "d = \<lparr>d_start = of_nat i, d_length = len, d_magic = INODE_MAGIC\<rparr>"
  have dn: "data_sectors d = n" by (simp add: data_sectors_def d_def n_def)
  have xs: "length xs = unat (blk_size (fs_device st))" using ok by (simp add: fm_ok_def)
  have i: "i + n \<le> unat (blk_size (fs_device st))" using a(3) xs by (simp add: run_at_def)
  then have iu: "unat (of_nat i :: u32) = i" using unat_bound [of "blk_size (fs_device st)"] by (simp add: unat_of_nat)
  have full1: "full_dev (fs_device st) bd" using a(5) st1 by (simp add: fm_step_def st0_def)
  have "sector < blk_size (fs_device st)" using sec(1) xs by (simp add: marked_def word_less_nat_alt)
  then obtain bd2 where bd2: "block_write (fs_device st) sector (disk_bytes d) bd = Some bd2" "full_dev (fs_device st) bd2"
      "dev_sector (fs_device st) bd2 = (dev_sector (fs_device st) bd)(sector := disk_bytes d)"
    using full_dev_write [OF full1, of sector "disk_bytes d"] by auto
  obtain bd3 where bd3: "zero_loop n (of_nat i) (st1\<lparr>fs_bd := bd2\<rparr>) = Some (st1\<lparr>fs_bd := bd3\<rparr>)" "full_dev (fs_device st) bd3"
      "\<forall>s. dev_sector (fs_device st) bd3 s = (if unat s \<in> span (i, n) then replicate 512 0 else dev_sector (fs_device st) bd2 s)"
    using zero_loop_ok [of "st1\<lparr>fs_bd := bd2\<rparr>" "of_nat i" n] bd2(2) i iu st1 by auto
  define st' where "st' = st1\<lparr>fs_bd := bd3\<rparr>"
  have "inode_create sector len st = Some (True, st')"
    using rich a(1,2) sectors bd2(1) bd3(1) st1 len(1) by (simp add: inode_create_def malloc_def rich_def st'_def st0_def d_def)
  moreover have "fm_ok st' (fill xs i n True)" using a(4) bd3(2) st1 by (simp add: st'_def fm_ok_def inode_ok_def inode_length_def)
  moreover have "rich st'" using a(6) by (simp add: st'_def rich_def)
  moreover have ns: "unat sector \<notin> span (i, n)" using sec(1) run_at_free [OF a(3)] by auto
  have "disk_inode (disk st' sector) = d" using bd3(3) bd2(3) ns disk_inode_bytes [of d] len st1 by (simp add: st'_def d_def)
  moreover have "file_bytes (disk st') d = replicate (nat len) 0"
  proof (rule nth_equalityI)
    fix k assume "k < length (file_bytes (disk st') d)"
    then have k: "k < nat (d_length d)" by simp
    have "in_dev (fs_device st) d" using i iu dn by (simp add: in_dev_def d_def)
    then have "unat (d_start d + of_nat (k div 512)) = i + k div 512" using sector_in_dev(1) [of "fs_device st" d k] k iu by (simp add: d_def)
    then have "unat (d_start d + of_nat (k div 512)) \<in> span (i, n)" using sector_index [OF k] dn by (simp add: span_def)
    then show "file_bytes (disk st') d ! k = replicate (nat len) 0 ! k" using bd3(3) k st1 by (simp add: file_bytes_def file_byte_def st'_def d_def)
  qed (simp add: d_def)
  moreover have "disk st' s = disk st s" if "unat s \<notin> fm_span st" "s \<noteq> sector" "unat s \<notin> data_span d" for s
  proof -
    have "disk st1 s = disk st s" using a(5) that(1) st0(3) by (simp add: fm_step_def st0_def)
    then show ?thesis using that bd3(3) bd2(3) iu dn st1 by (simp add: st'_def data_span_def d_def)
  qed
  moreover have "\<exists>bd k b. st' = st\<lparr>fs_bd := bd, heap := (\<lambda>i. heap st (k + i)), free_map := b\<rparr>"
    using st1 by (intro exI [of _ bd3] exI [of _ "Suc k"] exI [of _ b]) (simp add: st'_def)
  ultimately show ?thesis using a(3) iu dn by (intro exI [of _ i] exI [of _ st'] exI [of _ d]) (simp add: d_def)
qed

section \<open>Directories in different states\<close>

text \<open>The contents of a file depend on its data sectors only.\<close>

lemma file_bytes_cong:
  assumes "in_dev dev d" and "\<And>s. unat s \<in> data_span d \<Longrightarrow> sec' s = sec s"
  shows "file_bytes sec' d = file_bytes sec d"
proof -
  have "file_byte sec' d k = file_byte sec d k" if k: "k < nat (d_length d)" for k
  proof -
    have "unat (d_start d + of_nat (k div 512)) \<in> data_span d"
      using sector_in_dev(1) [OF assms(1) k] sector_index [OF k] by (simp add: data_span_def span_def)
    then show ?thesis using assms(2) by (simp add: file_byte_def)
  qed
  then show ?thesis by (simp add: file_bytes_def)
qed

lemma contents_cong:
  assumes "in_dev (fs_device st) (i_data (inodes st ip))" and "i_data (inodes st' ip') = i_data (inodes st ip)"
    and "\<And>s. unat s \<in> data_span (i_data (inodes st ip)) \<Longrightarrow> disk st' s = disk st s"
  shows "contents st' ip' = contents st ip"
  using file_bytes_cong [OF assms(1,3)] assms(2) by (simp add: contents_def)

lemma same_dir_data:
  assumes "contents st' ip' = contents st ip" and "inode_length ip' st' = inode_length ip st" and "inode_ok st ip" and "inode_ok st' ip'"
  shows "entry_cnt st' ip' = entry_cnt st ip" and "entry st' ip' k = entry st ip k" and "dir_ok st' ip' = dir_ok st ip" and "dir_map st' ip' = dir_map st ip"
  using assms by (simp_all add: dir_ok_def dir_map_def find_name_def entry_def entry_cnt_def fun_eq_iff)

text \<open>Opening an inode that is not open, and closing it again.\<close>

lemma inode_open_new:
  assumes "full_dev (fs_device st) (fs_bd st)" and "s < blk_size (fs_device st)" and "heap st 0 \<noteq> 0" and "\<forall>ip \<in> set (open_inodes st). i_sector (inodes st ip) \<noteq> s"
  shows "\<exists>bd. inode_open s st = Some (heap st 0, st\<lparr>inodes := (inodes st)(heap st 0 := \<lparr>i_sector = s, open_cnt = 1, removed = False,
            deny_write_cnt = 0, i_data = disk_inode (disk st s)\<rparr>), open_inodes := heap st 0 # open_inodes st, fs_bd := bd, heap := (\<lambda>i. heap st (Suc i))\<rparr>)
    \<and> dev_sector (fs_device st) bd = disk st"
proof -
  obtain bd where bd: "block_read (fs_device st) s (fs_bd st) = Some (disk st s, bd)" "dev_sector (fs_device st) bd = disk st"
    using blk.read_law [of "fs_device st" s "fs_bd st"] assms(1,2) by (auto simp: full_dev_def)
  have "List.find (\<lambda>ip. i_sector (inodes st ip) = s) (open_inodes st) = None" using assms(4) by (auto simp: find_None_iff)
  then show ?thesis using assms(3) bd by (intro exI [of _ bd]) (simp add: inode_open_def malloc_def set_inode_def)
qed

lemma inode_close_last:
  assumes "ip \<noteq> 0" and "open_cnt (inodes st ip) = 1" and "\<not> removed (inodes st ip)"
  shows "inode_close ip st = Some (st\<lparr>inodes := (inodes st)(ip := (inodes st ip)\<lparr>open_cnt := 0\<rparr>), open_inodes := remove1 ip (open_inodes st)\<rparr>)"
  using assms by (simp add: inode_close_def set_inode_def)

section \<open>The root directory\<close>

text \<open>
  \<open>probe st s\<close> has the inode in sector \<open>s\<close> at address 0, at which no inode can be open: what the
  inode would look like when it is opened.
\<close>

definition probe :: "fs \<Rightarrow> u32 \<Rightarrow> fs" where
  "probe st s = st\<lparr>inodes := (inodes st)(0 := \<lparr>i_sector = s, open_cnt = 1, removed = False, deny_write_cnt = 0, i_data = disk_inode (disk st s)\<rparr>)\<rparr>"

definition root_map :: "fs \<Rightarrow> u8 list \<Rightarrow> u32 option" where
  "root_map st = dir_map (probe st ROOT_DIR_SECTOR) 0"

definition root_span :: "fs \<Rightarrow> nat set" where
  "root_span st = data_span (disk_inode (disk st ROOT_DIR_SECTOR))"

definition root_has_slot :: "fs \<Rightarrow> bool" where
  "root_has_slot st \<longleftrightarrow> (\<exists>k < entry_cnt (probe st ROOT_DIR_SECTOR) 0. \<not> e_in_use (entry (probe st ROOT_DIR_SECTOR) 0 k))"

text \<open>
  The state between calls of the file system: the root directory is closed, its sectors, those of
  the free map file and those of the open inodes are marked as used, and memory comes at addresses
  that are not in use.
\<close>

definition fresh_heap :: "fs \<Rightarrow> bool" where
  "fresh_heap st \<longleftrightarrow> inj (heap st) \<and> (\<forall>i. heap st i \<noteq> 0 \<and> heap st i \<notin> set (open_inodes st) \<and> heap st i \<noteq> free_map_file st)"

definition fs_ok :: "fs \<Rightarrow> bool list \<Rightarrow> bool" where
  "fs_ok st xs \<longleftrightarrow> fm_ok st xs \<and> dir_ok (probe st ROOT_DIR_SECTOR) 0 \<and> fresh_heap st
     \<and> 1 \<in> marked xs \<and> 1 \<notin> fm_span st \<and> root_span st \<subseteq> marked xs \<and> root_span st \<inter> fm_span st = {} \<and> 1 \<notin> root_span st
     \<and> fm_inode st \<in> set (open_inodes st) \<and> 0 \<notin> set (open_inodes st)
     \<and> (\<forall>ip \<in> set (open_inodes st). i_sector (inodes st ip) \<noteq> ROOT_DIR_SECTOR \<and> unat (i_sector (inodes st ip)) \<in> marked xs)"

lemma unat_ROOT_DIR_SECTOR [simp]: "unat ROOT_DIR_SECTOR = 1"
  by (simp add: ROOT_DIR_SECTOR_def)

text \<open>The state in which the root directory is open at address \<open>a\<close>.\<close>

definition root_open :: "fs \<Rightarrow> fs \<Rightarrow> nat \<Rightarrow> bool" where
  "root_open st st' a \<longleftrightarrow> (\<exists>bd h. st' = st\<lparr>inodes := (inodes st)(a := \<lparr>i_sector = ROOT_DIR_SECTOR, open_cnt = 1, removed = False, deny_write_cnt = 0,
        i_data = disk_inode (disk st ROOT_DIR_SECTOR)\<rparr>), open_inodes := a # open_inodes st, fs_bd := bd, heap := h\<rparr>
      \<and> dev_sector (fs_device st) bd = disk st \<and> (\<forall>i. h i = heap st (Suc (Suc i))))"

lemma dir_open_root_ok:
  assumes "fs_ok st xs"
  shows "\<exists>st'. dir_open_root st = Some (Some \<lparr>dir_inode = heap st 0, dir_pos = 0\<rparr>, st') \<and> root_open st st' (heap st 0)"
proof -
  have ok: "full_dev (fs_device st) (fs_bd st)" "heap st 0 \<noteq> 0" "heap st 1 \<noteq> 0" "\<forall>ip \<in> set (open_inodes st). i_sector (inodes st ip) \<noteq> ROOT_DIR_SECTOR"
    using assms by (auto simp: fs_ok_def fm_ok_def inode_ok_def fresh_heap_def)
  have "ROOT_DIR_SECTOR < blk_size (fs_device st)" using assms by (simp add: fs_ok_def fm_ok_def marked_def word_less_nat_alt)
  from inode_open_new [OF ok(1) this ok(2,4)] obtain bd where
    "inode_open ROOT_DIR_SECTOR st = Some (heap st 0, st\<lparr>inodes := (inodes st)(heap st 0 := \<lparr>i_sector = ROOT_DIR_SECTOR, open_cnt = 1, removed = False,
       deny_write_cnt = 0, i_data = disk_inode (disk st ROOT_DIR_SECTOR)\<rparr>), open_inodes := heap st 0 # open_inodes st, fs_bd := bd, heap := (\<lambda>i. heap st (Suc i))\<rparr>)"
    "dev_sector (fs_device st) bd = disk st" by blast
  then show ?thesis using ok(2,3) by (auto simp: dir_open_root_def dir_open_def malloc_def root_open_def intro!: exI [of _ bd])
qed

lemma root_openD:
  assumes "root_open st st' a" and "fs_ok st xs" and "a = heap st 0"
  shows "fm_ok st' xs" and "rich st'" and "fm_span st' = fm_span st" and "disk st' = disk st" and "dir_ok st' a" and "dir_map st' a = root_map st"
    and "(\<exists>k < entry_cnt st' a. \<not> e_in_use (entry st' a k)) = root_has_slot st" and "data_span (i_data (inodes st' a)) = root_span st"
    and "fs_device st' = fs_device st" and "deny_write_cnt (inodes st' a) = 0"
proof -
  obtain bd h where st': "st' = st\<lparr>inodes := (inodes st)(a := \<lparr>i_sector = ROOT_DIR_SECTOR, open_cnt = 1, removed = False, deny_write_cnt = 0,
        i_data = disk_inode (disk st ROOT_DIR_SECTOR)\<rparr>), open_inodes := a # open_inodes st, fs_bd := bd, heap := h\<rparr>"
      "dev_sector (fs_device st) bd = disk st" "\<forall>i. h i = heap st (Suc (Suc i))" using assms(1) by (auto simp: root_open_def)
  have "heap st 0 \<notin> set (open_inodes st)" "fm_inode st \<in> set (open_inodes st)" using assms(2) by (simp_all add: fs_ok_def fresh_heap_def)
  then have a: "a \<noteq> fm_inode st" using assms(3) by auto
  have full: "full_dev (fs_device st) bd" using st'(2) assms(2) by (simp add: fs_ok_def fm_ok_def inode_ok_def full_dev_def)
  show f: "fm_span st' = fm_span st" "disk st' = disk st" "data_span (i_data (inodes st' a)) = root_span st" "fs_device st' = fs_device st" "deny_write_cnt (inodes st' a) = 0"
    using a st'(1,2) by (simp_all add: root_span_def)
  show "fm_ok st' xs" using assms(2) a st'(1) full by (simp add: fs_ok_def fm_ok_def inode_ok_def inode_length_def)
  show "rich st'" using assms(2) st'(1,3) by (simp add: fs_ok_def fresh_heap_def rich_def)
  let ?p = "probe st ROOT_DIR_SECTOR"
  have d: "contents st' a = contents ?p 0" "inode_length a st' = inode_length 0 ?p" "inode_ok ?p 0" "inode_ok st' a"
    using assms(2) st'(1,2) full by (simp_all add: contents_def probe_def inode_length_def inode_ok_def fs_ok_def dir_ok_def)
  note same = same_dir_data [OF d]
  show "dir_ok st' a" "dir_map st' a = root_map st" "(\<exists>k < entry_cnt st' a. \<not> e_in_use (entry st' a k)) = root_has_slot st"
    using assms(2) by (simp_all add: same fs_ok_def root_map_def root_has_slot_def)
qed

end
