(* ===== verification/Filesys_Create.thy ===== *)
theory Filesys_Create
  imports Filesys_Ok
begin

text \<open>
  Creating a file and opening it by its name: the properties of filesys/filesys.c that rest on
  those of inodes, directories and the free map.
\<close>

section \<open>A new inode\<close>

lemma two_runs:
  assumes "run_at xs i (Suc n) False" and "run_at xs j 1 False" and "\<forall>k < j. \<not> run_at xs k 1 False"
  shows "\<exists>k. run_at (fill xs j 1 True) k n False"
proof -
  have "run_at xs i 1 False" using assms(1) by (auto simp: run_at_def)
  then have "j \<le> i" using assms(3) by (meson not_le)
  then have "run_at (fill xs j 1 True) (Suc i) n False" using assms(1,2) by (auto simp: run_at_def)
  then show ?thesis ..
qed

lemma marked_fill_mono: "marked xs \<subseteq> marked (fill xs i n True)"
  by (auto simp: marked_def)

text \<open>A sector for the inode and sectors for the data, which were free before.\<close>

lemma new_inode:
  assumes ok: "fm_ok st xs" and rich: "rich st" and len: "0 \<le> len" "len + 512 < 2 ^ 31"
    and space: "\<exists>i. run_at xs i (Suc ((nat len + 511) div 512)) False"
  shows "\<exists>i st1 st' d ys. free_map_allocate 1 st = Some (i, st1) \<and> i \<noteq> BITMAP_ERROR \<and> inode_create (of_nat i) len st1 = Some (True, st')
    \<and> unat (of_nat i :: u32) = i \<and> i \<notin> marked xs \<and> i \<in> marked ys \<and> marked xs \<subseteq> marked ys \<and> fm_ok st' ys \<and> rich st'
    \<and> (\<exists>bd k b. st' = st\<lparr>fs_bd := bd, heap := (\<lambda>i. heap st (k + i)), free_map := b\<rparr>)
    \<and> disk_inode (disk st' (of_nat i)) = d \<and> d_length d = len \<and> in_dev (fs_device st) d \<and> file_bytes (disk st') d = replicate (nat len) 0
    \<and> data_span d \<subseteq> marked ys \<and> data_span d \<inter> marked xs = {} \<and> i \<notin> data_span d
    \<and> (\<forall>s. unat s \<in> marked xs \<longrightarrow> unat s \<notin> fm_span st \<longrightarrow> disk st' s = disk st s)"
proof -
  have "\<exists>i. run_at xs i 1 False" using space by (force simp: run_at_def)
  then obtain i st1 where a: "free_map_allocate 1 st = Some (i, st1)" "i \<noteq> BITMAP_ERROR" "run_at xs i 1 False" "\<forall>j < i. \<not> run_at xs j 1 False"
      "fm_ok st1 (fill xs i 1 True)" "fm_step st st1" "rich st1"
    using free_map_allocate_ok [OF ok rich] by blast
  obtain bd k b where st1: "st1 = st\<lparr>fs_bd := bd, heap := (\<lambda>i. heap st (k + i)), free_map := b\<rparr>" using a(6) unfolding fm_step_def by blast
  have i: "i < unat (blk_size (fs_device st))" "i \<notin> marked xs" "i \<in> marked (fill xs i 1 True)"
    using a(3) ok by (auto simp: run_at_def fm_ok_def marked_def)
  then have iu: "unat (of_nat i :: u32) = i" using unat_bound [of "blk_size (fs_device st)"] by (simp add: unat_of_nat)
  have span: "fm_span st1 = fm_span st" "fm_span st \<subseteq> marked xs" using st1 ok by (simp_all add: fm_ok_def)
  have sec: "unat (of_nat i :: u32) \<in> marked (fill xs i 1 True)" "unat (of_nat i :: u32) \<notin> fm_span st1" using i span iu by auto
  have run: "\<exists>j. run_at (fill xs i 1 True) j ((nat len + 511) div 512) False" using two_runs [OF _ a(3,4)] space by blast
  obtain j st' d bd' k' b' where c: "inode_create (of_nat i) len st1 = Some (True, st')" "run_at (fill xs i 1 True) j (data_sectors d) False"
      "fm_ok st' (fill (fill xs i 1 True) j (data_sectors d) True)" "rich st'"
      "st' = st1\<lparr>fs_bd := bd', heap := (\<lambda>i. heap st1 (k' + i)), free_map := b'\<rparr>"
      "disk_inode (disk st' (of_nat i)) = d" "d = \<lparr>d_start = of_nat j, d_length = len, d_magic = INODE_MAGIC\<rparr>" "unat (d_start d) = j"
      "file_bytes (disk st') d = replicate (nat len) 0"
      "\<forall>s. unat s \<notin> fm_span st1 \<longrightarrow> s \<noteq> of_nat i \<longrightarrow> unat s \<notin> data_span d \<longrightarrow> disk st' s = disk st1 s"
    using inode_create_ok [OF a(5,7) sec len run] by (elim exE conjE) (rule that)
  let ?ys = "fill (fill xs i 1 True) j (data_sectors d) True"
  have m: "marked xs \<subseteq> marked (fill xs i 1 True)" "marked (fill xs i 1 True) \<subseteq> marked ?ys" by (rule marked_fill_mono)+
  have ds: "data_span d = span (j, data_sectors d)" using c(8) by (simp add: data_span_def)
  have free: "data_span d \<inter> marked (fill xs i 1 True) = {}" using run_at_free [OF c(2)] by (auto simp: ds)
  have "data_span d \<subseteq> marked ?ys" using c(2) unfolding ds by (subst marked_fill_True) (auto simp: run_at_def)
  moreover have "in_dev (fs_device st) d" using c(2,8) ok by (simp add: in_dev_def run_at_def fm_ok_def)
  moreover have "st' = st\<lparr>fs_bd := bd', heap := (\<lambda>i. heap st ((k + k') + i)), free_map := b'\<rparr>" using c(5) st1 by (simp add: add.assoc)
  then have "\<exists>bd k b. st' = st\<lparr>fs_bd := bd, heap := (\<lambda>i. heap st (k + i)), free_map := b\<rparr>" by blast
  moreover have "disk st' s = disk st s" if "unat s \<in> marked xs" "unat s \<notin> fm_span st" for s
  proof -
    have "s \<noteq> of_nat i" "unat s \<notin> data_span d" using that(1) i(2) iu free m(1) by auto
    then have "disk st' s = disk st1 s" using c(10) that span(1) by simp
    then show ?thesis using a(6) that(2) by (simp add: fm_step_def)
  qed
  moreover have "d_length d = len" using c(7) by simp
  ultimately show ?thesis using a(1,2) c(1,3,4,6,9) iu i m free by (intro exI [of _ i] exI [of _ st1] exI [of _ st'] exI [of _ d] exI [of _ ?ys]) blast
qed

section \<open>Creating a file\<close>

text \<open>The root directory is closed again: what it takes to be between calls.\<close>

lemma root_closed:
  assumes ok: "fs_ok st xs" and a: "a = heap st 0"
    and st3: "fm_ok st3 ys" "marked xs \<subseteq> marked ys" "inodes st3 = (inodes st)(a := i)" "files st3 = files st" "free_map_file st3 = free_map_file st"
      "fs_device st3 = fs_device st" "open_inodes st3 = a # open_inodes st" "\<exists>k. \<forall>i. heap st3 i = heap st (Suc (Suc (k + i)))"
    and root: "disk_inode (disk st3 ROOT_DIR_SECTOR) = disk_inode (disk st ROOT_DIR_SECTOR)"
    and i: "i_data i = disk_inode (disk st ROOT_DIR_SECTOR)" "open_cnt i = 1" "\<not> removed i" and dir: "dir_ok st3 a"
  shows "\<exists>st'. inode_close a st3 = Some st' \<and> fs_ok st' ys \<and> root_map st' = dir_map st3 a \<and> disk st' = disk st3 \<and> open_inodes st' = open_inodes st
    \<and> files st' = files st \<and> (\<forall>ip \<in> set (open_inodes st). inodes st' ip = inodes st ip) \<and> fs_device st' = fs_device st
    \<and> (\<exists>k. \<forall>i. heap st' i = heap st (Suc (Suc (k + i))))"
proof -
  have fresh: "heap st j \<noteq> 0" "heap st j \<notin> set (open_inodes st)" "heap st j \<noteq> free_map_file st" "inj (heap st)" for j using ok by (simp_all add: fs_ok_def fresh_heap_def)
  have "fm_inode st \<in> set (open_inodes st)" using ok by (simp add: fs_ok_def)
  then have a': "a \<noteq> 0" "a \<notin> set (open_inodes st)" "a \<noteq> fm_inode st" using a fresh(1,2) [of 0] by auto
  define st' where "st' = st3\<lparr>inodes := (inodes st3)(a := (inodes st3 a)\<lparr>open_cnt := 0\<rparr>), open_inodes := open_inodes st\<rparr>"
  have close: "inode_close a st3 = Some st'" using inode_close_last [of a st3] a'(1) i st3(3,7) by (simp add: st'_def)
  have d: "disk st' = disk st3" "fs_device st' = fs_device st" by (simp_all add: st'_def st3)
  have span: "fm_span st' = fm_span st" "fm_inode st' = fm_inode st" using a'(3) st3(3-5) by (simp_all add: st'_def)
  have fm: "fm_ok st' ys" using st3(1,3-5) a'(3) by (simp add: st'_def fm_ok_def inode_ok_def inode_length_def)
  have p: "contents (probe st' ROOT_DIR_SECTOR) 0 = contents st3 a" "inode_length 0 (probe st' ROOT_DIR_SECTOR) = inode_length a st3"
      "inode_ok st3 a" "inode_ok (probe st' ROOT_DIR_SECTOR) 0"
    using dir i(1) root st3(3) by (simp_all add: probe_def contents_def inode_length_def inode_ok_def st'_def dir_ok_def)
  note same = same_dir_data [OF p]
  obtain k where k: "\<forall>i. heap st3 i = heap st (Suc (Suc (k + i)))" using st3(8) by blast
  then have h: "heap st' i = heap st (Suc (Suc (k + i)))" for i by (simp add: st'_def)
  have "inj (heap st')" using injD [OF fresh(4)] by (fastforce simp: h intro: injI)
  then have "fresh_heap st'" using fresh(1-3) h by (simp add: fresh_heap_def st'_def st3(5))
  moreover have "root_span st' = root_span st" using root by (simp add: root_span_def d(1))
  moreover have "\<forall>ip \<in> set (open_inodes st). inodes st' ip = inodes st ip" using a'(2) st3(3) by (auto simp: st'_def)
  ultimately have "fs_ok st' ys" using ok fm same(3) dir span st3(2) unfolding fs_ok_def by (auto simp: st'_def)
  moreover have "\<forall>ip \<in> set (open_inodes st). inodes st' ip = inodes st ip" by fact
  moreover have "root_map st' = dir_map st3 a" using same(4) by (simp add: root_map_def)
  moreover have "files st' = files st" "open_inodes st' = open_inodes st" by (simp_all add: st'_def st3)
  ultimately show ?thesis using close d h by blast
qed

text \<open>The same after the updates of one call: the root directory was opened, then the free map and the directory were written.\<close>

lemma root_closed_after:
  assumes ok: "fs_ok st xs" and a: "a = heap st 0" and st1: "root_open st st1 a"
    and st3: "st3 = st1\<lparr>fs_bd := bd, heap := (\<lambda>i. heap st1 (k + i)), free_map := b\<rparr>" and fm: "fm_ok st3 ys" and mono: "marked xs \<subseteq> marked ys"
    and only: "only_data a st3 st4" and dir: "dir_ok st4 a" and root: "disk st4 ROOT_DIR_SECTOR = disk st ROOT_DIR_SECTOR"
  shows "\<exists>st'. inode_close a st4 = Some st' \<and> fs_ok st' ys \<and> root_map st' = dir_map st4 a \<and> disk st' = disk st4 \<and> open_inodes st' = open_inodes st
    \<and> files st' = files st \<and> (\<forall>ip \<in> set (open_inodes st). inodes st' ip = inodes st ip) \<and> fs_device st' = fs_device st
    \<and> (\<exists>k. \<forall>i. heap st' i = heap st (Suc (Suc (k + i))))"
proof -
  obtain bd1 h1 where o1: "st1 = st\<lparr>inodes := (inodes st)(a := \<lparr>i_sector = ROOT_DIR_SECTOR, open_cnt = 1, removed = False, deny_write_cnt = 0,
        i_data = disk_inode (disk st ROOT_DIR_SECTOR)\<rparr>), open_inodes := a # open_inodes st, fs_bd := bd1, heap := h1\<rparr>" "\<forall>i. h1 i = heap st (Suc (Suc i))"
    using st1 by (auto simp: root_open_def)
  obtain bd4 k4 where o4: "st4 = st3\<lparr>fs_bd := bd4, heap := (\<lambda>i. heap st3 (k4 + i))\<rparr>" using only by (auto simp: only_data_def)
  have fm4: "fm_ok st4 ys" using fm dir by (simp add: o4 fm_ok_def dir_ok_def inode_ok_def inode_length_def)
  have h4: "heap st4 i = heap st (Suc (Suc ((k + k4) + i)))" for i by (simp add: o4 st3 o1 add.assoc)
  have p: "inodes st4 = (inodes st)(a := inodes st1 a)" "files st4 = files st" "free_map_file st4 = free_map_file st" "fs_device st4 = fs_device st"
      "open_inodes st4 = a # open_inodes st" "i_data (inodes st1 a) = disk_inode (disk st ROOT_DIR_SECTOR)" "open_cnt (inodes st1 a) = 1" "\<not> removed (inodes st1 a)"
    by (simp_all add: o4 st3 o1(1))
  have hx: "\<exists>k. \<forall>i. heap st4 i = heap st (Suc (Suc (k + i)))" using h4 by blast
  show ?thesis by (rule root_closed [OF ok a fm4 mono p(1-5) hx arg_cong [OF root] p(6-8) dir])
qed

lemma filesys_create_ok:
  assumes ok: "fs_ok st xs" and nm: "nm \<noteq> []" "length nm \<le> 14" "0 \<notin> set nm" and e: "length e = 20"
    and len: "0 \<le> len" "len + 512 < 2 ^ 31" and space: "\<exists>i. run_at xs i (Suc ((nat len + 511) div 512)) False"
    and root: "root_map st nm = None" "root_has_slot st"
  shows "\<exists>st' s ys d. filesys_create e nm len st = Some (True, st') \<and> fs_ok st' ys \<and> root_map st' = (root_map st)(nm \<mapsto> s)
    \<and> unat s \<notin> marked xs \<and> unat s \<in> marked ys \<and> disk_inode (disk st' s) = d \<and> d_length d = len \<and> in_dev (fs_device st') d
    \<and> file_bytes (disk st') d = replicate (nat len) 0
    \<and> (\<forall>x. unat x \<in> marked xs \<longrightarrow> unat x \<notin> fm_span st \<longrightarrow> unat x \<notin> root_span st \<longrightarrow> disk st' x = disk st x)
    \<and> open_inodes st' = open_inodes st \<and> (\<forall>ip \<in> set (open_inodes st). inodes st' ip = inodes st ip)"
proof -
  define a where "a = heap st 0"
  obtain st1 where st1: "dir_open_root st = Some (Some \<lparr>dir_inode = a, dir_pos = 0\<rparr>, st1)" "root_open st st1 a"
    using dir_open_root_ok [OF ok] unfolding a_def by blast
  note r = root_openD [OF st1(2) ok a_def]
  obtain i st2 st3 d ys bd k b where n: "free_map_allocate 1 st1 = Some (i, st2)" "i \<noteq> BITMAP_ERROR" "inode_create (of_nat i) len st2 = Some (True, st3)"
      "unat (of_nat i :: u32) = i" "i \<notin> marked xs" "i \<in> marked ys" "marked xs \<subseteq> marked ys" "fm_ok st3 ys" "rich st3"
      "st3 = st1\<lparr>fs_bd := bd, heap := (\<lambda>i. heap st1 (k + i)), free_map := b\<rparr>"
      "disk_inode (disk st3 (of_nat i)) = d" "d_length d = len" "in_dev (fs_device st1) d" "file_bytes (disk st3) d = replicate (nat len) 0"
      "data_span d \<subseteq> marked ys" "data_span d \<inter> marked xs = {}" "i \<notin> data_span d"
      "\<forall>s. unat s \<in> marked xs \<longrightarrow> unat s \<notin> fm_span st1 \<longrightarrow> disk st3 s = disk st1 s"
    using new_inode [OF r(1,2) len space] by (elim exE conjE) (rule that)
  note st3 = n(10)
  have sp: "root_span st \<subseteq> marked xs" "root_span st \<inter> fm_span st = {}" "1 \<in> marked xs" "1 \<notin> fm_span st" "1 \<notin> root_span st" using ok by (simp_all add: fs_ok_def)
  have i3: "inodes st3 a = inodes st1 a" "inodes st3 = inodes st1" by (simp_all add: st3)
  have "disk st3 s = disk st1 s" if "unat s \<in> root_span st" for s using that n(18) sp(1,2) unfolding r(3) by blast
  moreover have "in_dev (fs_device st1) (i_data (inodes st1 a))" using r(5) by (simp add: dir_ok_def inode_ok_def)
  ultimately have c3: "contents st3 a = contents st1 a" by (intro contents_cong) (simp_all add: i3 r(8))
  have ok3: "inode_ok st3 a" "inode_ok st1 a" using r(5) n(8) i3 by (simp_all add: dir_ok_def inode_ok_def fm_ok_def st3)
  note same = same_dir_data [OF c3 _ ok3(2,1)]
  have d3: "dir_ok st3 a" "dir_map st3 a = root_map st" "\<exists>k < entry_cnt st3 a. \<not> e_in_use (entry st3 a k)"
    using same r(5,6,7) root(2) i3 by (simp_all add: inode_length_def)
  obtain st4 where st4: "dir_add e \<lparr>dir_inode = a, dir_pos = 0\<rparr> nm (of_nat i) st3 = Some (True, st4)" "dir_ok st4 a" "only_data a st3 st4"
      "dir_map st4 a = (root_map st)(nm \<mapsto> of_nat i)"
    using dir_add_ok [OF d3(1) n(9) _ _ nm e, of "\<lparr>dir_inode = a, dir_pos = 0\<rparr>" "of_nat i"] d3 root(1) r(10) i3 by auto
  have keep: "disk st4 x = disk st3 x" if "unat x \<notin> root_span st" for x
    using st4(3) that r(8) i3(1) unfolding only_data_def outside_span [symmetric] by simp
  have root4: "disk st4 ROOT_DIR_SECTOR = disk st ROOT_DIR_SECTOR" using keep [of ROOT_DIR_SECTOR] n(18) sp r(3,4) by simp
  obtain st' where st': "inode_close a st4 = Some st'" "fs_ok st' ys" "root_map st' = dir_map st4 a" "disk st' = disk st4" "open_inodes st' = open_inodes st"
      "\<forall>ip \<in> set (open_inodes st). inodes st' ip = inodes st ip" "fs_device st' = fs_device st"
    using root_closed_after [OF ok a_def st1(2) st3 n(8,7) st4(3,2) root4] by blast
  have i: "unat (of_nat i :: u32) \<notin> root_span st" using n(4,5) sp(1) by auto
  have "filesys_create e nm len st = Some (True, st')"
    using st1(1) n(1-3) st4(1) st'(1) by (simp add: filesys_create_def dir_close_def)
  moreover have "disk_inode (disk st' (of_nat i)) = d" using keep [OF i] n(11) st'(4) by simp
  moreover have "file_bytes (disk st') d = replicate (nat len) 0"
    using file_bytes_cong [OF n(13), of "disk st4" "disk st3"] keep n(14,16) sp(1) st'(4) by auto
  moreover have "disk st' x = disk st x" if "unat x \<in> marked xs" "unat x \<notin> fm_span st" "unat x \<notin> root_span st" for x
    using keep [OF that(3)] n(18) that(1,2) r(3,4) st'(4) by simp
  ultimately show ?thesis using st' st4(4) n(4-6,12,13) r(9)
    by (intro exI [of _ st'] exI [of _ "of_nat i"] exI [of _ ys] exI [of _ d]) simp
qed

section \<open>Opening a file\<close>

lemma filesys_open_ok:
  assumes ok: "fs_ok st xs" and nm: "0 \<notin> set nm" "root_map st nm = Some s" and s: "s < blk_size (fs_device st)" "s \<noteq> ROOT_DIR_SECTOR"
    and closed: "\<forall>ip \<in> set (open_inodes st). i_sector (inodes st ip) \<noteq> s"
  shows "\<exists>f st'. filesys_open nm st = Some (f, st') \<and> f \<noteq> 0 \<and> f_pos (files st' f) = 0 \<and> rich st'
    \<and> i_data (inodes st' (f_inode (files st' f))) = disk_inode (disk st s) \<and> deny_write_cnt (inodes st' (f_inode (files st' f))) = 0
    \<and> disk st' = disk st \<and> fs_device st' = fs_device st"
proof -
  define a where "a = heap st 0"
  obtain st1 where st1: "dir_open_root st = Some (Some \<lparr>dir_inode = a, dir_pos = 0\<rparr>, st1)" "root_open st st1 a"
    using dir_open_root_ok [OF ok] unfolding a_def by blast
  note r = root_openD [OF st1(2) ok a_def]
  have "dir_map st1 a nm = Some s" using nm(2) r(6) by simp
  then obtain j where j: "find_name st1 a nm = Some j" "e_inode_sector (entry st1 a j) = s" by (auto simp: dir_map_def)
  obtain st2 where st2: "lookup \<lparr>dir_inode = a, dir_pos = 0\<rparr> nm st1 = Some (Some (entry st1 a j, 20 * j), st2)" "same_fs st1 st2" "rich st2"
    using lookup_ok [of st1 "\<lparr>dir_inode = a, dir_pos = 0\<rparr>" nm] r(2,5) nm(1) j(1) by auto
  note same = same_fsD [OF st2(2)]
  have o1: "open_inodes st1 = a # open_inodes st" "inodes st1 = (inodes st)(a := inodes st1 a)" "i_sector (inodes st1 a) = ROOT_DIR_SECTOR"
      "open_cnt (inodes st1 a) = 1" "\<not> removed (inodes st1 a)" and h1: "\<And>i. heap st1 i = heap st (Suc (Suc i))"
    using st1(2) by (auto simp: root_open_def)
  define b where "b = heap st2 0"
  obtain k where k: "heap st2 i = heap st (Suc (Suc (k + i)))" for i using st2(2) h1 by (auto simp: same_fs_def)
  have ab: "a \<noteq> 0" "b \<noteq> 0" "a \<noteq> b" "heap st2 1 \<noteq> 0" "a \<notin> set (open_inodes st)"
    using ok injD [of "heap st" 0 "Suc (Suc k)"] by (auto simp: fs_ok_def fresh_heap_def a_def b_def k)
  have full: "full_dev (fs_device st2) (fs_bd st2)" using r(5) same(1,2,9) by (simp add: full_dev_def dir_ok_def inode_ok_def)
  have cl: "i_sector (inodes st2 ip) \<noteq> s" if "ip \<in> set (open_inodes st2)" for ip
  proof (cases "ip = a")
    case False
    then have "inodes st2 ip = inodes st ip" using fun_cong [OF o1(2), of ip] same(3) by simp
    then show ?thesis using closed that False o1(1) same(4) by simp
  qed (use s(2) o1(3) same(3) in simp)
  obtain bd where bd: "inode_open s st2 = Some (b, st2\<lparr>inodes := (inodes st2)(b := \<lparr>i_sector = s, open_cnt = 1, removed = False,
            deny_write_cnt = 0, i_data = disk_inode (disk st2 s)\<rparr>), open_inodes := b # open_inodes st2, fs_bd := bd, heap := (\<lambda>i. heap st2 (Suc i))\<rparr>)"
      "dev_sector (fs_device st2) bd = disk st2"
    using inode_open_new [OF full _ _ ] cl s(1) ab(2) same(1) r(9) unfolding b_def by auto
  define st3 where "st3 = st2\<lparr>inodes := (inodes st2)(b := \<lparr>i_sector = s, open_cnt = 1, removed = False,
            deny_write_cnt = 0, i_data = disk_inode (disk st2 s)\<rparr>), open_inodes := b # open_inodes st2, fs_bd := bd, heap := (\<lambda>i. heap st2 (Suc i))\<rparr>"
  define st4 where "st4 = st3\<lparr>inodes := (inodes st3)(a := (inodes st3 a)\<lparr>open_cnt := 0\<rparr>), open_inodes := remove1 a (open_inodes st3)\<rparr>"
  have close: "inode_close a st3 = Some st4" using inode_close_last [of a st3] ab o1(4,5) same(3) by (simp add: st3_def st4_def)
  let ?st' = "set_file (heap st2 1) \<lparr>f_inode = b, f_pos = 0, f_deny_write = False\<rparr> (st4\<lparr>heap := (\<lambda>i. heap st4 (Suc i))\<rparr>)"
  have "filesys_open nm st = Some (heap st2 1, ?st')"
    using st1(1) st2(1) j(2) bd(1) close ab by (simp add: filesys_open_def dir_lookup_def dir_close_def file_open_def malloc_def st3_def st4_def)
  moreover have "disk ?st' = disk st" "fs_device ?st' = fs_device st" "rich ?st'" using bd(2) same(1,2) r(4,9) st2(3)
    by (simp_all add: st3_def st4_def set_file_def rich_def)
  moreover have "inodes ?st' b = inodes st3 b" using ab(3) by (simp add: set_file_def st4_def)
  ultimately show ?thesis using ab same(2) r(4) by (intro exI [of _ "heap st2 1"] exI [of _ ?st']) (simp add: set_file_def st3_def)
qed

end
