(* ===== verification/Filesys_Props.thy ===== *)
theory Filesys_Props
  imports Filesys_Create
begin

text \<open>
  What the file system promises: what was written to a file is read back and other files stay as
  they are; a directory is a map from names to sectors; a file that is removed while it is open
  stays readable; and a new file can be opened and reads as zeros.  A small disk with one file
  shows that the conditions can be met.
\<close>

section \<open>An example\<close>

text \<open>
  A disk of 16 sectors: the inodes of the free map, of the root directory and of a file \<open>a\<close> of
  1000 bytes are in the sectors 0, 1 and 4, their data in the sectors 2, 3, and 5 to 6.
\<close>

definition example_entry :: "u8 list" where
  "example_entry = le32 4 @ [97] @ replicate 14 0 @ [1]"

definition example_root :: inode_disk where
  "example_root = \<lparr>d_start = 3, d_length = 320, d_magic = INODE_MAGIC\<rparr>"

definition example_data :: inode_disk where
  "example_data = \<lparr>d_start = 5, d_length = 1000, d_magic = INODE_MAGIC\<rparr>"

definition example_disk :: "u32 \<Rightarrow> sector" where
  "example_disk s = (if s = 1 then disk_bytes example_root else if s = 3 then example_entry @ replicate 492 0
     else if s = 4 then disk_bytes example_data else replicate 512 0)"

definition example_inode :: "nat \<Rightarrow> inode" where
  "example_inode ip = \<lparr>i_sector = (if ip = 100 then 0 else if ip = 101 then 1 else 4), open_cnt = 1, removed = False, deny_write_cnt = 0,
     i_data = (if ip = 100 then \<lparr>d_start = 2, d_length = 4, d_magic = INODE_MAGIC\<rparr> else if ip = 101 then example_root else example_data)\<rparr>"

definition example_fs :: "nat list \<Rightarrow> fs" where
  "example_fs opened =
     \<lparr>fs_bd = \<lparr>all_blocks = [], block_by_role = [None, None, None, None], disks = (\<lambda>_. example_disk), read_cnt = (\<lambda>_. 0), write_cnt = (\<lambda>_. 0)\<rparr>,
      fs_device = Block 0 ''hda2'' BLOCK_FILESYS 16 (ide_operations 0), inodes = example_inode, open_inodes = opened,
      files = (\<lambda>_. \<lparr>f_inode = 100, f_pos = 0, f_deny_write = False\<rparr>), free_map = \<lparr>bit_cnt = 16, bits = [127]\<rparr>, free_map_file = 200,
      heap = (\<lambda>i. 1000 + i)\<rparr>"

definition example_map :: "bool list" where
  "example_map = replicate 7 True @ replicate 9 False"

lemma example_simps [simp]:
  "dev_sector (Block 0 ''hda2'' BLOCK_FILESYS 16 (ide_operations 0)) (fs_bd (example_fs opened)) = example_disk" "fs_device (example_fs opened) = Block 0 ''hda2'' BLOCK_FILESYS 16 (ide_operations 0)"
  "inodes (example_fs opened) = example_inode" "open_inodes (example_fs opened) = opened" "heap (example_fs opened) i = 1000 + i"
  "files (example_fs opened) fp = \<lparr>f_inode = 100, f_pos = 0, f_deny_write = False\<rparr>" "free_map_file (example_fs opened) = 200"
  "free_map (example_fs opened) = \<lparr>bit_cnt = 16, bits = [127]\<rparr>"
  by (simp_all add: example_fs_def dev_sector_def fun_eq_iff)

lemma length_example_disk [simp]: "length (example_disk s) = 512"
  by (simp add: example_disk_def example_entry_def)

lemma example_inode_ok: "inode_ok (example_fs opened) ip"
  unfolding inode_ok_def full_dev_def by (simp add: in_dev_def data_sectors_def example_inode_def example_root_def example_data_def)

lemma example_rich: "rich (example_fs opened)"
  by (simp add: rich_def)

lemma one_sector_bytes:
  assumes "nat (d_length d) \<le> 512" and "length (sec (d_start d)) = 512"
  shows "file_bytes sec d = take (nat (d_length d)) (sec (d_start d))"
  by (rule nth_equalityI) (use assms in \<open>simp_all add: file_bytes_def file_byte_def\<close>)

lemma example_root_bytes: "file_bytes example_disk example_root = example_entry @ replicate 300 0"
  using one_sector_bytes [of example_root example_disk] by (simp add: example_root_def example_disk_def) (simp add: example_entry_def)

lemma example_entries:
  assumes "i_data (inodes st ip) = example_root" and "disk st = example_disk" and "k < 16"
  shows "entry st ip k = (if k = 0 then example_entry else replicate 20 0)"
proof (cases k)
  case 0
  then show ?thesis using assms by (simp add: entry_def contents_def example_root_bytes) (simp add: example_entry_def)
next
  case (Suc n)
  have "drop (20 * k) example_entry = []" using Suc by (simp add: example_entry_def)
  then show ?thesis using assms Suc by (simp add: entry_def contents_def example_root_bytes) (simp add: example_entry_def)
qed

lemma example_entry_fields [simp]:
  "e_in_use example_entry" "0 \<in> set (e_name example_entry)" "e_string example_entry = [97]" "e_inode_sector example_entry = 4"
  "\<not> e_in_use (replicate 20 0)"
  by (simp_all add: e_in_use_def example_entry_def e_name_def e_string_def e_inode_sector_def nth_append)

lemma example_dir:
  assumes "i_data (inodes st ip) = example_root" and "disk st = example_disk" and "inode_ok st ip"
  shows "dir_ok st ip" and "entry_cnt st ip = 16" and "dir_map st ip = [[97] \<mapsto> 4]"
proof -
  show c: "entry_cnt st ip = 16" using assms(1) by (simp add: entry_cnt_def inode_length_def example_root_def)
  note e = example_entries [OF assms(1,2)]
  show "dir_ok st ip" using assms e unfolding dir_ok_def c by (auto simp: inode_length_def example_root_def split: if_splits)
  have "[0..<16] = 0 # [Suc 0..<16]" by (simp add: upt_conv_Cons)
  moreover have "List.find (\<lambda>k. holds (entry st ip k) nm) [Suc 0..<16] = None" for nm using e by (auto simp: find_None_iff holds_def)
  ultimately have "find_name st ip nm = (if nm = [97] then Some 0 else None)" for nm
    unfolding find_name_def c using e [of 0] by (simp add: holds_def)
  then show "dir_map st ip = [[97] \<mapsto> 4]" using e [of 0] by (auto simp: dir_map_def fun_eq_iff)
qed

lemma example_fs_ok: "fs_ok (example_fs [100, 102]) example_map"
proof -
  let ?st = "example_fs [100, 102]"
  have root: "disk_inode (example_disk 1) = example_root" by (simp add: example_disk_def disk_inode_bytes example_root_def)
  have m: "marked example_map = {0..<7}" by (auto simp: marked_def example_map_def nth_append)
  have mask: "(127 :: u32) = mask 7" by (simp add: mask_eq_exp_minus_1)
  have bit: "bit (127 :: u32) i \<longleftrightarrow> i < 7" for i unfolding mask bit_mask_iff by auto
  have "bm_bits \<lparr>bit_cnt = 16, bits = [127]\<rparr> ! i = example_map ! i" if "i < 16" for i
    using that bit [of i] by (simp add: bm_bits_def example_map_def nth_append)
  then have "bm_bits \<lparr>bit_cnt = 16, bits = [127]\<rparr> = example_map" by (intro nth_equalityI) (simp_all add: example_map_def)
  then have b: "bm_rep \<lparr>bit_cnt = 16, bits = [127]\<rparr> example_map" by (simp add: bm_rep_def bm_ok_def)
  have "fm_ok ?st example_map" using example_inode_ok b m
    by (simp add: fm_ok_def inode_length_def example_inode_def data_span_def span_def data_sectors_def) (simp add: example_map_def byte_cnt_def elem_cnt_def)
  moreover have "dir_ok (probe ?st ROOT_DIR_SECTOR) 0"
    by (rule example_dir(1)) (use root example_inode_ok [of "[100, 102]" 101] in \<open>simp_all add: probe_def ROOT_DIR_SECTOR_def inode_ok_def example_inode_def\<close>)
  moreover have "fresh_heap ?st" by (auto simp: fresh_heap_def inj_def)
  moreover have "root_span ?st = {3}" using root by (auto simp: root_span_def ROOT_DIR_SECTOR_def data_span_def span_def data_sectors_def example_root_def)
  moreover have "fm_span ?st = {2}" by (auto simp: example_inode_def data_span_def span_def data_sectors_def)
  ultimately show ?thesis using m by (simp add: fs_ok_def example_inode_def ROOT_DIR_SECTOR_def)
qed

section \<open>Properties\<close>

text \<open>C16: What is written to an inode is read back: \<open>inode_write_at\<close> writes as many bytes as the size of the file allows, a later
  \<open>inode_read_at\<close> at any offset returns the bytes of the old contents with these bytes in place, up to the end of the file,
  and every file whose sectors are others keeps its contents.\<close>

theorem inode_write_then_read:
  assumes "inode_ok st ip" and "deny_write_cnt (inodes st ip) = 0" and "heap st 0 \<noteq> 0" and "heap st 1 \<noteq> 0"
  shows "\<exists>st1. inode_write_at ip buf offset st = Some (min (length buf) (nat (inode_length ip st) - offset), st1)
    \<and> (\<exists>st2. inode_read_at ip sz offset' st1 = Some (take sz (drop offset' (overwrite offset buf (contents st ip))), st2))
    \<and> (\<forall>jp. inode_ok st jp \<longrightarrow> data_span (i_data (inodes st jp)) \<inter> data_span (i_data (inodes st ip)) = {} \<longrightarrow> contents st1 jp = contents st jp)"
proof -
  let ?d = "i_data (inodes st ip)"
  obtain bd where w: "inode_write_at ip buf offset st
        = Some (min (length buf) (nat (inode_length ip st) - offset), st\<lparr>fs_bd := bd, heap := (\<lambda>i. heap st (Suc i))\<rparr>)"
      "full_dev (fs_device st) bd" "file_bytes (dev_sector (fs_device st) bd) ?d = overwrite offset buf (contents st ip)"
      "\<forall>s. unat s \<notin> data_span ?d \<longrightarrow> dev_sector (fs_device st) bd s = disk st s"
    using inode_write_ok [OF assms(1,3,2), of buf offset] unfolding outside_span [symmetric] by (elim exE conjE) (rule that)
  define st1 where "st1 = st\<lparr>fs_bd := bd, heap := (\<lambda>i. heap st (Suc i))\<rparr>"
  have st1: "inode_ok st1 ip" "heap st1 0 \<noteq> 0" "contents st1 ip = overwrite offset buf (contents st ip)"
    using assms w(2,3) by (simp_all add: st1_def inode_ok_def contents_def)
  have "contents st1 jp = contents st jp" if "inode_ok st jp" "data_span (i_data (inodes st jp)) \<inter> data_span ?d = {}" for jp
    by (rule contents_cong) (use that w(4) in \<open>auto simp: st1_def inode_ok_def\<close>)
  then show ?thesis using w(1) inode_read_ok [OF st1(1,2), of sz offset'] st1(3) unfolding st1_def by auto
qed

theorem inode_write_then_read_witness:
  "\<exists>st1. inode_write_at 102 [1, 2, 3] 511 (example_fs [100, 102]) = Some (3, st1)
    \<and> (\<exists>st2. inode_read_at 102 2 512 st1 = Some (take 2 (drop 512 (overwrite 511 [1, 2, 3] (contents (example_fs [100, 102]) 102))), st2))"
  using inode_write_then_read [OF example_inode_ok, of "[100, 102]" 102 "[1, 2, 3]" 511 2 512]
  by (auto simp: example_inode_def inode_length_def example_data_def)

text \<open>C17: A directory is a map from names to sectors.  \<open>dir_add\<close> with a valid name fails and leaves the map as it is when the name is in
  use or no entry is free; otherwise it adds the name and nothing else.  It keeps the directory well formed and changes no sector
  outside it, and looking up any name then gives the sector that the map has for it.\<close>

theorem dir_add_refines:
  assumes "dir_ok st (dir_inode d)" and "rich st" and "deny_write_cnt (inodes st (dir_inode d)) = 0"
    and "nm \<noteq> []" and "length nm \<le> NAME_MAX" and "0 \<notin> set nm" and "length e = dir_entry_size" and "0 \<notin> set nm'"
  shows "\<exists>ok st1. dir_add e d nm s st = Some (ok, st1)
    \<and> (ok \<longleftrightarrow> dir_map st (dir_inode d) nm = None \<and> (\<exists>k < entry_cnt st (dir_inode d). \<not> e_in_use (entry st (dir_inode d) k)))
    \<and> dir_map st1 (dir_inode d) = (if ok then (dir_map st (dir_inode d))(nm \<mapsto> s) else dir_map st (dir_inode d))
    \<and> dir_ok st1 (dir_inode d) \<and> only_data (dir_inode d) st st1
    \<and> (\<exists>r st2. lookup d nm' st1 = Some (r, st2) \<and> map_option (\<lambda>(e, ofs). e_inode_sector e) r = dir_map st1 (dir_inode d) nm')"
proof -
  obtain st1 where st1: "dir_add e d nm s st = Some (dir_map st (dir_inode d) nm = None \<and> (\<exists>k < entry_cnt st (dir_inode d). \<not> e_in_use (entry st (dir_inode d) k)), st1)"
      "dir_ok st1 (dir_inode d)" "rich st1" "only_data (dir_inode d) st st1"
      "dir_map st1 (dir_inode d) = (if dir_map st (dir_inode d) nm = None \<and> (\<exists>k < entry_cnt st (dir_inode d). \<not> e_in_use (entry st (dir_inode d) k))
         then (dir_map st (dir_inode d))(nm \<mapsto> s) else dir_map st (dir_inode d))"
    using dir_add_ok [OF assms(1-3) refl assms(4) assms(5-7) [unfolded NAME_MAX_def dir_entry_size_def], of s] by (elim exE conjE) (rule that)
  have "\<exists>r st2. lookup d nm' st1 = Some (r, st2) \<and> map_option (\<lambda>(e, ofs). e_inode_sector e) r = dir_map st1 (dir_inode d) nm'"
    using lookup_ok [OF st1(2,3) assms(8)] by (auto simp: dir_map_def option.map_comp comp_def)
  then show ?thesis using st1(2,4,5)
    by (intro exI [of _ "dir_map st (dir_inode d) nm = None \<and> (\<exists>k < entry_cnt st (dir_inode d). \<not> e_in_use (entry st (dir_inode d) k))"] exI [of _ st1] conjI st1(1) refl)
qed

theorem dir_add_refines_witness:
  "\<exists>st1. dir_add (replicate 20 0) \<lparr>dir_inode = 101, dir_pos = 0\<rparr> [98] 7 (example_fs [101, 100, 102]) = Some (True, st1)
    \<and> dir_map st1 101 = [[97] \<mapsto> 4, [98] \<mapsto> 7]"
proof -
  let ?st = "example_fs [101, 100, 102]" and ?d = "\<lparr>dir_inode = 101, dir_pos = 0\<rparr>"
  have i: "i_data (inodes ?st 101) = example_root" "disk ?st = example_disk" by (simp_all add: example_inode_def)
  note d = example_dir [OF i example_inode_ok]
  have "\<exists>k < entry_cnt ?st 101. \<not> e_in_use (entry ?st 101 k)" using d(2) example_entries [OF i, of 1] by (auto intro!: exI [of _ 1])
  then show ?thesis using dir_add_refines [of ?st ?d "[98]" "replicate 20 0" "[98]" 7] d example_rich
    by (auto simp: example_inode_def NAME_MAX_def dir_entry_size_def)
qed

text \<open>C18: A file that is removed while it is open stays usable: \<open>dir_remove\<close> takes its name from the directory and nothing else,
  marks the inode as removed without closing it, and reading the open inode gives the same bytes as before.\<close>

theorem dir_remove_keeps_open_file:
  assumes "dir_ok st (dir_inode d)" and "rich st" and "deny_write_cnt (inodes st (dir_inode d)) = 0"
    and "0 \<notin> set nm" and "dir_map st (dir_inode d) nm = Some s"
    and jp: "List.find (\<lambda>ip. i_sector (inodes st ip) = s) (open_inodes st) = Some jp" "jp \<noteq> 0" "jp \<noteq> dir_inode d" "open_cnt (inodes st jp) > 0"
      "inode_ok st jp" "data_span (i_data (inodes st jp)) \<inter> data_span (i_data (inodes st (dir_inode d))) = {}"
  shows "\<exists>st1. dir_remove d nm st = Some (True, st1) \<and> dir_ok st1 (dir_inode d) \<and> dir_map st1 (dir_inode d) = (dir_map st (dir_inode d))(nm := None)
    \<and> open_inodes st1 = open_inodes st \<and> inodes st1 = (inodes st)(jp := (inodes st jp)\<lparr>removed := True\<rparr>)
    \<and> (\<exists>st2. inode_read_at jp sz offset st1 = Some (take sz (drop offset (contents st jp)), st2))"
proof -
  obtain st1 where st1: "dir_remove d nm st = Some (True, st1)" "dir_ok st1 (dir_inode d)" "rich st1" "dir_map st1 (dir_inode d) = (dir_map st (dir_inode d))(nm := None)"
      "inodes st1 = (inodes st)(jp := (inodes st jp)\<lparr>removed := True\<rparr>)" "open_inodes st1 = open_inodes st" "fs_device st1 = fs_device st"
      "\<forall>s. unat s \<notin> data_span (i_data (inodes st (dir_inode d))) \<longrightarrow> disk st1 s = disk st s"
    using dir_remove_open [OF assms(1-3) refl assms(4,5) jp(1-4)] unfolding outside_span [symmetric] by (elim exE conjE) (rule that)
  have i: "inode_ok st1 jp" using st1(2,5,7) jp(5) by (simp add: dir_ok_def inode_ok_def)
  have c: "contents st1 jp = contents st jp" by (rule contents_cong) (use jp(5,6) st1(5,8) in \<open>auto simp: inode_ok_def\<close>)
  show ?thesis using st1 inode_read_ok [OF i, of sz offset] unfolding c by (auto simp: rich_def)
qed

theorem dir_remove_keeps_open_file_witness:
  "\<exists>st1. dir_remove \<lparr>dir_inode = 101, dir_pos = 0\<rparr> [97] (example_fs [101, 100, 102]) = Some (True, st1) \<and> dir_map st1 101 = Map.empty
    \<and> (\<exists>st2. inode_read_at 102 10 0 st1 = Some (take 10 (contents (example_fs [101, 100, 102]) 102), st2))"
proof -
  let ?st = "example_fs [101, 100, 102]" and ?d = "\<lparr>dir_inode = 101, dir_pos = 0\<rparr>"
  have i: "i_data (inodes ?st 101) = example_root" "disk ?st = example_disk" by (simp_all add: example_inode_def)
  note d = example_dir [OF i example_inode_ok]
  have "data_span (i_data (inodes ?st 102)) \<inter> data_span (i_data (inodes ?st 101)) = {}"
    by (auto simp: example_inode_def data_span_def span_def example_root_def example_data_def data_sectors_def)
  then show ?thesis using dir_remove_keeps_open_file [of ?st ?d "[97]" 4 102 10 0] d example_rich example_inode_ok
    by (auto simp: example_inode_def)
qed

text \<open>C15: A file that was created can be opened.  In a state between calls, with room in the free map and in the root directory
  and no file of that name, \<open>filesys_create\<close> succeeds, adds the name to the root directory with an inode in a sector that was
  free, and changes no sector in use other than those of the free map and of the root directory; \<open>filesys_open\<close> then returns a
  file at position 0, and reading it gives as many zero bytes as its size allows.\<close>

theorem filesys_create_then_open:
  assumes ok: "fs_ok st xs" and nm: "nm \<noteq> []" "length nm \<le> 14" "0 \<notin> set nm" and e: "length e = 20"
    and len: "0 \<le> len" "len + 512 < 2 ^ 31" and space: "\<exists>i. run_at xs i (Suc ((nat len + 511) div 512)) False"
    and root: "root_map st nm = None" "root_has_slot st"
  shows "\<exists>st1 s ys f st2. filesys_create e nm len st = Some (True, st1) \<and> fs_ok st1 ys \<and> root_map st1 = (root_map st)(nm \<mapsto> s)
    \<and> unat s \<notin> marked xs \<and> unat s \<in> marked ys
    \<and> (\<forall>x. unat x \<in> marked xs \<longrightarrow> unat x \<notin> fm_span st \<longrightarrow> unat x \<notin> root_span st \<longrightarrow> disk st1 x = disk st x)
    \<and> filesys_open nm st1 = Some (f, st2) \<and> f \<noteq> 0 \<and> (\<forall>n. \<exists>st3. file_read f n st2 = Some (replicate (min n (nat len)) 0, st3) \<and> file_tell f st3 = Some (min n (nat len)))"
proof -
  obtain st1 s ys d where c: "filesys_create e nm len st = Some (True, st1)" "fs_ok st1 ys" "root_map st1 = (root_map st)(nm \<mapsto> s)"
      "unat s \<notin> marked xs" "unat s \<in> marked ys" "disk_inode (disk st1 s) = d" "d_length d = len" "in_dev (fs_device st1) d"
      "file_bytes (disk st1) d = replicate (nat len) 0"
      "\<forall>x. unat x \<in> marked xs \<longrightarrow> unat x \<notin> fm_span st \<longrightarrow> unat x \<notin> root_span st \<longrightarrow> disk st1 x = disk st x"
      "open_inodes st1 = open_inodes st" "\<forall>ip \<in> set (open_inodes st). inodes st1 ip = inodes st ip"
    using filesys_create_ok [OF assms] by (elim exE conjE) (rule that)
  have used: "1 \<in> marked xs" "\<forall>ip \<in> set (open_inodes st). unat (i_sector (inodes st ip)) \<in> marked xs" using ok by (simp_all add: fs_ok_def)
  have "s < blk_size (fs_device st1)" using c(2,5) by (simp add: fs_ok_def fm_ok_def marked_def word_less_nat_alt)
  moreover have "s \<noteq> ROOT_DIR_SECTOR" using c(4) used(1) by auto
  moreover have "\<forall>ip \<in> set (open_inodes st1). i_sector (inodes st1 ip) \<noteq> s" using c(4,11,12) used(2) by force
  ultimately obtain f st2 where f: "filesys_open nm st1 = Some (f, st2)" "f \<noteq> 0" "f_pos (files st2 f) = 0" "rich st2"
      "i_data (inodes st2 (f_inode (files st2 f))) = d" "disk st2 = disk st1" "fs_device st2 = fs_device st1"
    using filesys_open_ok [OF c(2) nm(3), of s] c(3,6) by auto
  have full: "full_dev (fs_device st1) (fs_bd st1)" using c(2) by (simp add: fs_ok_def fm_ok_def inode_ok_def)
  have i: "inode_ok st2 (f_inode (files st2 f))" using full c(8) f(5-7) by (simp add: inode_ok_def full_dev_def)
  have "\<exists>st3. file_read f n st2 = Some (replicate (min n (nat len)) 0, st3) \<and> file_tell f st3 = Some (min n (nat len))" for n
    using inode_read_ok [OF i, of n 0] f c(9) by (auto simp: rich_def contents_def file_read_def file_tell_def set_file_def min_def)
  then show ?thesis using c f(1,2) by (intro exI [of _ st1] exI [of _ s] exI [of _ ys] exI [of _ f] exI [of _ st2]) blast
qed

theorem filesys_create_then_open_witness:
  "\<exists>st1 f st2. filesys_create (replicate 20 0) [98] 700 (example_fs [100, 102]) = Some (True, st1) \<and> filesys_open [98] st1 = Some (f, st2)
    \<and> (\<exists>st3. file_read f 1000 st2 = Some (replicate 700 0, st3))"
proof -
  let ?st = "example_fs [100, 102]" and ?p = "probe (example_fs [100, 102]) ROOT_DIR_SECTOR"
  have "disk_inode (example_disk 1) = example_root" by (simp add: example_disk_def disk_inode_bytes example_root_def)
  then have i: "i_data (inodes ?p 0) = example_root" "disk ?p = example_disk" by (simp_all add: probe_def ROOT_DIR_SECTOR_def)
  have ok: "inode_ok ?p 0" using example_fs_ok by (simp add: fs_ok_def dir_ok_def)
  note d = example_dir [OF i ok]
  have "root_map ?st [98] = None" using d(3) by (simp add: root_map_def)
  moreover have "root_has_slot ?st" using d(2) example_entries [OF i, of 1] by (auto simp: root_has_slot_def intro!: exI [of _ 1])
  moreover have "run_at example_map 7 (Suc ((nat 700 + 511) div 512)) False" by (auto simp: run_at_def example_map_def nth_append)
  then have "\<exists>i. run_at example_map i (Suc ((nat 700 + 511) div 512)) False" by blast
  ultimately obtain st1 f st2 where o: "filesys_create (replicate 20 0) [98] 700 ?st = Some (True, st1)" "filesys_open [98] st1 = Some (f, st2)"
      "\<forall>n. \<exists>st3. file_read f n st2 = Some (replicate (min n (nat 700)) 0, st3) \<and> file_tell f st3 = Some (min n (nat 700))"
    using filesys_create_then_open [OF example_fs_ok, of "[98]" "replicate 20 0" 700] by (simp del: One_nat_def) blast
  then show ?thesis using spec [OF o(3), of 1000] by auto
qed

end
