(* ===== verification/Spec2Isabelle.thy ===== *)
theory Spec2Isabelle
  imports Arith64 Klist_Order Frame Stdlib Kernel_Run Filesys_Props
begin

text \<open>
  A verification development for the Pintos kernel of this repository (the C sources under
  \<^verbatim>\<open>src/src\<close>): its data structures, memory management, threads and synchronization, and file
  system, each translated function by function, with the theorems that make it correct.

  \<^bold>\<open>The program.\<close>  The kernel library has bitmaps, linked lists, hash tables, strings, sorting and
  64-bit division.  The page allocator hands out pages of two pools, each with a bitmap of used
  pages.  A page directory maps user addresses to frames; the supplemental page table (a hash
  table for each process) records where the data of a page is: in a file, in swap, or in memory;
  the frame table finds a frame to evict, which goes to swap.  Swap and the file system store
  sectors through the block layer.  The file system has a free map of sectors in a bitmap and in
  a file, inodes with a contiguous run of sectors, directories that are files of 20-byte entries,
  and one root directory.  Threads are scheduled round robin, and semaphores, locks and condition
  variables let them sleep and wake each other.

  \<^bold>\<open>Conventions.\<close>  A call that can fail an assertion, panic, access memory out of bounds, divide
  by zero or not return is a function to \<open>option\<close>, and \<open>None\<close> stands for all of these; so a theorem
  that says \<open>= Some ...\<close> says that the call returns.  Machine integers are words of their width,
  or natural numbers with \<open>wrap32\<close> where a \<open>size_t\<close> can wrap.  Results of \<open>malloc\<close> are arguments, or
  come from the field \<open>heap\<close>, the addresses that the next requests will get (0 when there is no
  memory).  Console messages are left out.  Loops are structural recursion, recursion with a
  termination proof, or \<open>partial_function (option)\<close>; no loop is cut off by fuel.

  \<^bold>\<open>Theories.\<close>

  \<^item> \<open>Prelude\<close>: the word types, \<open>ASSERT\<close>, checked array access, shared lemmas; \<open>Slots\<close>: runs of equal
    entries of a list of bits, and the interface \<open>run_allocator\<close>.

  \<^item> \<open>Arith64\<close>: lib/arithmetic.c.  Division by \<open>divl\<close> steps is division for every divisor but 0;
    remainders are right exactly when they fit 32 bits.

  \<^item> \<open>Bitmap\<close>: lib/kernel/bitmap.c.  Searches are first fit; the interface \<open>run_allocator\<close> holds.

  \<^item> \<open>Klist\<close>, \<open>Klist_Order\<close>: lib/kernel/list.c on links in memory.  Lists refine deques of values
    (interface \<open>deque\<close>); the merge sort is the stable sort.

  \<^item> \<open>Hash\<close>: lib/kernel/hash.c over the interface \<open>hash_keys\<close>.  Rehashing keeps the elements, and
    iteration yields each once.

  \<^item> \<open>Cstring\<close>, \<open>Stdlib\<close>: lib/string.c, lib/stdlib.c, lib/ctype.h.  Tokens of \<open>strtok_r\<close>, copies of
    overlapping blocks, heap sort and binary search (interface \<open>comparison\<close>).

  \<^item> \<open>Vaddr\<close>, \<open>Kmem\<close>, \<open>Palloc\<close>: threads/vaddr.h, threads/pte.h, threads/palloc.c.  Allocated runs of
    pages are disjoint after any history.

  \<^item> \<open>Block\<close>, \<open>Swap\<close>: devices/block.c, the driver of devices/partition.c, vm/swap.c.  A sector is read
    back as written (interface \<open>sector_device\<close>); so is a page in swap, whatever else happens there.

  \<^item> \<open>Pagedir\<close>: userprog/pagedir.c with memory, cr3 and the TLB (interface \<open>address_space\<close>).

  \<^item> \<open>Suppage\<close>, \<open>Frame\<close>: vm/page.c, vm/frame.c.  An evicted page is loaded back byte for byte.

  \<^item> \<open>Thread\<close>, \<open>Synch\<close>: threads/thread.c, threads/synch.c.  A thread is a list of atomic actions still
    to do (\<open>todo\<close>): the parts of a call between which the scheduler may switch.  \<open>do_event\<close> starts a
    call, does one action, a timer tick, an interrupt that raises a semaphore, or an idle step.
    \<open>Synch_Inv\<close>: the invariant of one state.  \<open>Kernel_Run\<close>: all states that events reach from the
    boot.  No assertion fails, at most one thread owns a lock, no wake-up is lost, and a ready
    thread runs within a bounded number of ticks.

  \<^item> \<open>Inode\<close>, \<open>Files\<close>, \<open>Directory\<close>: filesys/inode.c, filesys/file.c, filesys/free-map.c,
    filesys/directory.c, filesys/filesys.c and the file part of lib/kernel/bitmap.c, on the record
    \<open>fs\<close>.  \<open>Dir_Map\<close>: a directory is a map from names to sectors.  \<open>Filesys_Ok\<close>: the invariant \<open>fs_ok\<close>
    between calls (the free map marks what is in use), and allocation.  \<open>Filesys_Create\<close>: creating
    and opening a file.  \<open>Filesys_Props\<close>: the properties, on reads after writes, directories, open
    files that are removed, and new files.

  \<^bold>\<open>Assumptions of single properties.\<close>  Results that are about success assume memory for the
  requests (\<open>rich\<close>, \<open>fresh_heap\<close>) and a disk whose sectors have 512 bytes (\<open>full_dev\<close>); the property
  about a new file assumes a run of free sectors for the inode and the data together.

  \<^bold>\<open>Not modelled.\<close>  The protocols of hardware devices, the interrupt controller and descriptor
  tables, assembly code, console output, the internals of \<open>malloc\<close>, the scan of partition tables,
  command lines, loading of programs and system calls, user programs, and tests.  Locks and
  interrupt disabling inside the data structures other than those of threads/ are taken as given:
  each call of those components runs alone.
\<close>

end
